(* ===== verification/Prelude.thy ===== *)
theory Prelude
  imports Complex_Main "HOL-Library.Word" "HOL-Library.Monad_Syntax"
begin

text \<open>
  Shared vocabulary of the development: the fixed-width integer types of the C++ sources,
  byte buffers with their little-endian accessors, bounds-checked buffer reads, first-match
  searches over fixed-size slot arrays, and the wrap-around millisecond clock.

  A buffer argument pair \<^verbatim>\<open>(const uint8_t* buf, uint16_t len)\<close> is a byte list whose length is
  \<^verbatim>\<open>len\<close>. A read past the end is undefined behaviour in C++; the parsers of the model therefore
  read through \<open>rd8\<close> and friends, which return \<open>None\<close> there, so that memory safety of a parser is
  the theorem that it never returns \<open>None\<close>.
\<close>

unbundle bit_operations_syntax

named_theorems codec_simps \<open>rewrite rules that evaluate encoders and decoders\<close>
named_theorems rd_safe \<open>reads inside the buffer succeed\<close>
named_theorems inv_intros \<open>operations that keep a component's invariant\<close>

type_synonym u8 = "8 word"
type_synonym u16 = "16 word"
type_synonym u32 = "32 word"
type_synonym bytes = "u8 list"

section \<open>Little-endian integers\<close>

definition put_u16 :: "u16 \<Rightarrow> bytes" where
  "put_u16 v = [ucast v, ucast (drop_bit 8 v)]"

definition put_u32 :: "u32 \<Rightarrow> bytes" where
  "put_u32 v = [ucast v, ucast (drop_bit 8 v), ucast (drop_bit 16 v), ucast (drop_bit 24 v)]"

definition mk_u16 :: "u8 \<Rightarrow> u8 \<Rightarrow> u16" where
  "mk_u16 a b = ucast a OR push_bit 8 (ucast b)"

definition mk_u32 :: "u8 \<Rightarrow> u8 \<Rightarrow> u8 \<Rightarrow> u8 \<Rightarrow> u32" where
  "mk_u32 a b c d =
     ucast a OR push_bit 8 (ucast b) OR push_bit 16 (ucast c) OR push_bit 24 (ucast d)"

section \<open>Bounds-checked reads\<close>

definition rd8 :: "bytes \<Rightarrow> nat \<Rightarrow> u8 option" where
  "rd8 bs i = (if i < length bs then Some (bs ! i) else None)"

definition rd16 :: "bytes \<Rightarrow> nat \<Rightarrow> u16 option" where
  "rd16 bs i = do { a \<leftarrow> rd8 bs i; b \<leftarrow> rd8 bs (i + 1); Some (mk_u16 a b) }"

definition rd32 :: "bytes \<Rightarrow> nat \<Rightarrow> u32 option" where
  "rd32 bs i = do { a \<leftarrow> rd8 bs i; b \<leftarrow> rd8 bs (i + 1); c \<leftarrow> rd8 bs (i + 2);
                    d \<leftarrow> rd8 bs (i + 3); Some (mk_u32 a b c d) }"

definition rdn :: "bytes \<Rightarrow> nat \<Rightarrow> nat \<Rightarrow> bytes option" where
  "rdn bs i n = (if i + n \<le> length bs then Some (take n (drop i bs)) else None)"

section \<open>First-match search over slot arrays\<close>

text \<open>The loop \<^verbatim>\<open>for (i = 0; i < N; i++) if (P(slots[i])) return i;\<close>.\<close>

fun find_idx :: "('a \<Rightarrow> bool) \<Rightarrow> 'a list \<Rightarrow> nat option" where
  "find_idx P [] = None"
| "find_idx P (x # xs) = (if P x then Some 0 else map_option Suc (find_idx P xs))"

text \<open>The scan \<^verbatim>\<open>for (i...) { if (!ok(s[i])) continue; if (best < 0 || better(s[i], s[best])) best = i; }\<close>.\<close>

fun scan_best :: "('a \<Rightarrow> bool) \<Rightarrow> ('a \<Rightarrow> 'a \<Rightarrow> bool) \<Rightarrow> nat \<Rightarrow> 'a list \<Rightarrow> (nat \<times> 'a) option \<Rightarrow> (nat \<times> 'a) option" where
  "scan_best ok better i [] b = b"
| "scan_best ok better i (x # xs) b =
     scan_best ok better (i + 1) xs
       (if ok x \<and> (case b of None \<Rightarrow> True | Some (_, y) \<Rightarrow> better x y) then Some (i, x) else b)"

definition best_idx :: "('a \<Rightarrow> bool) \<Rightarrow> ('a \<Rightarrow> 'a \<Rightarrow> bool) \<Rightarrow> 'a list \<Rightarrow> nat option" where
  "best_idx ok better xs = map_option fst (scan_best ok better 0 xs None)"

text \<open>In-place update of one slot, \<^verbatim>\<open>slots[i].field = v\<close>.\<close>

definition upd_at :: "nat \<Rightarrow> ('a \<Rightarrow> 'a) \<Rightarrow> 'a list \<Rightarrow> 'a list" where
  "upd_at i f xs = (if i < length xs then xs[i := f (xs ! i)] else xs)"

definition count_if :: "('a \<Rightarrow> bool) \<Rightarrow> 'a list \<Rightarrow> nat" where
  "count_if P xs = length (filter P xs)"

section \<open>The millisecond clock\<close>

text \<open>\<^verbatim>\<open>(int32_t)(a - b) < 0\<close>: time \<open>a\<close> lies before time \<open>b\<close> on the 32-bit clock, wrap-safe
  while the two are less than \<open>2 ^ 31\<close> ms apart.\<close>

definition before32 :: "u32 \<Rightarrow> u32 \<Rightarrow> bool" where
  "before32 a b \<longleftrightarrow> sint (a - b) < 0"

section \<open>Lemmas: little-endian round trips\<close>

lemma length_put_u16 [simp]: "length (put_u16 v) = 2"
  by (simp add: put_u16_def)

lemma length_put_u32 [simp]: "length (put_u32 v) = 4"
  by (simp add: put_u32_def)

lemma mk_u16_put [simp]: "mk_u16 (ucast v) (ucast (drop_bit 8 v)) = v"
  unfolding mk_u16_def by (rule bit_word_eqI) (auto simp: bit_simps)

lemma put_mk_u16 [simp]: "put_u16 (mk_u16 a b) = [a, b]"
  unfolding put_u16_def mk_u16_def
  by (auto intro!: bit_word_eqI simp: bit_simps) (auto dest: bit_imp_le_length)

lemma mk_u32_put [simp]:
  "mk_u32 (ucast v) (ucast (drop_bit 8 v)) (ucast (drop_bit 16 v)) (ucast (drop_bit 24 v)) = v"
proof (rule bit_word_eqI)
  fix n assume n: "n < LENGTH(32)"
  then consider "n < 8" | "8 \<le> n" "n < 16" | "16 \<le> n" "n < 24" | "24 \<le> n" "n < 32" by force
  then show "bit (mk_u32 (ucast v) (ucast (drop_bit 8 v)) (ucast (drop_bit 16 v))
      (ucast (drop_bit 24 v))) n \<longleftrightarrow> bit v n"
    unfolding mk_u32_def by cases (auto simp: bit_simps)
qed

lemma put_mk_u32 [simp]: "put_u32 (mk_u32 a b c d) = [a, b, c, d]"
  unfolding put_u32_def mk_u32_def
  by (auto intro!: bit_word_eqI simp: bit_simps) (auto dest: bit_imp_le_length)

lemma put_u16_inj: "put_u16 v = put_u16 w \<longleftrightarrow> v = w"
  unfolding put_u16_def by (metis list.inject mk_u16_put)

lemma put_u32_inj: "put_u32 v = put_u32 w \<longleftrightarrow> v = w"
  unfolding put_u32_def by (metis list.inject mk_u32_put)

section \<open>Lemmas: reads\<close>

lemma rd8_some [rd_safe]: "i < length bs \<Longrightarrow> rd8 bs i = Some (bs ! i)"
  by (simp add: rd8_def)

lemma rd8_none_iff: "rd8 bs i = None \<longleftrightarrow> length bs \<le> i"
  by (auto simp: rd8_def)

lemma rd16_some [rd_safe]: "i + 1 < length bs \<Longrightarrow> rd16 bs i = Some (mk_u16 (bs ! i) (bs ! (i + 1)))"
  by (simp add: rd16_def rd8_def)

lemma rd32_some [rd_safe]:
  "i + 3 < length bs \<Longrightarrow>
     rd32 bs i = Some (mk_u32 (bs ! i) (bs ! (i + 1)) (bs ! (i + 2)) (bs ! (i + 3)))"
  by (simp add: rd32_def rd8_def)

lemma rdn_some [rd_safe]: "i + n \<le> length bs \<Longrightarrow> rdn bs i n = Some (take n (drop i bs))"
  by (simp add: rdn_def)

lemma rdn_length: "rdn bs i n = Some x \<Longrightarrow> length x = n"
  by (auto simp: rdn_def split: if_splits)

text \<open>Reading back a field at its offset in a concatenation.\<close>

lemma rd8_append:
  "rd8 (xs @ ys) i = (if i < length xs then rd8 xs i else rd8 ys (i - length xs))"
  by (auto simp: rd8_def nth_append)

lemma rd8_at: "length xs = i \<Longrightarrow> rd8 (xs @ b # ys) i = Some b"
  by (simp add: rd8_def nth_append)

lemma rd16_at: "length xs = i \<Longrightarrow> rd16 (xs @ put_u16 v @ ys) i = Some v"
  by (simp add: rd16_def rd8_def nth_append put_u16_def)

lemma rd32_at: "length xs = i \<Longrightarrow> rd32 (xs @ put_u32 v @ ys) i = Some v"
  by (simp add: rd32_def rd8_def nth_append put_u32_def)

lemma rdn_at: "length xs = i \<Longrightarrow> length v = n \<Longrightarrow> rdn (xs @ v @ ys) i n = Some v"
  by (simp add: rdn_def)

lemma rd16_0 [codec_simps]: "rd16 (put_u16 v @ ys) 0 = Some v"
  using rd16_at [of "[]" 0 v ys] by simp

lemma rd32_0 [codec_simps]: "rd32 (put_u32 v @ ys) 0 = Some v"
  using rd32_at [of "[]" 0 v ys] by simp

lemma rd16_0' [codec_simps]: "rd16 (put_u16 v) 0 = Some v"
  using rd16_0 [of v "[]"] by simp

lemma rd32_0' [codec_simps]: "rd32 (put_u32 v) 0 = Some v"
  using rd32_0 [of v "[]"] by simp

lemma rdn_0 [codec_simps]: "length v = n \<Longrightarrow> rdn (v @ ys) 0 n = Some v"
  by (simp add: rdn_def)

text \<open>The same, walking past a prefix.\<close>

lemma rd8_skip [codec_simps]: "length xs \<le> i \<Longrightarrow> rd8 (xs @ ys) i = rd8 ys (i - length xs)"
  by (auto simp: rd8_def nth_append)

lemma rd16_skip [codec_simps]: "length xs \<le> i \<Longrightarrow> rd16 (xs @ ys) i = rd16 ys (i - length xs)"
  by (simp add: rd16_def rd8_skip Suc_diff_le)

lemma rd32_skip [codec_simps]: "length xs \<le> i \<Longrightarrow> rd32 (xs @ ys) i = rd32 ys (i - length xs)"
  by (simp add: rd32_def rd8_skip Suc_diff_le)

lemma rdn_skip [codec_simps]: "length xs \<le> i \<Longrightarrow> rdn (xs @ ys) i n = rdn ys (i - length xs) n"
  by (auto simp: rdn_def)

lemma rd8_Cons [codec_simps]: "rd8 (x # xs) i = (if i = 0 then Some x else rd8 xs (i - 1))"
  by (auto simp: rd8_def)

lemma rd16_Cons [codec_simps]: "0 < i \<Longrightarrow> rd16 (x # xs) i = rd16 xs (i - 1)"
  using rd16_skip [of "[x]" i xs] by simp

lemma rd32_Cons [codec_simps]: "0 < i \<Longrightarrow> rd32 (x # xs) i = rd32 xs (i - 1)"
  using rd32_skip [of "[x]" i xs] by simp

lemma rdn_Cons [codec_simps]: "0 < i \<Longrightarrow> rdn (x # xs) i n = rdn xs (i - 1) n"
  using rdn_skip [of "[x]" i xs n] by simp

lemma rd8_none_mono: "rd8 bs i \<noteq> None \<Longrightarrow> j \<le> i \<Longrightarrow> rd8 bs j \<noteq> None"
  by (auto simp: rd8_none_iff)

section \<open>Lemmas: first-match search\<close>

lemma find_idx_Some_iff:
  "find_idx P xs = Some i \<longleftrightarrow> i < length xs \<and> P (xs ! i) \<and> (\<forall>j<i. \<not> P (xs ! j))"
proof (induction xs arbitrary: i)
  case Nil
  then show ?case by simp
next
  case (Cons x xs)
  show ?case
  proof (cases i)
    case 0
    then show ?thesis by auto
  next
    case (Suc k)
    then show ?thesis using Cons.IH[of k] by (auto simp: less_Suc_eq_0_disj)
  qed
qed

lemma find_idx_None_iff: "find_idx P xs = None \<longleftrightarrow> (\<forall>x\<in>set xs. \<not> P x)"
  by (induction xs) auto

lemma find_idx_lt: "find_idx P xs = Some i \<Longrightarrow> i < length xs"
  by (simp add: find_idx_Some_iff)

lemma find_idx_sat: "find_idx P xs = Some i \<Longrightarrow> P (xs ! i)"
  by (simp add: find_idx_Some_iff)

lemma find_idx_cong_nth:
  "(\<And>i. i < length xs \<Longrightarrow> P (xs ! i) = Q (ys ! i)) \<Longrightarrow> length xs = length ys \<Longrightarrow>
     find_idx P xs = find_idx Q ys"
proof (induction xs arbitrary: ys)
  case Nil
  then show ?case by simp
next
  case (Cons x xs)
  from Cons.prems(2) obtain y ys' where ys: "ys = y # ys'" by (cases ys) auto
  have "find_idx P xs = find_idx Q ys'"
  proof (rule Cons.IH)
    show "P (xs ! i) = Q (ys' ! i)" if "i < length xs" for i
      using Cons.prems(1)[of "Suc i"] that ys by simp
    show "length xs = length ys'" using Cons.prems(2) ys by simp
  qed
  with Cons.prems(1)[of 0] ys show ?case by simp
qed

text \<open>The scan finds a best element. The loop invariant: the candidate comes from the part already seen
  and is minimal there.\<close>

lemma scan_best_sound:
  assumes "case b of None \<Rightarrow> \<forall>x\<in>set pre. \<not> ok x | Some (i, x) \<Rightarrow> i < length pre \<and> pre ! i = x \<and> ok x"
  shows "case scan_best ok better (length pre) xs b of
      None \<Rightarrow> \<forall>x\<in>set (pre @ xs). \<not> ok x
    | Some (i, x) \<Rightarrow> i < length (pre @ xs) \<and> (pre @ xs) ! i = x \<and> ok x"
  using assms
proof (induction xs arbitrary: pre b)
  case Nil
  then show ?case by (cases b) auto
next
  case (Cons x xs)
  define b' where "b' = (if ok x \<and> (case b of None \<Rightarrow> True | Some (_, y) \<Rightarrow> better x y) then Some (length pre, x) else b)"
  have "case b' of None \<Rightarrow> \<forall>y\<in>set (pre @ [x]). \<not> ok y | Some (i, y) \<Rightarrow> i < length (pre @ [x]) \<and> (pre @ [x]) ! i = y \<and> ok y"
    using Cons.prems by (auto simp: b'_def nth_append split: option.splits prod.splits if_splits)
  from Cons.IH [OF this] show ?case unfolding scan_best.simps b'_def [symmetric] append_Cons append_Nil append_assoc
    by (simp only: length_append list.size add_0 append_Cons append_Nil append_assoc Suc_eq_plus1)
qed

lemma best_idx_None: "best_idx ok better xs = None \<longleftrightarrow> (\<forall>x\<in>set xs. \<not> ok x)"
  using scan_best_sound [where b = None and pre = "[]" and ok = ok and better = better and xs = xs]
  by (auto simp: best_idx_def split: option.splits)

lemma best_idx_Some: "best_idx ok better xs = Some i \<Longrightarrow> i < length xs \<and> ok (xs ! i)"
  using scan_best_sound [where b = None and pre = "[]" and ok = ok and better = better and xs = xs] by (auto simp: best_idx_def split: option.splits)

lemma scan_best_min:
  fixes f :: "'a \<Rightarrow> nat"
  assumes "\<And>x y. x \<in> S \<Longrightarrow> y \<in> S \<Longrightarrow> better x y \<longleftrightarrow> f x < f y"
  shows "set xs \<subseteq> S \<Longrightarrow> (\<And>i y. b = Some (i, y) \<Longrightarrow> y \<in> S) \<Longrightarrow> scan_best ok better i xs b = Some (k, z) \<Longrightarrow>
    (\<forall>x\<in>set xs. ok x \<longrightarrow> f z \<le> f x) \<and> (\<forall>j y. b = Some (j, y) \<longrightarrow> f z \<le> f y) \<and> z \<in> S"
proof (induction xs arbitrary: i b)
  case Nil
  then show ?case by auto
next
  case (Cons x xs)
  define b' where "b' = (if ok x \<and> (case b of None \<Rightarrow> True | Some (_, y) \<Rightarrow> better x y) then Some (i, x) else b)"
  have x: "x \<in> S" "set xs \<subseteq> S" using Cons.prems(1) by auto
  have bS: "\<And>j y. b' = Some (j, y) \<Longrightarrow> y \<in> S"
    using Cons.prems(2) x unfolding b'_def by (auto split: if_splits)
  have run: "scan_best ok better (i + 1) xs b' = Some (k, z)"
    using Cons.prems(3) unfolding scan_best.simps b'_def by simp
  have *: "\<forall>w\<in>set xs. ok w \<longrightarrow> f z \<le> f w" "\<forall>j y. b' = Some (j, y) \<longrightarrow> f z \<le> f y" "z \<in> S"
    using Cons.IH [OF x(2) _ run] bS by blast+
  have "(ok x \<longrightarrow> f z \<le> f x) \<and> (\<forall>j y. b = Some (j, y) \<longrightarrow> f z \<le> f y)"
  proof (cases "ok x \<and> (case b of None \<Rightarrow> True | Some (_, y) \<Rightarrow> better x y)")
    case True
    then have "f z \<le> f x" using *(2) by (auto simp: b'_def)
    moreover have "f x < f y" if "b = Some (j, y)" for j y using True that assms x(1) Cons.prems(2) by auto
    ultimately show ?thesis by fastforce
  next
    case False
    then have "b' = b" by (simp only: b'_def if_False)
    then have bz: "\<forall>j y. b = Some (j, y) \<longrightarrow> f z \<le> f y" using *(2) by simp
    moreover have "f y \<le> f x" if "ok x" "b = Some (j, y)" for j y
      using False that assms [of x y] x(1) Cons.prems(2) by (auto simp: not_less)
    ultimately show ?thesis using False by (cases b) (auto intro: order_trans)
  qed
  with * show ?case by auto
qed

lemma best_idx_min:
  fixes f :: "'a \<Rightarrow> nat"
  assumes "best_idx ok better xs = Some i" and "\<And>x y. x \<in> set xs \<Longrightarrow> y \<in> set xs \<Longrightarrow> better x y \<longleftrightarrow> f x < f y"
    and "j < length xs" and "ok (xs ! j)"
  shows "f (xs ! i) \<le> f (xs ! j)"
proof -
  obtain z where z: "scan_best ok better 0 xs None = Some (i, z)" using assms(1) by (auto simp: best_idx_def)
  have "xs ! i = z" using scan_best_sound [where b = None and pre = "[]" and ok = ok and better = better and xs = xs] z by simp
  with scan_best_min [OF assms(2) order_refl _ z] assms(3,4) show ?thesis by (simp add: nth_mem)
qed

lemma length_upd_at [simp]: "length (upd_at i f xs) = length xs"
  by (simp add: upd_at_def)

lemma nth_upd_at:
  "j < length xs \<Longrightarrow> upd_at i f xs ! j = (if j = i then f (xs ! i) else xs ! j)"
  by (simp add: upd_at_def nth_list_update)

lemma set_upd_at_subset: "set (upd_at i f xs) \<subseteq> set xs \<union> f ` set xs"
  by (auto simp: upd_at_def dest!: subsetD [OF set_update_subset_insert])

lemma count_if_le: "count_if P xs \<le> length xs"
  by (simp add: count_if_def)

lemma count_if_update:
  "i < length xs \<Longrightarrow>
     count_if P (xs[i := e]) + (if P (xs ! i) then 1 else 0) = count_if P xs + (if P e then 1 else 0)"
proof (induction xs arbitrary: i)
  case Nil
  then show ?case by simp
next
  case (Cons x xs)
  then show ?case by (cases i) (auto simp: count_if_def)
qed

lemma count_if_zero: "count_if P xs = 0 \<longleftrightarrow> (\<forall>x\<in>set xs. \<not> P x)"
  by (auto simp: count_if_def filter_empty_conv)

lemma count_if_full: "count_if P xs = length xs \<longleftrightarrow> (\<forall>x\<in>set xs. P x)"
  unfolding count_if_def by (metis filter_True length_filter_less less_irrefl)

lemma nth_in_update [intro]: "j < length xs \<Longrightarrow> j \<noteq> i \<Longrightarrow> xs ! j \<in> set (xs[i := e])"
  by (metis length_list_update nth_list_update_neq nth_mem)

lemma take_2: "2 \<le> length xs \<Longrightarrow> take 2 xs = [xs ! 0, xs ! 1]"
  by (rule nth_equalityI) (auto simp: less_2_cases_iff)

lemma take_4: "4 \<le> length xs \<Longrightarrow> take 4 xs = [xs ! 0, xs ! 1, xs ! 2, xs ! 3]"
  by (rule nth_equalityI) (auto simp: numeral_eq_Suc less_Suc_eq)

lemma take_3: "3 \<le> length xs \<Longrightarrow> take 3 xs = [xs ! 0, xs ! 1, xs ! 2]"
  by (rule nth_equalityI) (auto simp: numeral_eq_Suc less_Suc_eq)

lemma take_split: "m \<le> n \<Longrightarrow> take n xs = take m xs @ take (n - m) (drop m xs)"
  by (metis le_add_diff_inverse take_add)

lemma mod_shift_inj:
  fixes a i j n :: nat
  assumes "(a + i) mod n = (a + j) mod n" and "i < n" and "j < n"
  shows "i = j"
proof -
  have "i = j" if "i \<le> j" "(a + j) mod n = (a + i) mod n" "j < n" for i j
  proof -
    have "n dvd j - i" using that by (simp add: mod_eq_dvd_iff_nat)
    moreover have "j - i < n" using that by simp
    ultimately show ?thesis using that(1) by (metis diff_is_0_eq dvd_imp_le le_antisym not_less zero_less_iff_neq_zero)
  qed
  then show ?thesis using assms by (metis nat_le_linear)
qed

section \<open>Lemmas: options\<close>

lemma option_eqI: "(\<And>e. a = Some e \<longleftrightarrow> b = Some e) \<Longrightarrow> a = b"
  by (cases a; cases b) (metis option.discI option.inject)+

section \<open>Lemmas: the clock\<close>

lemma before32_irrefl [simp]: "\<not> before32 a a"
  by (simp add: before32_def)

lemma before32_unat: "before32 a b \<longleftrightarrow> 2 ^ 31 \<le> unat (a - b)"
proof -
  let ?w = "a - b"
  have "sint ?w < 0 \<longleftrightarrow> bit (unat ?w) 31"
    using bit_last_iff [of ?w] by (simp add: bit_unsigned_iff)
  also have "\<dots> \<longleftrightarrow> odd (unat ?w div 2 ^ 31)"
    by (simp add: bit_iff_odd)
  also have "\<dots> \<longleftrightarrow> 2 ^ 31 \<le> unat ?w"
  proof -
    have "unat ?w < 2 ^ 32" using unsigned_less [of ?w] by simp
    then have "unat ?w div 2 ^ 31 = 0 \<or> unat ?w div 2 ^ 31 = 1" by auto
    moreover have "unat ?w div 2 ^ 31 = 0 \<longleftrightarrow> unat ?w < 2 ^ 31" by (simp add: div_eq_0_iff)
    ultimately show ?thesis by (metis even_zero not_le odd_one)
  qed
  finally show ?thesis by (simp add: before32_def)
qed

text \<open>A deadline \<open>d\<close> ms ahead of \<open>t\<close>, seen \<open>e\<close> ms after \<open>t\<close>: it lies in the future exactly while
  \<open>e < d\<close>, as long as both intervals stay below \<open>2 ^ 31\<close> ms, wherever the clock wraps.\<close>

lemma before32_deadline:
  assumes "unat d < 2 ^ 31" and "unat e < 2 ^ 31"
  shows "before32 (t + e) (t + d) \<longleftrightarrow> unat e < unat d"
proof -
  have "unat ((t + e) - (t + d)) = (if unat d \<le> unat e then unat e - unat d
      else unat e + 2 ^ 32 - unat d)"
    by (simp add: unat_sub_if_size word_size)
  with assms show ?thesis by (auto simp: before32_unat)
qed

text \<open>A property of every result of a computation that may fail.\<close>

lemma pred_option_bindI: "(\<And>a. x = Some a \<Longrightarrow> pred_option P (f a)) \<Longrightarrow> pred_option P (Option.bind x f)"
  by (cases x) simp_all

end
