(* ===== verification/Mesh_Types.thy ===== *)
theory Mesh_Types
  imports Prelude
begin

text \<open>
  \<^verbatim>\<open>lib/mesh/mesh_types.h\<close> and \<^verbatim>\<open>capabilities.h\<close>: the 16-byte self-certifying node id, its
  hexadecimal form, the 32-bit fold, and the two-byte handle into the interned node table.
\<close>

section \<open>Node ids\<close>

text \<open>\<^verbatim>\<open>struct NodeId { uint8_t b[16]; }\<close>: exactly sixteen bytes, compared byte by byte.\<close>

typedef node_id = "{bs :: bytes. length bs = 16}"
  morphisms nid_bytes Abs_node_id
  by (rule exI [of _ "replicate 16 0"]) simp

lemma node_id_abstype [code abstype]: "Abs_node_id (nid_bytes i) = i"
  by (rule nid_bytes_inverse)

instantiation node_id :: equal
begin

definition equal_node_id :: "node_id \<Rightarrow> node_id \<Rightarrow> bool" where
  "equal_node_id a b \<longleftrightarrow> nid_bytes a = nid_bytes b"

instance
  by standard (simp add: equal_node_id_def nid_bytes_inject)

end

text \<open>\<^verbatim>\<open>nid_read\<close> copies the sixteen bytes at a pointer; its callers have checked that they exist
  (\<open>rd_nid\<close> below). Shorter input is padded with zero bytes, the state of the zero-initialised id
  that \<^verbatim>\<open>nid_from_hex\<close> fills from the front.\<close>

definition nid_read :: "bytes \<Rightarrow> node_id" where
  "nid_read p = Abs_node_id (take 16 (p @ replicate 16 0))"

lemma nid_bytes_nid_read [code abstract]: "nid_bytes (nid_read p) = take 16 (p @ replicate 16 0)"
  unfolding nid_read_def by (rule Abs_node_id_inverse) simp

definition nid_write :: "node_id \<Rightarrow> bytes" where
  "nid_write i = nid_bytes i"

definition rd_nid :: "bytes \<Rightarrow> nat \<Rightarrow> node_id option" where
  "rd_nid bs i = map_option nid_read (rdn bs i 16)"

definition nid_zero :: node_id where
  "nid_zero = nid_read []"

definition is_zero :: "node_id \<Rightarrow> bool" where
  "is_zero i \<longleftrightarrow> nid_bytes i = replicate 16 0"

definition NODE_ID_BROADCAST :: node_id where
  "NODE_ID_BROADCAST = nid_read (replicate 16 0xFF)"

definition nid_fold :: "node_id \<Rightarrow> u32" where
  "nid_fold i = foldl (\<lambda>h b. (h XOR ucast b) * 16777619) 2166136261 (nid_bytes i)"

definition nid_from_u32 :: "u32 \<Rightarrow> node_id" where
  "nid_from_u32 v = nid_read (put_u32 v)"

section \<open>Hexadecimal form\<close>

definition hx :: "nat \<Rightarrow> char" where
  "hx n = ''0123456789ABCDEF'' ! n"

definition nid_hex :: "node_id \<Rightarrow> string" where
  "nid_hex i = concat (map (\<lambda>b. [hx (unat (drop_bit 4 b)), hx (unat (b AND 0xF))]) (nid_bytes i))"

definition nid_hexval :: "char \<Rightarrow> int" where
  "nid_hexval c = (let n = (of_char c :: int) in
     if 48 \<le> n \<and> n \<le> 57 then n - 48
     else if 97 \<le> n \<and> n \<le> 102 then n - 97 + 10
     else if 65 \<le> n \<and> n \<le> 70 then n - 65 + 10
     else - 1)"

text \<open>The parsing loop over at most \<open>n\<close> bytes. The end of the C string is a NUL character, which
  is no hex digit, so the loop stops there.\<close>

fun hex_pairs :: "nat \<Rightarrow> string \<Rightarrow> bytes" where
  "hex_pairs 0 s = []"
| "hex_pairs (Suc n) [] = []"
| "hex_pairs (Suc n) [c] = []"
| "hex_pairs (Suc n) (c # d # s) =
     (let hi = nid_hexval c; lo = nid_hexval d in
      if hi < 0 then [] else if lo < 0 then []
      else (push_bit 4 (word_of_int hi) OR word_of_int lo) # hex_pairs n s)"

definition nid_from_hex :: "string \<Rightarrow> nat \<times> node_id" where
  "nid_from_hex s = (let bs = hex_pairs 16 s in (length bs, nid_read bs))"

section \<open>Handles into the node table, link addresses, capabilities\<close>

type_synonym link_addr = u8

record node_ref =
  r_idx :: u8
  r_gen :: u8

definition NODE_REF_NONE :: node_ref where
  "NODE_REF_NONE = \<lparr>r_idx = 0xFF, r_gen = 0\<rparr>"

definition ref_is_none :: "node_ref \<Rightarrow> bool" where
  "ref_is_none r \<longleftrightarrow> r_idx r = r_idx NODE_REF_NONE"

definition CAP_SELECTIVE_ACK :: u16 where "CAP_SELECTIVE_ACK = 1"
definition CAP_SESSION_ADDR :: u16 where "CAP_SESSION_ADDR = 2"
definition CAP_DICT_COMPRESS1 :: u16 where "CAP_DICT_COMPRESS1 = 4"
definition NODE_CAPS :: u16 where "NODE_CAPS = 0"

section \<open>Lemmas\<close>

lemma length_nid_bytes [simp]: "length (nid_bytes i) = 16"
  using nid_bytes [of i] by simp

lemma length_nid_write [simp]: "length (nid_write i) = 16"
  by (simp add: nid_write_def)

lemma nid_bytes_read: "length p = 16 \<Longrightarrow> nid_bytes (nid_read p) = p"
  by (simp add: nid_bytes_nid_read)

lemma nid_read_bytes [simp]: "nid_read (nid_bytes i) = i"
  by (metis length_nid_bytes nid_bytes_inject nid_bytes_read)

lemma nid_read_write [simp]: "nid_read (nid_write i) = i"
  by (simp add: nid_write_def)

lemma nid_write_inj: "nid_write a = nid_write b \<longleftrightarrow> a = b"
  by (simp add: nid_write_def nid_bytes_inject)

lemma is_zero_iff: "is_zero i \<longleftrightarrow> i = nid_zero"
proof -
  have "nid_bytes nid_zero = replicate 16 0" by (simp add: nid_zero_def nid_bytes_nid_read)
  then show ?thesis unfolding is_zero_def by (metis nid_bytes_inject)
qed

lemma rd_nid_some [rd_safe]: "i + 16 \<le> length bs \<Longrightarrow> rd_nid bs i = Some (nid_read (take 16 (drop i bs)))"
  by (simp add: rd_nid_def rd_safe)

lemma rd_nid_at: "length xs = i \<Longrightarrow> rd_nid (xs @ nid_write v @ ys) i = Some v"
  by (simp add: rd_nid_def rdn_at)

lemma rd_nid_0 [codec_simps]: "rd_nid (nid_write v @ ys) 0 = Some v"
  using rd_nid_at [of "[]" 0 v ys] by simp

lemma rd_nid_0' [codec_simps]: "rd_nid (nid_write v) 0 = Some v"
  using rd_nid_0 [of v "[]"] by simp

lemma rd_nid_skip [codec_simps]: "length xs \<le> i \<Longrightarrow> rd_nid (xs @ ys) i = rd_nid ys (i - length xs)"
  by (simp add: rd_nid_def rdn_skip)

lemma rd_nid_Cons [codec_simps]: "0 < i \<Longrightarrow> rd_nid (x # xs) i = rd_nid xs (i - 1)"
  using rd_nid_skip [of "[x]" i xs] by simp

lemma nid_broadcast_nonzero: "\<not> is_zero NODE_ID_BROADCAST"
  by code_simp

text \<open>The two hexadecimal digits of a byte read back as the byte, checked for each nibble.\<close>

lemma nid_hexval_hx: "n < 16 \<Longrightarrow> nid_hexval (hx n) = int n"
proof -
  have "\<forall>n\<in>set [0..<16]. nid_hexval (hx n) = int n" by code_simp
  then show "n < 16 \<Longrightarrow> nid_hexval (hx n) = int n" by auto
qed

lemma nibbles_lt: "unat (drop_bit 4 (b :: u8)) < 16" "unat (b AND 0xF) < 16"
proof -
  have "unat b < 256" using unsigned_less [of b] by simp
  then have "unat b div 16 < 16" by simp
  then show "unat (drop_bit 4 b) < 16" by (simp only: unat_drop_bit_eq) (simp add: drop_bit_eq_div)
  have "b AND 0xF \<le> 0xF" by (rule word_and_le1)
  then show "unat (b AND 0xF) < 16" by (simp add: word_le_nat_alt)
qed

lemma nibbles_join: "push_bit 4 (drop_bit 4 b) OR (b AND 15) = (b :: u8)"
proof -
  have m: "(15 :: u8) = mask 4" by (simp add: mask_eq_exp_minus_1)
  show ?thesis unfolding m by (rule bit_word_eqI) (auto simp: bit_simps)
qed

lemma hex_pairs_hex:
  "length bs \<le> n \<Longrightarrow>
   hex_pairs n (concat (map (\<lambda>b. [hx (unat (drop_bit 4 b)), hx (unat (b AND 0xF))]) bs) @ s) =
     bs @ hex_pairs (n - length bs) s"
proof (induction bs arbitrary: n)
  case Nil
  then show ?case by simp
next
  case (Cons b bs)
  then obtain m where "n = Suc m" by (cases n) auto
  with Cons nibbles_lt [of b] show ?case
    by (simp add: nid_hexval_hx nibbles_join Let_def)
qed

text \<open>
  Node ids survive their printed form: whatever follows it on the line, parsing the 32
  uppercase hex digits that \<^verbatim>\<open>nid_hex\<close> prints fills all sixteen bytes and returns the same id
  (natural byte order, no 32-bit overflow).
\<close>

theorem nid_hex_roundtrip: "nid_from_hex (nid_hex i @ rest) = (16, i)"
proof -
  have "hex_pairs 16 (nid_hex i @ rest) = nid_bytes i"
    unfolding nid_hex_def using hex_pairs_hex [of "nid_bytes i" 16 rest] by simp
  then show ?thesis by (simp add: nid_from_hex_def Let_def)
qed

end
