(* ===== verification/Float32.thy ===== *)
theory Float32
  imports Prelude
begin

text \<open>
  IEEE-754 binary32 arithmetic, as the C++ type \<^verbatim>\<open>float\<close> has it on the target boards. A finite
  float is a rational number; an operation computes the exact rational result and rounds it with
  \<open>fl\<close>, round-to-nearest with ties to even, a 24-bit significand and gradual underflow at
  \<open>2 ^ -149\<close>. Infinities and NaN are not values of the model: the qualities of the code stay in
  \<open>[0, 1]\<close> and its route costs below \<open>10 ^ 6\<close>, far from the overflow threshold \<open>2 ^ 128\<close>. An
  expression is rounded operation by operation, as the source writes it (no fused multiply-add).

  The locale \<open>rounding\<close> names what the components rely on: rounding is monotone and leaves every
  representable value alone. Its interpretation on \<open>fl\<close> discharges those laws.
\<close>

type_synonym float32 = rat

section \<open>Rounding\<close>

function ilog2 :: "int \<Rightarrow> int" where
  "ilog2 n = (if n \<le> 1 then 0 else ilog2 (n div 2) + 1)"
  by pat_completeness auto
termination
  by (relation "measure nat") auto

declare ilog2.simps [simp del]

text \<open>Round to the nearest integer, ties to even.\<close>

definition rne :: "rat \<Rightarrow> int" where
  "rne x = (let f = \<lfloor>x\<rfloor>; d = x - of_int f in
     if d < 1 / 2 then f else if 1 / 2 < d then f + 1 else if even f then f else f + 1)"

text \<open>The binary exponent of a positive rational.\<close>

definition fexp :: "rat \<Rightarrow> int" where
  "fexp x = (let (n, d) = quotient_of x; e = ilog2 n - ilog2 d in
     if x < 2 powi e then e - 1 else e)"

text \<open>The distance of neighbouring floats around \<open>x\<close>.\<close>

definition ulp :: "rat \<Rightarrow> rat" where
  "ulp x = 2 powi (max (fexp \<bar>x\<bar>) (- 126) - 23)"

definition fl :: "rat \<Rightarrow> float32" where
  "fl x = (if x = 0 then 0 else of_int (rne (x / ulp x)) * ulp x)"

definition representable :: "rat \<Rightarrow> bool" where
  "representable x \<longleftrightarrow> fl x = x"

definition fadd :: "float32 \<Rightarrow> float32 \<Rightarrow> float32" where "fadd a b = fl (a + b)"
definition fsub :: "float32 \<Rightarrow> float32 \<Rightarrow> float32" where "fsub a b = fl (a - b)"
definition fmul :: "float32 \<Rightarrow> float32 \<Rightarrow> float32" where "fmul a b = fl (a * b)"
definition fdiv :: "float32 \<Rightarrow> float32 \<Rightarrow> float32" where "fdiv a b = fl (a / b)"

lemmas float_ops = fadd_def fsub_def fmul_def fdiv_def

section \<open>Rounding to an integer\<close>

lemma rne_of_int [simp]: "rne (of_int k) = k"
  by (simp add: rne_def)

lemma rne_ge_floor: "\<lfloor>x\<rfloor> \<le> rne x"
  by (simp add: rne_def Let_def)

lemma rne_le_floor: "rne x \<le> \<lfloor>x\<rfloor> + 1"
  by (simp add: rne_def Let_def)

lemma rne_mono: "x \<le> y \<Longrightarrow> rne x \<le> rne y"
proof -
  assume le: "x \<le> y"
  then have fle: "\<lfloor>x\<rfloor> \<le> \<lfloor>y\<rfloor>" by (rule floor_mono)
  show ?thesis
  proof (cases "\<lfloor>x\<rfloor> = \<lfloor>y\<rfloor>")
    case True
    with le show ?thesis by (auto simp: rne_def Let_def)
  next
    case False
    with fle have "\<lfloor>x\<rfloor> + 1 \<le> \<lfloor>y\<rfloor>" by simp
    with rne_le_floor [of x] rne_ge_floor [of y] show ?thesis by linarith
  qed
qed

lemma rne_error: "\<bar>of_int (rne x) - x\<bar> \<le> 1 / 2"
proof -
  have "of_int \<lfloor>x\<rfloor> \<le> x" "x < of_int \<lfloor>x\<rfloor> + 1" by linarith+
  then show ?thesis by (auto simp: rne_def Let_def)
qed

lemma rne_minus: "rne (- x) = - rne x"
proof (cases "x = of_int \<lfloor>x\<rfloor>")
  case True
  then show ?thesis by (metis of_int_minus rne_of_int)
next
  case False
  have lb: "of_int \<lfloor>x\<rfloor> \<le> x" and ub: "x < of_int \<lfloor>x\<rfloor> + 1" by linarith+
  with False have "of_int \<lfloor>x\<rfloor> < x" by linarith
  with ub have "\<lfloor>- x\<rfloor> = - \<lfloor>x\<rfloor> - 1" by (simp add: floor_eq_iff)
  then show ?thesis by (auto simp: rne_def Let_def)
qed

section \<open>Exponents\<close>

lemma ilog2_bounds: "0 < n \<Longrightarrow> \<exists>a. ilog2 n = int a \<and> 2 ^ a \<le> n \<and> n < 2 * 2 ^ a"
proof (induction n rule: ilog2.induct)
  case (1 n)
  show ?case
  proof (cases "n \<le> 1")
    case True
    with 1 show ?thesis by (intro exI [of _ 0]) (simp add: ilog2.simps [of n])
  next
    case False
    then have "0 < n div 2" by linarith
    with False 1 obtain a where "ilog2 (n div 2) = int a" "2 ^ a \<le> n div 2" "n div 2 < 2 * 2 ^ a" by auto
    with False show ?thesis by (intro exI [of _ "Suc a"]) (auto simp: ilog2.simps [of n])
  qed
qed

lemma powi_pos [simp]: "0 < (2 :: rat) powi k"
  by (simp add: power_int_def)

lemma powi_add: "(2 :: rat) powi (a + b) = 2 powi a * 2 powi b"
  by (simp add: power_int_add)

lemma powi_Suc: "(2 :: rat) powi (k + 1) = 2 * 2 powi k"
  by (simp add: power_int_add)

lemma powi_mono: "a \<le> b \<Longrightarrow> (2 :: rat) powi a \<le> 2 powi b"
  by (rule power_int_increasing) auto

lemma powi_less_iff: "(2 :: rat) powi a < 2 powi b \<longleftrightarrow> a < b"
proof
  show "a < b \<Longrightarrow> (2 :: rat) powi a < 2 powi b" by (rule power_int_strict_increasing) auto
  show "(2 :: rat) powi a < 2 powi b \<Longrightarrow> a < b" using powi_mono [of b a] by linarith
qed

lemma powi_nat: "(2 :: rat) powi (int n) = 2 ^ n"
  by (simp add: power_int_def)

lemma powi_shift: "m = int n + k \<Longrightarrow> (2 :: rat) powi m = 2 ^ n * 2 powi k"
  by (simp add: powi_add powi_nat)

text \<open>\<open>fexp\<close> brackets its argument between consecutive powers of two.\<close>

lemma fexp_bounds:
  assumes "0 < x"
  shows "2 powi fexp x \<le> x \<and> x < 2 powi (fexp x + 1)"
proof -
  obtain n d where q: "quotient_of x = (n, d)" by (cases "quotient_of x")
  then have d: "0 < d" and x: "x = of_int n / of_int d"
    by (auto simp: quotient_of_denom_pos quotient_of_div)
  with assms have n: "0 < n" by (simp add: zero_less_divide_iff)
  obtain a b where a: "ilog2 n = int a" and na: "2 ^ a \<le> n" "n < 2 * 2 ^ a"
    and b: "ilog2 d = int b" and db: "2 ^ b \<le> d" "d < 2 * 2 ^ b"
    using ilog2_bounds [OF n] ilog2_bounds [OF d] by blast
  have na': "(2 :: rat) ^ a \<le> of_int n" "of_int n < (2 :: rat) * 2 ^ a"
    using na of_int_le_iff [where 'a = rat, of "2 ^ a" n] of_int_less_iff [where 'a = rat, of n "2 * 2 ^ a"]
    by simp_all
  have db': "(2 :: rat) ^ b \<le> of_int d" "of_int d < (2 :: rat) * 2 ^ b"
    using db of_int_le_iff [where 'a = rat, of "2 ^ b" d] of_int_less_iff [where 'a = rat, of d "2 * 2 ^ b"]
    by simp_all
  define e where "e = int a - int b"
  have pe: "(2 :: rat) powi e * 2 ^ b = 2 ^ a"
    unfolding e_def by (simp add: power_int_diff powi_nat)
  have d': "(0 :: rat) < of_int d" using d by simp
  have up: "x < 2 powi (e + 1)"
  proof -
    have "of_int n < (2 :: rat) * (2 powi e * 2 ^ b)" using na'(2) by (simp add: pe)
    also have "\<dots> \<le> 2 * (2 powi e * of_int d)"
      using db'(1) by (intro mult_left_mono) (auto simp: less_imp_le)
    finally show ?thesis unfolding x powi_Suc using d' by (simp add: divide_less_eq)
  qed
  have lo: "2 powi (e - 1) \<le> x"
  proof -
    have "2 powi (e - 1) * of_int d \<le> 2 powi (e - 1) * ((2 :: rat) * 2 ^ b)"
      using db'(2) by (intro mult_left_mono) (auto simp: less_imp_le)
    also have "\<dots> = 2 ^ a" using powi_Suc [of "e - 1"] pe by (simp add: ac_simps)
    also have "\<dots> \<le> of_int n" by (rule na'(1))
    finally show ?thesis unfolding x using d' by (simp add: le_divide_eq)
  qed
  have "fexp x = (if x < 2 powi e then e - 1 else e)"
    by (simp add: fexp_def q e_def a b Let_def)
  with up lo show ?thesis by auto
qed

lemma ulp_pos [simp]: "0 < ulp x"
  by (simp add: ulp_def)

lemma ulp_minus [simp]: "ulp (- x) = ulp x"
  by (simp add: ulp_def)

lemma fl_zero [simp]: "fl 0 = 0"
  by (simp add: fl_def)

lemma fl_minus: "fl (- x) = - fl x"
  by (simp add: fl_def rne_minus)

lemma fexp_mono: "0 < x \<Longrightarrow> x \<le> y \<Longrightarrow> fexp x \<le> fexp y"
proof -
  assume "0 < x" "x \<le> y"
  then have "(2 :: rat) powi fexp x < 2 powi (fexp y + 1)"
    using fexp_bounds [of x] fexp_bounds [of y] by linarith
  then show ?thesis by (simp add: powi_less_iff)
qed

section \<open>Monotonicity and exactness\<close>

lemma fl_upper:
  assumes "0 < x"
  shows "fl x \<le> 2 powi (max (fexp x) (- 126) + 1)"
proof -
  let ?m = "max (fexp x) (- 126)"
  have "x \<le> 2 powi (fexp x + 1)" using fexp_bounds [OF assms] by simp
  also have "\<dots> \<le> 2 powi (?m + 1)" by (rule powi_mono) simp
  also have m: "\<dots> = 2 ^ 24 * ulp x"
    unfolding ulp_def using assms by (intro powi_shift) simp
  finally have "x / ulp x \<le> of_int (2 ^ 24)" by (simp add: divide_le_eq)
  then have "rne (x / ulp x) \<le> 2 ^ 24" using rne_mono rne_of_int by metis
  then have "(of_int (rne (x / ulp x)) :: rat) \<le> of_int (2 ^ 24)" by (simp only: of_int_le_iff)
  then have "of_int (rne (x / ulp x)) * ulp x \<le> of_int (2 ^ 24) * ulp x"
    by (intro mult_right_mono) (auto simp: less_imp_le)
  then show ?thesis using assms by (simp add: fl_def m)
qed

lemma fl_lower:
  assumes "0 < x" and "- 126 \<le> fexp x"
  shows "2 powi fexp x \<le> fl x"
proof -
  have u: "ulp x = 2 powi (fexp x - 23)" using assms by (simp add: ulp_def)
  have m: "2 powi fexp x = 2 ^ 23 * ulp x" unfolding u by (rule powi_shift) simp
  also have "\<dots> \<le> x" using fexp_bounds [OF assms(1)] by (simp add: m)
  finally have "of_int (2 ^ 23) \<le> x / ulp x" by (simp add: le_divide_eq m)
  then have "2 ^ 23 \<le> rne (x / ulp x)" using rne_mono rne_of_int by metis
  then have "(of_int (2 ^ 23) :: rat) \<le> of_int (rne (x / ulp x))" by (simp only: of_int_le_iff)
  then have "of_int (2 ^ 23) * ulp x \<le> of_int (rne (x / ulp x)) * ulp x"
    by (intro mult_right_mono) (auto simp: less_imp_le)
  then show ?thesis using assms by (simp add: fl_def m)
qed

lemma fl_nonneg: "0 \<le> x \<Longrightarrow> 0 \<le> fl x"
proof -
  assume "0 \<le> x"
  then have "0 \<le> x / ulp x" by (simp add: less_imp_le)
  then have "0 \<le> rne (x / ulp x)" using rne_mono [of 0] rne_of_int [of 0] by simp
  then show ?thesis by (simp add: fl_def less_imp_le)
qed

lemma fl_mono_pos:
  assumes "0 < x" and "x \<le> y"
  shows "fl x \<le> fl y"
proof (cases "max (fexp x) (- 126) = max (fexp y) (- 126)")
  case True
  with assms have u: "ulp x = ulp y" by (simp add: ulp_def)
  have "rne (x / ulp y) \<le> rne (y / ulp y)"
    using assms by (intro rne_mono divide_right_mono) (auto simp: less_imp_le)
  then show ?thesis using assms
    by (auto simp: fl_def u intro!: mult_right_mono less_imp_le)
next
  case False
  with fexp_mono [OF assms] have l: "max (fexp x) (- 126) + 1 \<le> fexp y" "- 126 \<le> fexp y"
    by auto
  have "fl x \<le> 2 powi (max (fexp x) (- 126) + 1)" using assms(1) by (rule fl_upper)
  also have "\<dots> \<le> 2 powi fexp y" by (rule powi_mono) (rule l)
  also have "\<dots> \<le> fl y" using assms l by (intro fl_lower) auto
  finally show ?thesis .
qed

lemma fl_mono: "x \<le> y \<Longrightarrow> fl x \<le> fl y"
proof -
  assume le: "x \<le> y"
  consider "0 < x" | "x \<le> 0" "0 \<le> y" | "y < 0" by linarith
  then show ?thesis
  proof cases
    case 1
    then show ?thesis using le by (rule fl_mono_pos)
  next
    case 2
    have "fl x \<le> 0" using fl_nonneg [of "- x"] 2 by (simp add: fl_minus)
    with fl_nonneg [of y] 2 show ?thesis by simp
  next
    case 3
    then have "fl (- y) \<le> fl (- x)" using le by (intro fl_mono_pos) auto
    then show ?thesis by (simp add: fl_minus)
  qed
qed

text \<open>An integer of at most 24 bits, scaled by a power of two, is a float.\<close>

lemma fl_exact:
  assumes "\<bar>k\<bar> < 2 ^ 24" and "- 149 \<le> e"
  shows "fl (of_int k * 2 powi e) = of_int k * 2 powi e"
proof (cases "k = 0")
  case True
  then show ?thesis by simp
next
  case False
  define x :: rat where "x = of_int k * 2 powi e"
  have x0: "x \<noteq> 0" "0 < \<bar>x\<bar>" using False by (auto simp: x_def)
  have "\<bar>x\<bar> = of_int \<bar>k\<bar> * 2 powi e" by (simp add: x_def abs_mult)
  also have "\<dots> < 2 powi 24 * 2 powi e"
  proof (rule mult_strict_right_mono)
    have "(of_int \<bar>k\<bar> :: rat) < of_int (2 ^ 24)" using assms(1) by (simp only: of_int_less_iff)
    then show "(of_int \<bar>k\<bar> :: rat) < 2 powi 24" by simp
  qed simp
  finally have "2 powi fexp \<bar>x\<bar> < (2 :: rat) powi (24 + e)"
    using fexp_bounds [OF x0(2)] by (simp add: powi_add)
  then have "fexp \<bar>x\<bar> < 24 + e" by (simp add: powi_less_iff)
  with assms(2) have "max (fexp \<bar>x\<bar>) (- 126) - 23 \<le> e" by simp
  then obtain n where n: "e = max (fexp \<bar>x\<bar>) (- 126) - 23 + int n" by (metis zle_iff_zadd)
  have "x = of_int k * (ulp x * 2 powi (int n))"
    unfolding x_def [symmetric] ulp_def powi_add [symmetric] n [symmetric] by (simp add: x_def)
  then have "x / ulp x = of_int (k * 2 ^ n)"
    by (simp add: powi_nat divide_eq_eq less_imp_neq [OF ulp_pos, symmetric] mult.commute mult.left_commute)
  then have "of_int (rne (x / ulp x)) * ulp x = x"
    by (metis nonzero_eq_divide_eq rne_of_int less_irrefl ulp_pos)
  then show ?thesis using x0 by (simp add: fl_def x_def)
qed

lemma fl_of_int: "\<bar>k\<bar> < 2 ^ 24 \<Longrightarrow> fl (of_int k) = of_int k"
  using fl_exact [of k 0] by simp

lemma fl_numeral: "(numeral n :: int) < 2 ^ 24 \<Longrightarrow> fl (numeral n) = numeral n"
  using fl_of_int [of "numeral n"] by simp

lemma fl_one [simp]: "fl 1 = 1"
  using fl_of_int [of 1] by simp

text \<open>A rounded value is a float: rounding again changes nothing.\<close>

lemma fl_fl [simp]: "fl (fl x) = fl x"
proof (cases "x = 0")
  case True
  then show ?thesis by simp
next
  case False
  show ?thesis
  proof (cases "\<bar>rne (x / ulp x)\<bar> < 2 ^ 24")
    case True
    have "- 149 \<le> max (fexp \<bar>x\<bar>) (- 126) - 23" by simp
    from fl_exact [OF True this] show ?thesis using False by (simp add: fl_def [of x] ulp_def)
  next
    case large: False
    let ?e = "max (fexp \<bar>x\<bar>) (- 126) - 23"
    have "\<bar>rne (x / ulp x)\<bar> \<le> 2 ^ 24"
    proof -
      have "fl \<bar>x\<bar> \<le> 2 powi (max (fexp \<bar>x\<bar>) (- 126) + 1)" using fl_upper [of "\<bar>x\<bar>"] False by simp
      also have "\<dots> = 2 ^ 24 * ulp x" unfolding ulp_def by (intro powi_shift) simp
      finally have "of_int (rne (\<bar>x\<bar> / ulp x)) * ulp x \<le> 2 ^ 24 * ulp x"
        using False by (simp add: fl_def ulp_def)
      then have "of_int (rne (\<bar>x\<bar> / ulp x)) \<le> (of_int (2 ^ 24) :: rat)" by simp
      then have "rne (\<bar>x\<bar> / ulp x) \<le> 2 ^ 24" by (simp only: of_int_le_iff)
      moreover have "\<bar>rne (x / ulp x)\<bar> = \<bar>rne (\<bar>x\<bar> / ulp x)\<bar>"
        by (cases "0 \<le> x") (simp_all add: rne_minus)
      moreover have "0 \<le> rne (\<bar>x\<bar> / ulp x)"
        using rne_mono [of 0 "\<bar>x\<bar> / ulp x"] rne_of_int [of 0] by (simp add: less_imp_le)
      ultimately show ?thesis by simp
    qed
    with large have "rne (x / ulp x) = 2 ^ 24 \<or> rne (x / ulp x) = - (2 ^ 24)" by linarith
    moreover have p: "(of_int (2 ^ 24) :: rat) * 2 powi ?e = of_int 1 * 2 powi (?e + 24)"
      using powi_shift [of "?e + 24" 24 ?e] by simp
    moreover have "fl (of_int 1 * 2 powi (?e + 24)) = of_int 1 * 2 powi (?e + 24)"
      by (rule fl_exact) auto
    ultimately show ?thesis using False
      by (auto simp: fl_def [of x] ulp_def fl_minus)
  qed
qed

section \<open>Error bounds\<close>

lemma fl_error_ulp: "\<bar>fl x - x\<bar> \<le> ulp x / 2"
proof (cases "x = 0")
  case True
  then show ?thesis by (simp add: less_imp_le)
next
  case False
  have "fl x - x = (of_int (rne (x / ulp x)) - x / ulp x) * ulp x"
    using False less_imp_neq [OF ulp_pos [of x]] by (simp add: fl_def left_diff_distrib)
  then have "\<bar>fl x - x\<bar> = \<bar>of_int (rne (x / ulp x)) - x / ulp x\<bar> * ulp x"
    by (simp add: abs_mult abs_of_pos)
  also have "\<dots> \<le> 1 / 2 * ulp x" by (intro mult_right_mono rne_error) (simp add: less_imp_le)
  finally show ?thesis by simp
qed

text \<open>For a normal number the rounding error is at most \<open>2 ^ -24\<close> of its size.\<close>

lemma fl_error_rel:
  assumes "2 powi (- 126) \<le> \<bar>x\<bar>"
  shows "\<bar>fl x - x\<bar> \<le> \<bar>x\<bar> / 2 ^ 24"
proof -
  have p: "0 < \<bar>x\<bar>" using assms powi_pos [of "- 126"] by linarith
  have "2 powi (- 126) < (2 :: rat) powi (fexp \<bar>x\<bar> + 1)"
    using assms fexp_bounds [OF p] by linarith
  then have "- 126 \<le> fexp \<bar>x\<bar>" by (simp only: powi_less_iff)
  then have "ulp x = 2 powi (fexp \<bar>x\<bar> - 23)" by (simp add: ulp_def)
  also have "\<dots> = 2 powi fexp \<bar>x\<bar> / 2 ^ 23" by (simp add: power_int_diff)
  also have "\<dots> \<le> \<bar>x\<bar> / 2 ^ 23" using fexp_bounds [OF p] by (intro divide_right_mono) auto
  finally have "ulp x / 2 \<le> \<bar>x\<bar> / 2 ^ 24" by simp
  with fl_error_ulp [of x] show ?thesis by linarith
qed

section \<open>What the components rely on\<close>

locale rounding =
  fixes rnd :: "rat \<Rightarrow> rat"
  assumes rnd_mono: "x \<le> y \<Longrightarrow> rnd x \<le> rnd y"
    and rnd_zero: "rnd 0 = 0"
    and rnd_one: "rnd 1 = 1"
    and rnd_idem: "rnd (rnd x) = rnd x"
begin

lemma rnd_nonneg: "0 \<le> x \<Longrightarrow> 0 \<le> rnd x"
  using rnd_mono [of 0 x] by (simp add: rnd_zero)

lemma rnd_le_one: "x \<le> 1 \<Longrightarrow> rnd x \<le> 1"
  using rnd_mono [of x 1] by (simp add: rnd_one)

lemma rnd_ge_one: "1 \<le> x \<Longrightarrow> 1 \<le> rnd x"
  using rnd_mono [of 1 x] by (simp add: rnd_one)

text \<open>Rounding never carries a result past a value it leaves alone.\<close>

lemma rnd_ge_fixed: "rnd a = a \<Longrightarrow> a \<le> x \<Longrightarrow> a \<le> rnd x"
  using rnd_mono [of a x] by simp

text \<open>Adding a non-negative amount to a float never lowers it.\<close>

lemma rnd_add_ge: "0 \<le> d \<Longrightarrow> rnd x \<le> rnd (d + rnd x)"
  using rnd_mono [of "rnd x" "d + rnd x"] by (simp add: rnd_idem)

lemma rnd_le_fixed: "rnd b = b \<Longrightarrow> x \<le> b \<Longrightarrow> rnd x \<le> b"
  using rnd_mono [of x b] by simp

end

interpretation fl: rounding fl
  by unfold_locales (auto intro: fl_mono)

end
