(* ===== verification/Link_Metric.thy ===== *)
theory Link_Metric
  imports Float32
begin

text \<open>
  \<^verbatim>\<open>lib/mesh/link_metric.h/.cpp\<close>: the quality of one received frame from its SNR and RSSI, and the
  exponentially weighted running estimate. All arithmetic is binary32 (\<^verbatim>\<open>Float32\<close>); a decimal
  literal such as \<^verbatim>\<open>0.02f\<close> is the float nearest to it.
\<close>

definition SNR_FLOOR_DB :: float32 where "SNR_FLOOR_DB = - 17"
definition SNR_GOOD_DB :: float32 where "SNR_GOOD_DB = 8"
definition RSSI_FLOOR_DBM :: float32 where "RSSI_FLOOR_DBM = - 130"
definition Q_MIN :: float32 where "Q_MIN = fl (2 / 100)"
definition Q_MAX :: float32 where "Q_MAX = 1"
definition EWMA_ALPHA :: float32 where "EWMA_ALPHA = fl (3 / 10)"

definition clampf :: "float32 \<Rightarrow> float32 \<Rightarrow> float32 \<Rightarrow> float32" where
  "clampf v lo hi = (if v < lo then lo else if hi < v then hi else v)"

definition quality_from_rf :: "float32 \<Rightarrow> float32 \<Rightarrow> float32" where
  "quality_from_rf snr_db rssi_dbm =
     (let q = fdiv (fsub snr_db SNR_FLOOR_DB) (fsub SNR_GOOD_DB SNR_FLOOR_DB);
          q = clampf q 0 1;
          q = (if rssi_dbm < RSSI_FLOOR_DBM then fmul q (1 / 2) else q)
      in clampf q Q_MIN Q_MAX)"

definition ewma_quality :: "float32 \<Rightarrow> float32 \<Rightarrow> float32 \<Rightarrow> float32" where
  "ewma_quality prev sample alpha =
     (if prev < 0 then clampf sample Q_MIN Q_MAX
      else let q = fadd (fmul alpha sample) (fmul (fsub 1 alpha) prev)
           in clampf q Q_MIN Q_MAX)"

section \<open>Lemmas\<close>

lemma clampf_bounds: "lo \<le> hi \<Longrightarrow> lo \<le> clampf v lo hi \<and> clampf v lo hi \<le> hi"
  by (auto simp: clampf_def)

lemma clampf_mono: "lo \<le> hi \<Longrightarrow> v \<le> w \<Longrightarrow> clampf v lo hi \<le> clampf w lo hi"
  by (auto simp: clampf_def)

lemma clampf_id: "lo \<le> v \<Longrightarrow> v \<le> hi \<Longrightarrow> clampf v lo hi = v"
  by (simp add: clampf_def)

lemma Q_MIN_value: "Q_MIN = 10737418 / 536870912"
  unfolding Q_MIN_def by code_simp

lemma Q_MIN_pos [simp]: "0 < Q_MIN"
  by (simp add: Q_MIN_value)

lemma Q_MIN_le_MAX [simp]: "Q_MIN \<le> Q_MAX"
  by (simp add: Q_MIN_value Q_MAX_def)

lemma ewma_bounds: "Q_MIN \<le> ewma_quality p s a \<and> ewma_quality p s a \<le> Q_MAX"
  unfolding ewma_quality_def Let_def by (auto intro!: clampf_bounds)

lemma ewma_pos: "0 < ewma_quality p s a"
  using ewma_bounds [of p s a] Q_MIN_pos by linarith

lemma ewma_first: "prev < 0 \<Longrightarrow> ewma_quality prev s a = clampf s Q_MIN Q_MAX"
  by (simp add: ewma_quality_def)

text \<open>Halving under the RSSI penalty never raises a quality in \<open>[0, 1]\<close>.\<close>

lemma half_le: "fl x = x \<Longrightarrow> 0 \<le> x \<Longrightarrow> fmul x (1 / 2) \<le> x"
  unfolding fmul_def by (rule fl.rnd_le_fixed) auto

lemma fdiv_representable: "fl (fdiv a b) = fdiv a b"
  by (simp add: fdiv_def)

lemma clampf_representable: "fl v = v \<Longrightarrow> fl lo = lo \<Longrightarrow> fl hi = hi \<Longrightarrow> fl (clampf v lo hi) = clampf v lo hi"
  by (simp add: clampf_def)

text \<open>
  C33. The link quality derived from a frame lies in the usable band \<open>[Q_MIN, Q_MAX]\<close> (so a link
  cost \<open>1 / q\<close> is never infinite), and it is monotone in the float arithmetic of the code: a frame
  with no worse SNR and no worse RSSI never gets a lower quality.
\<close>

theorem quality_band_and_monotone:
  assumes "snr \<le> snr'" and "rssi \<le> rssi'"
  shows "Q_MIN \<le> quality_from_rf snr rssi \<and> quality_from_rf snr rssi \<le> quality_from_rf snr' rssi'
         \<and> quality_from_rf snr' rssi' \<le> Q_MAX"
proof -
  define r where "r s = clampf (fdiv (fsub s SNR_FLOOR_DB) (fsub SNR_GOOD_DB SNR_FLOOR_DB)) 0 1" for s
  have w: "0 < fsub SNR_GOOD_DB SNR_FLOOR_DB"
    by (simp add: SNR_GOOD_DB_def SNR_FLOOR_DB_def fsub_def fl_numeral)
  have mono: "r snr \<le> r snr'"
    unfolding r_def using assms(1) w
    by (intro clampf_mono) (auto simp: fdiv_def fsub_def intro!: fl_mono divide_right_mono)
  have rng: "0 \<le> r s" "r s \<le> 1" for s
    unfolding r_def using clampf_bounds [of 0 1] by auto
  have rep: "fl (r s) = r s" for s
    unfolding r_def by (intro clampf_representable) (simp_all add: fdiv_def)
  have pen: "fmul (r snr) (1 / 2) \<le> fmul (r snr') (1 / 2)" "fmul (r snr) (1 / 2) \<le> r snr'"
    using mono half_le [OF rep rng(1), of snr] by (auto simp: fmul_def intro: fl_mono)
  have "(if rssi < RSSI_FLOOR_DBM then fmul (r snr) (1 / 2) else r snr)
      \<le> (if rssi' < RSSI_FLOOR_DBM then fmul (r snr') (1 / 2) else r snr')"
    using pen mono assms(2) by auto
  then have "quality_from_rf snr rssi \<le> quality_from_rf snr' rssi'"
    unfolding quality_from_rf_def Let_def r_def by (intro clampf_mono) auto
  then show ?thesis
    unfolding quality_from_rf_def Let_def using clampf_bounds [OF Q_MIN_le_MAX] by blast
qed

theorem quality_band_and_monotone_witness:
  "Q_MIN \<le> quality_from_rf (- 5) (- 90) \<and> quality_from_rf (- 5) (- 90) \<le> quality_from_rf 3 (- 80)
   \<and> quality_from_rf 3 (- 80) \<le> Q_MAX"
  using quality_band_and_monotone [of "- 5" 3 "- 90" "- 80"] by simp

end
