(* ===== verification/Slot_Table.thy ===== *)
theory Slot_Table
  imports Prelude
begin

text \<open>
  The fixed-capacity tables of the firmware (neighbours, routes, interned node ids, locator
  bindings, telemetry reports) are all arrays of slots with a \<^verbatim>\<open>used\<close> flag and a key field, searched
  front to back. This theory treats them once: a slot array in which no key is live twice is a
  finite map from keys to live slots, and the writes the code performs (refresh a live slot, claim a
  free one, evict one, clear one, clear all that satisfy a condition) are map updates.

  The locale \<open>slot_table\<close> is the interface: which slots are live, what their key is, and how a slot
  is released. Every table theory interprets it on its own record.
\<close>

section \<open>Searches\<close>

definition slot_find :: "('e \<Rightarrow> bool) \<Rightarrow> ('e \<Rightarrow> 'k) \<Rightarrow> 'k \<Rightarrow> 'e list \<Rightarrow> nat option" where
  "slot_find used key k xs = find_idx (\<lambda>e. used e \<and> key e = k) xs"

definition slot_lookup :: "('e \<Rightarrow> bool) \<Rightarrow> ('e \<Rightarrow> 'k) \<Rightarrow> 'e list \<Rightarrow> 'k \<rightharpoonup> 'e" where
  "slot_lookup used key xs k = map_option (\<lambda>i. xs ! i) (slot_find used key k xs)"

definition slots_distinct :: "('e \<Rightarrow> bool) \<Rightarrow> ('e \<Rightarrow> 'k) \<Rightarrow> 'e list \<Rightarrow> bool" where
  "slots_distinct used key xs \<longleftrightarrow> distinct (map key (filter used xs))"

section \<open>Distinct keys, by index\<close>

lemma slots_distinct_iff:
  "slots_distinct used key xs \<longleftrightarrow>
     (\<forall>i<length xs. \<forall>j<length xs.
        used (xs ! i) \<longrightarrow> used (xs ! j) \<longrightarrow> key (xs ! i) = key (xs ! j) \<longrightarrow> i = j)"
proof (induction xs)
  case Nil
  then show ?case by (simp add: slots_distinct_def)
next
  case (Cons x xs)
  have "slots_distinct used key (x # xs) \<longleftrightarrow>
      slots_distinct used key xs \<and> (used x \<longrightarrow> (\<forall>y\<in>set xs. used y \<longrightarrow> key x \<noteq> key y))"
    by (auto simp: slots_distinct_def image_iff)
  also have "(used x \<longrightarrow> (\<forall>y\<in>set xs. used y \<longrightarrow> key x \<noteq> key y)) \<longleftrightarrow>
      (used x \<longrightarrow> (\<forall>j<length xs. used (xs ! j) \<longrightarrow> key x \<noteq> key (xs ! j)))"
    by (metis in_set_conv_nth)
  finally show ?case
    unfolding Cons.IH by (auto simp: All_less_Suc2)
qed

lemma slots_distinctD:
  "slots_distinct used key xs \<Longrightarrow> i < length xs \<Longrightarrow> j < length xs \<Longrightarrow> used (xs ! i) \<Longrightarrow>
     used (xs ! j) \<Longrightarrow> key (xs ! i) = key (xs ! j) \<Longrightarrow> i = j"
  by (simp add: slots_distinct_iff)

section \<open>The interface\<close>

locale slot_table =
  fixes used :: "'e \<Rightarrow> bool"
    and key :: "'e \<Rightarrow> 'k"
    and clear :: "'e \<Rightarrow> 'e"
  assumes clear_unused: "\<not> used (clear e)"
begin

lemma find_SomeD:
  "slot_find used key k xs = Some i \<Longrightarrow> i < length xs \<and> used (xs ! i) \<and> key (xs ! i) = k"
  by (auto simp: slot_find_def find_idx_Some_iff)

lemma find_NoneD:
  "slot_find used key k xs = None \<Longrightarrow> i < length xs \<Longrightarrow> used (xs ! i) \<Longrightarrow> key (xs ! i) \<noteq> k"
  by (auto simp: slot_find_def find_idx_None_iff)

lemma find_unique:
  assumes "slots_distinct used key xs" "i < length xs" "used (xs ! i)" "key (xs ! i) = k"
  shows "slot_find used key k xs = Some i"
proof (cases "slot_find used key k xs")
  case None
  with assms show ?thesis by (auto dest: find_NoneD)
next
  case (Some j)
  then have "j < length xs \<and> used (xs ! j) \<and> key (xs ! j) = k" by (rule find_SomeD)
  with assms have "j = i" by (auto dest: slots_distinctD)
  with Some show ?thesis by simp
qed

lemma lookup_SomeD:
  "slot_lookup used key xs k = Some e \<Longrightarrow> e \<in> set xs \<and> used e \<and> key e = k"
  by (auto simp: slot_lookup_def dest!: find_SomeD)

lemma lookup_Some_iff:
  assumes "slots_distinct used key xs"
  shows "slot_lookup used key xs k = Some e \<longleftrightarrow> e \<in> set xs \<and> used e \<and> key e = k"
proof
  assume "e \<in> set xs \<and> used e \<and> key e = k"
  then obtain i where "i < length xs" "xs ! i = e" "used e" "key e = k"
    by (auto simp: in_set_conv_nth)
  with assms have "slot_find used key k xs = Some i" by (auto intro: find_unique)
  with \<open>xs ! i = e\<close> show "slot_lookup used key xs k = Some e" by (simp add: slot_lookup_def)
qed (rule lookup_SomeD)

lemma lookup_None_iff: "slot_lookup used key xs k = None \<longleftrightarrow> slot_find used key k xs = None"
  by (simp add: slot_lookup_def)

lemma lookup_in_set:
  "slots_distinct used key xs \<Longrightarrow> e \<in> set xs \<Longrightarrow> used e \<Longrightarrow> slot_lookup used key xs (key e) = Some e"
  by (simp add: lookup_Some_iff)

text \<open>Two arrays with the same live slots are the same map.\<close>

lemma lookup_eqI:
  assumes "slots_distinct used key xs" "slots_distinct used key ys"
    and "\<And>e. used e \<Longrightarrow> e \<in> set xs \<longleftrightarrow> e \<in> set ys"
  shows "slot_lookup used key xs = slot_lookup used key ys"
proof (rule ext)
  fix k
  show "slot_lookup used key xs k = slot_lookup used key ys k"
    using assms lookup_Some_iff [OF assms(1), of k] lookup_Some_iff [OF assms(2), of k]
    by (cases "slot_lookup used key xs k"; cases "slot_lookup used key ys k") auto
qed

section \<open>Writes keep keys distinct\<close>

lemma distinct_update:
  assumes "slots_distinct used key xs"
    and "\<And>j. j < length xs \<Longrightarrow> j \<noteq> i \<Longrightarrow> used e \<Longrightarrow> used (xs ! j) \<Longrightarrow> key (xs ! j) \<noteq> key e"
  shows "slots_distinct used key (xs[i := e])"
proof (cases "i < length xs")
  case True
  with assms show ?thesis
    unfolding slots_distinct_iff by (auto simp: nth_list_update split: if_splits) metis+
next
  case False
  with assms show ?thesis by (simp add: list_update_beyond)
qed

lemma distinct_refresh:
  assumes "slots_distinct used key xs" "i < length xs" "used (xs ! i)" "key e = key (xs ! i)"
  shows "slots_distinct used key (xs[i := e])"
  using assms by (intro distinct_update) (auto dest: slots_distinctD)

lemma distinct_claim:
  assumes "slots_distinct used key xs" "slot_find used key (key e) xs = None"
  shows "slots_distinct used key (xs[i := e])"
  using assms by (intro distinct_update) (auto dest: find_NoneD)

lemma distinct_release:
  "slots_distinct used key xs \<Longrightarrow> \<not> used e \<Longrightarrow> slots_distinct used key (xs[i := e])"
  by (rule distinct_update) auto

lemma distinct_map:
  assumes "slots_distinct used key xs" "\<And>e. used (f e) \<Longrightarrow> used e \<and> key (f e) = key e"
  shows "slots_distinct used key (map f xs)"
  using assms unfolding slots_distinct_iff by auto

lemma distinct_replicate: "\<not> used e \<Longrightarrow> slots_distinct used key (replicate n e)"
  by (simp add: slots_distinct_iff)

section \<open>Writes as map updates\<close>

lemma lookup_refresh:
  assumes "slots_distinct used key xs" "slot_find used key k xs = Some i" "used e" "key e = k"
  shows "slot_lookup used key (xs[i := e]) = (slot_lookup used key xs)(k \<mapsto> e)"
proof (rule ext)
  fix k'
  from assms(2) have i: "i < length xs" "used (xs ! i)" "key (xs ! i) = k"
    using find_SomeD by blast+
  then have d: "slots_distinct used key (xs[i := e])"
    using assms by (intro distinct_refresh) auto
  show "slot_lookup used key (xs[i := e]) k' = ((slot_lookup used key xs)(k \<mapsto> e)) k'"
  proof (cases "k' = k")
    case True
    with d i assms show ?thesis by (simp add: lookup_Some_iff set_update_memI)
  next
    case False
    have "slot_find used key k' (xs[i := e]) = slot_find used key k' xs"
      unfolding slot_find_def using False i assms
      by (intro find_idx_cong_nth) (auto simp: nth_list_update)
    with False i show ?thesis
      by (cases "slot_find used key k' xs")
        (auto simp: slot_lookup_def nth_list_update dest!: find_SomeD [of k'])
  qed
qed

lemma lookup_claim:
  assumes "slots_distinct used key xs" "slot_find used key (key e) xs = None"
    "i < length xs" "used e"
  shows "slot_lookup used key (xs[i := e]) =
    (if used (xs ! i) then (slot_lookup used key xs)(key (xs ! i) := None, key e \<mapsto> e)
     else (slot_lookup used key xs)(key e \<mapsto> e))"
proof (rule ext)
  fix k
  have d: "slots_distinct used key (xs[i := e])" using assms by (intro distinct_claim) auto
  have iff: "slot_lookup used key (xs[i := e]) k = Some e' \<longleftrightarrow>
      (if k = key e then e' = e
       else (\<not> used (xs ! i) \<or> key (xs ! i) \<noteq> k) \<and> slot_lookup used key xs k = Some e')" for e'
  proof (cases "k = key e")
    case True
    have "slot_lookup used key (xs[i := e]) k = Some e"
      using True assms d by (simp add: lookup_Some_iff set_update_memI)
    with True show ?thesis by auto
  next
    case False
    have "e' \<in> set (xs[i := e]) \<and> used e' \<and> key e' = k \<longleftrightarrow>
        (\<exists>j<length xs. j \<noteq> i \<and> xs ! j = e') \<and> used e' \<and> key e' = k"
      using False assms(3) by (auto simp: in_set_conv_nth nth_list_update)
    also have "\<dots> \<longleftrightarrow> (\<not> used (xs ! i) \<or> key (xs ! i) \<noteq> k) \<and> e' \<in> set xs \<and> used e' \<and> key e' = k"
      using assms(1,3) by (auto simp: in_set_conv_nth dest: slots_distinctD)
    finally show ?thesis using False d assms(1) by (simp add: lookup_Some_iff)
  qed
  show "slot_lookup used key (xs[i := e]) k =
      (if used (xs ! i) then (slot_lookup used key xs)(key (xs ! i) := None, key e \<mapsto> e)
       else (slot_lookup used key xs)(key e \<mapsto> e)) k"
    by (rule option_eqI) (auto simp: iff)
qed

lemma lookup_filter_clear:
  assumes "slots_distinct used key xs"
  shows "slot_lookup used key (map (\<lambda>e. if P e then clear e else e) xs) k =
    (case slot_lookup used key xs k of None \<Rightarrow> None | Some e \<Rightarrow> if P e then None else Some e)"
proof -
  let ?f = "\<lambda>e. if P e then clear e else e"
  have d: "slots_distinct used key (map ?f xs)"
    using assms by (rule distinct_map) (auto simp: clear_unused split: if_splits)
  have "slot_lookup used key (map ?f xs) k = Some e \<longleftrightarrow>
      slot_lookup used key xs k = Some e \<and> \<not> P e" for e
  proof -
    have "e \<in> set (map ?f xs) \<and> used e \<longleftrightarrow> e \<in> set xs \<and> \<not> P e \<and> used e"
      using clear_unused by (auto split: if_splits)
    then show ?thesis unfolding lookup_Some_iff [OF d] lookup_Some_iff [OF assms] by blast
  qed
  then show ?thesis
    by (intro option_eqI) (auto split: option.splits)
qed

lemma lookup_clear:
  assumes "slots_distinct used key xs" "slot_find used key k xs = Some i"
  shows "slot_lookup used key (xs[i := clear (xs ! i)]) = (slot_lookup used key xs)(k := None)"
proof (rule ext)
  fix k'
  from assms(2) have i: "i < length xs" "used (xs ! i)" "key (xs ! i) = k"
    using find_SomeD by blast+
  have d: "slots_distinct used key (xs[i := clear (xs ! i)])"
    using assms(1) by (rule distinct_release) (rule clear_unused)
  have "slot_lookup used key (xs[i := clear (xs ! i)]) k' = Some e \<longleftrightarrow>
      k' \<noteq> k \<and> slot_lookup used key xs k' = Some e" for e
  proof -
    have "e \<in> set (xs[i := clear (xs ! i)]) \<and> used e \<longleftrightarrow>
        (\<exists>j<length xs. j \<noteq> i \<and> xs ! j = e) \<and> used e"
    proof
      assume "e \<in> set (xs[i := clear (xs ! i)]) \<and> used e"
      then obtain j where j: "j < length xs" "xs[i := clear (xs ! i)] ! j = e" "used e"
        by (auto simp: in_set_conv_nth)
      then have "j \<noteq> i" using clear_unused by auto
      with j show "(\<exists>j<length xs. j \<noteq> i \<and> xs ! j = e) \<and> used e" by auto
    next
      assume "(\<exists>j<length xs. j \<noteq> i \<and> xs ! j = e) \<and> used e"
      then show "e \<in> set (xs[i := clear (xs ! i)]) \<and> used e"
        by (auto simp: in_set_conv_nth nth_list_update)
    qed
    moreover have "(\<exists>j<length xs. j \<noteq> i \<and> xs ! j = e) \<and> used e \<and> key e = k' \<longleftrightarrow>
        k' \<noteq> k \<and> e \<in> set xs \<and> used e \<and> key e = k'"
      using i assms(1) by (auto simp: in_set_conv_nth dest: slots_distinctD)
    ultimately show ?thesis using d assms(1) by (auto simp: lookup_Some_iff)
  qed
  then show "slot_lookup used key (xs[i := clear (xs ! i)]) k' =
      ((slot_lookup used key xs)(k := None)) k'"
    by (intro option_eqI) auto
qed

end

end
