(* ===== verification/Neighbor_Table.thy ===== *)
theory Neighbor_Table
  imports Mesh_Types Link_Metric Slot_Table
begin

text \<open>
  \<^verbatim>\<open>lib/mesh/neighbor_table.h/.cpp\<close>: the direct neighbours, the two directed link qualities of each
  (\<open>q_rx\<close>, how well we hear it; \<open>q_tx\<close>, how well it reports to hear us), and the one-byte link
  aliases. The class \<^verbatim>\<open>NeighborTable\<close> is the record \<open>neighbor_table\<close>; a pointer into the slot array
  is a slot index. The invariant \<open>nt_inv\<close> says that no id and no alias is live twice, that assigned
  aliases are in \<open>1..254\<close> and that known qualities are in the usable band.
\<close>

section \<open>State\<close>

definition MAX_NEIGHBORS :: nat where "MAX_NEIGHBORS = 32"
definition ASYM_THRESHOLD :: float32 where "ASYM_THRESHOLD = fl (35 / 100)"
definition ALIAS_NONE :: link_addr where "ALIAS_NONE = 0x00"
definition ALIAS_BROADCAST :: link_addr where "ALIAS_BROADCAST = 0xFF"

record neighbor =
  n_id :: node_id
  n_q_rx :: float32
  n_q_tx :: float32
  n_my_alias :: link_addr
  n_their_alias :: link_addr
  n_last_heard_ms :: u32
  n_caps :: u16
  n_used :: bool

definition Neighbor_init :: neighbor where
  "Neighbor_init = \<lparr>n_id = nid_zero, n_q_rx = - 1, n_q_tx = - 1, n_my_alias = ALIAS_NONE,
     n_their_alias = ALIAS_NONE, n_last_heard_ms = 0, n_caps = 0, n_used = False\<rparr>"

definition asymmetric :: "neighbor \<Rightarrow> bool" where
  "asymmetric n =
     (if n_q_rx n < 0 \<or> n_q_tx n < 0 then False
      else let d = fsub (n_q_rx n) (n_q_tx n); d = (if d < 0 then - d else d) in ASYM_THRESHOLD < d)"

record neighbor_table =
  nt_slots :: "neighbor list"
  nt_alias_base :: u16

definition NeighborTable_init :: neighbor_table where
  "NeighborTable_init = \<lparr>nt_slots = replicate MAX_NEIGHBORS Neighbor_init, nt_alias_base = 0\<rparr>"

section \<open>Operations\<close>

definition set_alias_seed :: "node_id \<Rightarrow> neighbor_table \<Rightarrow> neighbor_table" where
  "set_alias_seed my_id t = t\<lparr>nt_alias_base := ucast (nid_fold my_id mod 254)\<rparr>"

definition nt_find :: "neighbor_table \<Rightarrow> node_id \<Rightarrow> nat option" where
  "nt_find t i = slot_find n_used n_id i (nt_slots t)"

definition nt_get :: "neighbor_table \<Rightarrow> node_id \<Rightarrow> neighbor option" where
  "nt_get t i = map_option (\<lambda>k. nt_slots t ! k) (nt_find t i)"

text \<open>\<^verbatim>\<open>alias_base_ + k\<close> is computed in \<^verbatim>\<open>int\<close> (the base is below 254), so it does not wrap.\<close>

definition alias_cand :: "u16 \<Rightarrow> nat \<Rightarrow> link_addr" where
  "alias_cand base k = of_nat (1 + (unat base + k) mod 254)"

definition alias_taken :: "neighbor_table \<Rightarrow> link_addr \<Rightarrow> bool" where
  "alias_taken t a \<longleftrightarrow> (\<exists>n\<in>set (nt_slots t). n_used n \<and> n_my_alias n = a)"

definition alloc_alias :: "neighbor_table \<Rightarrow> link_addr" where
  "alloc_alias t =
     (case find_idx (\<lambda>k. \<not> alias_taken t (alias_cand (nt_alias_base t) k)) [0..<254] of
        Some k \<Rightarrow> alias_cand (nt_alias_base t) k
      | None \<Rightarrow> ALIAS_NONE)"

definition neighbor_by_link :: "neighbor_table \<Rightarrow> link_addr \<Rightarrow> link_addr \<Rightarrow> node_id" where
  "neighbor_by_link t next_hop prev_hop =
     (if next_hop = ALIAS_NONE then nid_zero
      else case find_idx (\<lambda>n. n_used n \<and> n_my_alias n = next_hop \<and> n_their_alias n = prev_hop)
                  (nt_slots t) of
             Some i \<Rightarrow> n_id (nt_slots t ! i)
           | None \<Rightarrow> nid_zero)"

text \<open>\<^verbatim>\<open>heard\<close>: the claimed slot is marked used and its alias cleared of the old owner's only by
  \<^verbatim>\<open>alloc_alias()\<close> itself, which runs while the slot, already in use, still shows its previous
  alias; the model keeps that order.\<close>

definition heard_claim :: "neighbor_table \<Rightarrow> node_id \<Rightarrow> nat \<Rightarrow> neighbor_table" where
  "heard_claim t i k =
     (let t1 = t\<lparr>nt_slots := upd_at k (\<lambda>n. n\<lparr>n_used := True, n_id := i, n_q_rx := - 1,
                   n_q_tx := - 1, n_their_alias := ALIAS_NONE\<rparr>) (nt_slots t)\<rparr>
      in t1\<lparr>nt_slots := upd_at k (\<lambda>n. n\<lparr>n_my_alias := alloc_alias t1\<rparr>) (nt_slots t1)\<rparr>)"

definition heard_update :: "neighbor_table \<Rightarrow> nat \<Rightarrow> float32 \<Rightarrow> u32 \<Rightarrow> neighbor_table" where
  "heard_update t k q now_ms =
     t\<lparr>nt_slots := upd_at k (\<lambda>n. n\<lparr>n_q_rx := ewma_quality (n_q_rx n) q EWMA_ALPHA,
                                   n_last_heard_ms := now_ms\<rparr>) (nt_slots t)\<rparr>"

definition heard :: "neighbor_table \<Rightarrow> node_id \<Rightarrow> float32 \<Rightarrow> u32 \<Rightarrow> nat option \<times> neighbor_table" where
  "heard t i q now_ms =
     (case nt_find t i of
        Some k \<Rightarrow> (Some k, heard_update t k q now_ms)
      | None \<Rightarrow>
          (case find_idx (\<lambda>n. \<not> n_used n) (nt_slots t) of
             None \<Rightarrow> (None, t)
           | Some k \<Rightarrow> (Some k, heard_update (heard_claim t i k) k q now_ms)))"

definition nt_modify :: "neighbor_table \<Rightarrow> node_id \<Rightarrow> (neighbor \<Rightarrow> neighbor) \<Rightarrow> neighbor_table" where
  "nt_modify t i f = (case nt_find t i of
     None \<Rightarrow> t | Some k \<Rightarrow> t\<lparr>nt_slots := upd_at k f (nt_slots t)\<rparr>)"

definition set_tx_report :: "neighbor_table \<Rightarrow> node_id \<Rightarrow> float32 \<Rightarrow> neighbor_table" where
  "set_tx_report t i q = nt_modify t i (\<lambda>n. n\<lparr>n_q_tx := ewma_quality (n_q_tx n) q EWMA_ALPHA\<rparr>)"

definition set_their_alias :: "neighbor_table \<Rightarrow> node_id \<Rightarrow> link_addr \<Rightarrow> neighbor_table" where
  "set_their_alias t i a = nt_modify t i (\<lambda>n. n\<lparr>n_their_alias := a\<rparr>)"

definition set_caps :: "neighbor_table \<Rightarrow> node_id \<Rightarrow> u16 \<Rightarrow> neighbor_table" where
  "set_caps t i caps = nt_modify t i (\<lambda>n. n\<lparr>n_caps := caps\<rparr>)"

definition supports :: "neighbor_table \<Rightarrow> node_id \<Rightarrow> u16 \<Rightarrow> bool" where
  "supports t i cap = (case nt_get t i of None \<Rightarrow> False | Some n \<Rightarrow> n_caps n AND cap \<noteq> 0)"

definition their_alias_for :: "neighbor_table \<Rightarrow> node_id \<Rightarrow> link_addr" where
  "their_alias_for t i = (case nt_get t i of None \<Rightarrow> ALIAS_NONE | Some n \<Rightarrow> n_their_alias n)"

definition my_alias_for :: "neighbor_table \<Rightarrow> node_id \<Rightarrow> link_addr" where
  "my_alias_for t i = (case nt_get t i of None \<Rightarrow> ALIAS_NONE | Some n \<Rightarrow> n_my_alias n)"

definition is_my_alias :: "neighbor_table \<Rightarrow> link_addr \<Rightarrow> bool" where
  "is_my_alias t a = (if a = ALIAS_NONE then False else alias_taken t a)"

definition neighbor_by_my_alias :: "neighbor_table \<Rightarrow> link_addr \<Rightarrow> node_id" where
  "neighbor_by_my_alias t a =
     (if a = ALIAS_NONE then nid_zero
      else case find_idx (\<lambda>n. n_used n \<and> n_my_alias n = a) (nt_slots t) of
             Some i \<Rightarrow> n_id (nt_slots t ! i)
           | None \<Rightarrow> nid_zero)"

definition tx_cost :: "neighbor_table \<Rightarrow> node_id \<Rightarrow> float32" where
  "tx_cost t i =
     (let q = (case nt_get t i of None \<Rightarrow> Q_MIN | Some n \<Rightarrow> if 0 < n_q_tx n then n_q_tx n else Q_MIN);
          q = (if q < Q_MIN then Q_MIN else q)
      in fdiv 1 q)"

text \<open>\<^verbatim>\<open>prune\<close> returns the ids it removed; \<^verbatim>\<open>now_ms - last_heard_ms\<close> is unsigned subtraction.\<close>

definition nt_stale :: "u32 \<Rightarrow> u32 \<Rightarrow> neighbor \<Rightarrow> bool" where
  "nt_stale now_ms timeout_ms n \<longleftrightarrow> n_used n \<and> timeout_ms < now_ms - n_last_heard_ms n"

definition nt_prune :: "neighbor_table \<Rightarrow> u32 \<Rightarrow> u32 \<Rightarrow> neighbor_table \<times> node_id list" where
  "nt_prune t now_ms timeout_ms =
     (t\<lparr>nt_slots := map (\<lambda>n. if nt_stale now_ms timeout_ms n then n\<lparr>n_used := False\<rparr> else n)
                       (nt_slots t)\<rparr>,
      map n_id (filter (nt_stale now_ms timeout_ms) (nt_slots t)))"

definition nt_count :: "neighbor_table \<Rightarrow> nat" where
  "nt_count t = count_if n_used (nt_slots t)"

section \<open>The table as a map\<close>

interpretation nbr: slot_table n_used n_id "\<lambda>n. n\<lparr>n_used := False\<rparr>"
  by unfold_locales simp

interpretation als: slot_table n_used n_my_alias "\<lambda>n. n\<lparr>n_used := False\<rparr>"
  by unfold_locales simp

lemma nt_get_lookup: "nt_get t = slot_lookup n_used n_id (nt_slots t)"
  by (rule ext) (simp add: nt_get_def nt_find_def slot_lookup_def)

section \<open>Invariant\<close>

definition q_ok :: "float32 \<Rightarrow> bool" where
  "q_ok q \<longleftrightarrow> q < 0 \<or> Q_MIN \<le> q \<and> q \<le> Q_MAX"

definition nbr_ok :: "neighbor \<Rightarrow> bool" where
  "nbr_ok n \<longleftrightarrow> n_my_alias n \<noteq> ALIAS_NONE \<and> n_my_alias n \<noteq> ALIAS_BROADCAST
     \<and> Q_MIN \<le> n_q_rx n \<and> n_q_rx n \<le> Q_MAX \<and> q_ok (n_q_tx n)"

definition nt_inv :: "neighbor_table \<Rightarrow> bool" where
  "nt_inv t \<longleftrightarrow> length (nt_slots t) = MAX_NEIGHBORS
     \<and> slots_distinct n_used n_id (nt_slots t)
     \<and> slots_distinct n_used n_my_alias (nt_slots t)
     \<and> (\<forall>n\<in>set (nt_slots t). n_used n \<longrightarrow> nbr_ok n)"

lemma nt_invD:
  assumes "nt_inv t"
  shows "length (nt_slots t) = MAX_NEIGHBORS" "slots_distinct n_used n_id (nt_slots t)"
    "slots_distinct n_used n_my_alias (nt_slots t)"
    "n \<in> set (nt_slots t) \<Longrightarrow> n_used n \<Longrightarrow> nbr_ok n"
  using assms by (auto simp: nt_inv_def)


section \<open>Alias allocation\<close>

lemma unat_alias_cand: "unat (alias_cand b k) = 1 + (unat b + k) mod 254"
proof -
  have "(unat b + k) mod 254 < 254" by simp
  then have "1 + (unat b + k) mod 254 < 2 ^ 8" by (simp del: mod_less_divisor)
  then show ?thesis unfolding alias_cand_def by (simp only: unsigned_of_nat) (simp add: take_bit_nat_eq_self)
qed

lemma alias_cand_range: "alias_cand b k \<noteq> ALIAS_NONE" "alias_cand b k \<noteq> ALIAS_BROADCAST"
proof -
  have "unat (alias_cand b k) \<noteq> 0" "unat (alias_cand b k) \<noteq> 255"
    using mod_less_divisor [of 254 "unat b + k"] by (auto simp: unat_alias_cand)
  then show "alias_cand b k \<noteq> ALIAS_NONE" "alias_cand b k \<noteq> ALIAS_BROADCAST"
    by (auto simp: ALIAS_NONE_def ALIAS_BROADCAST_def)
qed

lemma mod_add_inj:
  assumes "k < m" "k' < m" "((b :: nat) + k) mod m = (b + k') mod m"
  shows "k = k'"
proof -
  have "k = k'" if "k \<le> k'" "k' < m" "(b + k) mod m = (b + k') mod m" for k k'
  proof -
    have "m dvd k' - k" using that mod_eq_dvd_iff_nat [of "b + k" "b + k'" m] by simp
    moreover have "k' - k < m" using that by simp
    ultimately have "k' - k = 0" using nat_dvd_not_less [of "k' - k" m] by (cases "k' - k = 0") auto
    with that show ?thesis by simp
  qed
  from this [of k k'] this [of k' k] assms show ?thesis by (cases "k \<le> k'") auto
qed

lemma inj_alias_cand: "inj_on (alias_cand b) {0..<254}"
proof (rule inj_onI)
  fix k k' assume "k \<in> {0..<254}" "k' \<in> {0..<254}" "alias_cand b k = alias_cand b k'"
  then have "(unat b + k) mod 254 = (unat b + k') mod 254" by (metis add_left_cancel unat_alias_cand)
  with \<open>k \<in> _\<close> \<open>k' \<in> _\<close> show "k = k'" by (auto intro: mod_add_inj)
qed

lemma alias_exists_free:
  assumes "length (nt_slots t) < 254"
  shows "\<exists>k<254. \<not> alias_taken t (alias_cand b k)"
proof (rule ccontr)
  assume "\<not> ?thesis"
  then have "alias_cand b ` {0..<254} \<subseteq> n_my_alias ` set (nt_slots t)"
    unfolding alias_taken_def by force
  then have "card (alias_cand b ` {0..<254}) \<le> card (n_my_alias ` set (nt_slots t))"
    by (intro card_mono) auto
  also have "\<dots> \<le> length (nt_slots t)"
    by (meson card_image_le card_length finite_set le_trans)
  finally show False using assms by (simp add: card_image inj_alias_cand)
qed

lemma alloc_alias_fresh:
  assumes "length (nt_slots t) < 254"
  shows "\<not> alias_taken t (alloc_alias t)" "alloc_alias t \<noteq> ALIAS_NONE"
    "alloc_alias t \<noteq> ALIAS_BROADCAST"
proof -
  obtain k where "find_idx (\<lambda>k. \<not> alias_taken t (alias_cand (nt_alias_base t) k)) [0..<254] = Some k"
    using alias_exists_free [OF assms, of "nt_alias_base t"]
    by (cases "find_idx (\<lambda>k. \<not> alias_taken t (alias_cand (nt_alias_base t) k)) [0..<254]")
      (auto simp: find_idx_None_iff)
  note k = this
  then have "alloc_alias t = alias_cand (nt_alias_base t) k" by (simp add: alloc_alias_def)
  moreover have "\<not> alias_taken t (alias_cand (nt_alias_base t) k)"
    using find_idx_sat [OF k] find_idx_lt [OF k] by simp
  ultimately show "\<not> alias_taken t (alloc_alias t)" "alloc_alias t \<noteq> ALIAS_NONE"
    "alloc_alias t \<noteq> ALIAS_BROADCAST"
    using alias_cand_range by auto
qed

section \<open>Every operation keeps the invariant\<close>

lemma nt_inv_init: "nt_inv NeighborTable_init"
  by (auto simp: nt_inv_def NeighborTable_init_def Neighbor_init_def
      intro!: nbr.distinct_replicate als.distinct_replicate)

lemma nt_inv_seed: "nt_inv t \<Longrightarrow> nt_inv (set_alias_seed i t)"
  by (simp add: nt_inv_def set_alias_seed_def)

text \<open>A write to a live slot that leaves id and alias alone.\<close>

lemma nt_inv_refresh:
  assumes inv: "nt_inv t" and k: "k < length (nt_slots t)" "n_used (nt_slots t ! k)"
    and e: "n_id e = n_id (nt_slots t ! k)" "n_my_alias e = n_my_alias (nt_slots t ! k)"
    "nbr_ok (nt_slots t ! k) \<Longrightarrow> nbr_ok e"
  shows "nt_inv (t\<lparr>nt_slots := (nt_slots t)[k := e]\<rparr>)"
proof -
  have "nbr_ok (nt_slots t ! k)" using nt_invD(4) [OF inv] k by simp
  with e have "nbr_ok e" by simp
  then show ?thesis
    using inv k e unfolding nt_inv_def
    by (auto intro!: nbr.distinct_refresh als.distinct_refresh dest!: subsetD [OF set_update_subset_insert])
qed

lemma nt_findD: "nt_find t i = Some k \<Longrightarrow>
    k < length (nt_slots t) \<and> n_used (nt_slots t ! k) \<and> n_id (nt_slots t ! k) = i"
  unfolding nt_find_def by (rule nbr.find_SomeD)

lemma nt_inv_modify:
  assumes "nt_inv t" and "\<And>n. n_id (f n) = n_id n" "\<And>n. n_my_alias (f n) = n_my_alias n"
    "\<And>n. nbr_ok n \<Longrightarrow> nbr_ok (f n)"
  shows "nt_inv (nt_modify t i f)"
  using assms by (auto simp: nt_modify_def upd_at_def split: option.splits
      dest!: nt_findD intro!: nt_inv_refresh)

lemma nt_inv_set_tx_report: "nt_inv t \<Longrightarrow> nt_inv (set_tx_report t i q)"
  unfolding set_tx_report_def
  by (rule nt_inv_modify) (auto simp: nbr_ok_def q_ok_def ewma_bounds)

lemma nt_inv_set_their_alias: "nt_inv t \<Longrightarrow> nt_inv (set_their_alias t i a)"
  unfolding set_their_alias_def by (rule nt_inv_modify) (auto simp: nbr_ok_def)

lemma nt_inv_set_caps: "nt_inv t \<Longrightarrow> nt_inv (set_caps t i c)"
  unfolding set_caps_def by (rule nt_inv_modify) (auto simp: nbr_ok_def)

text \<open>Claiming a free slot for a new id and updating its quality, as one write.\<close>

lemma heard_claim_update:
  fixes t :: neighbor_table
  assumes "k < length (nt_slots t)"
    and "t1 = t\<lparr>nt_slots := (nt_slots t)[k := (nt_slots t ! k)\<lparr>n_used := True, n_id := i,
            n_q_rx := - 1, n_q_tx := - 1, n_their_alias := ALIAS_NONE\<rparr>]\<rparr>"
  shows "heard_update (heard_claim t i k) k q now =
      t\<lparr>nt_slots := (nt_slots t)[k := (nt_slots t ! k)\<lparr>n_used := True, n_id := i,
         n_q_tx := - 1, n_their_alias := ALIAS_NONE, n_my_alias := alloc_alias t1,
         n_q_rx := clampf q Q_MIN Q_MAX, n_last_heard_ms := now\<rparr>]\<rparr>"
  using assms(1) unfolding assms(2)
  by (simp add: heard_update_def heard_claim_def upd_at_def Let_def ewma_first)

lemma alias_not_taken_find:
  "\<not> alias_taken t a \<Longrightarrow> slot_find n_used n_my_alias a (nt_slots t) = None"
  by (auto simp: alias_taken_def slot_find_def find_idx_None_iff)

lemma nt_inv_claim:
  assumes inv: "nt_inv t" and new: "nt_find t i = None"
    and k: "k < length (nt_slots t)" "\<not> n_used (nt_slots t ! k)"
  shows "nt_inv (heard_update (heard_claim t i k) k q now)"
proof -
  define t1 where "t1 = t\<lparr>nt_slots := (nt_slots t)[k := (nt_slots t ! k)\<lparr>n_used := True, n_id := i,
            n_q_rx := - 1, n_q_tx := - 1, n_their_alias := ALIAS_NONE\<rparr>]\<rparr>"
  define e where "e = (nt_slots t ! k)\<lparr>n_used := True, n_id := i, n_q_tx := - 1,
     n_their_alias := ALIAS_NONE, n_my_alias := alloc_alias t1, n_q_rx := clampf q Q_MIN Q_MAX,
     n_last_heard_ms := now\<rparr>"
  have eq: "heard_update (heard_claim t i k) k q now = t\<lparr>nt_slots := (nt_slots t)[k := e]\<rparr>"
    unfolding e_def by (rule heard_claim_update [OF k(1) t1_def])
  have len: "length (nt_slots t1) < 254" using inv by (simp add: t1_def nt_inv_def MAX_NEIGHBORS_def)
  have "\<not> alias_taken t (alloc_alias t1)"
  proof
    assume "alias_taken t (alloc_alias t1)"
    then obtain j where "j < length (nt_slots t)" "n_used (nt_slots t ! j)"
      "n_my_alias (nt_slots t ! j) = alloc_alias t1"
      by (auto simp: alias_taken_def in_set_conv_nth)
    moreover from this have "j \<noteq> k" using k by auto
    ultimately have "nt_slots t1 ! j \<in> set (nt_slots t1)" "n_used (nt_slots t1 ! j)"
      "n_my_alias (nt_slots t1 ! j) = alloc_alias t1"
      using nth_in_update [of j "nt_slots t" k] by (auto simp: t1_def)
    then have "alias_taken t1 (alloc_alias t1)" unfolding alias_taken_def by blast
    then show False using alloc_alias_fresh(1) [OF len] by simp
  qed
  then have "slot_find n_used n_my_alias (n_my_alias e) (nt_slots t) = None"
    by (intro alias_not_taken_find) (simp add: e_def)
  moreover have "slot_find n_used n_id (n_id e) (nt_slots t) = None"
    using new by (simp add: e_def nt_find_def)
  moreover have "nbr_ok e"
    using alloc_alias_fresh [OF len] clampf_bounds [OF Q_MIN_le_MAX, of q]
    by (simp add: e_def nbr_ok_def q_ok_def)
  ultimately show ?thesis
    unfolding eq using inv unfolding nt_inv_def
    by (auto intro!: nbr.distinct_claim als.distinct_claim dest!: subsetD [OF set_update_subset_insert])
qed

lemma nt_inv_heard: "nt_inv t \<Longrightarrow> nt_inv (snd (heard t i q now))"
proof -
  assume inv: "nt_inv t"
  show ?thesis
  proof (cases "nt_find t i")
    case (Some k)
    then have k: "k < length (nt_slots t)" "n_used (nt_slots t ! k)" by (auto dest: nt_findD)
    then show ?thesis using inv Some
      by (auto simp: heard_def heard_update_def upd_at_def nbr_ok_def ewma_bounds intro!: nt_inv_refresh)
  next
    case None
    show ?thesis
    proof (cases "find_idx (\<lambda>n. \<not> n_used n) (nt_slots t)")
      case (Some k)
      then show ?thesis
        using None nt_inv_claim [OF inv None find_idx_lt [OF Some] find_idx_sat [OF Some]]
        by (simp add: heard_def)
    qed (simp add: heard_def None inv)
  qed
qed

lemma nt_inv_prune: "nt_inv t \<Longrightarrow> nt_inv (fst (nt_prune t now timeout))"
  by (auto simp: nt_inv_def nt_prune_def intro!: nbr.distinct_map als.distinct_map split: if_splits)

lemmas nt_inv_ops [inv_intros] =
  nt_inv_init nt_inv_seed nt_inv_set_tx_report nt_inv_set_their_alias nt_inv_set_caps
  nt_inv_heard nt_inv_prune


section \<open>Properties\<close>

text \<open>The calls the router makes on the table, as an alphabet of events.\<close>

datatype nt_op =
    Heard node_id float32 u32
  | Tx_report node_id float32
  | Their_alias node_id link_addr
  | Caps node_id u16
  | Prune u32 u32

fun nt_step :: "neighbor_table \<Rightarrow> nt_op \<Rightarrow> neighbor_table" where
  "nt_step t (Heard i q now) = snd (heard t i q now)"
| "nt_step t (Tx_report i q) = set_tx_report t i q"
| "nt_step t (Their_alias i a) = set_their_alias t i a"
| "nt_step t (Caps i c) = set_caps t i c"
| "nt_step t (Prune now timeout) = fst (nt_prune t now timeout)"

lemma nt_inv_step: "nt_inv t \<Longrightarrow> nt_inv (nt_step t ev)"
  by (cases ev) (auto intro: nt_inv_ops)

lemma nt_inv_run: "nt_inv t \<Longrightarrow> nt_inv (foldl nt_step t evs)"
  by (induction evs arbitrary: t) (auto intro: nt_inv_step)

lemma neighbor_table_run_ok: "nt_inv (foldl nt_step (set_alias_seed me NeighborTable_init) evs)"
  by (intro nt_inv_run nt_inv_seed nt_inv_init)

text \<open>
  C32. Whatever sequence of beacons, reports and prunes a node sees after seeding its alias range,
  its neighbour table keeps its invariant: no neighbour and no assigned alias is live twice, every
  assigned alias is a real one (\<open>1..254\<close>), and every stored quality is in \<open>[Q_MIN, Q_MAX]\<close> or marked
  unknown.
\<close>

theorem neighbor_table_invariant:
  "nt_inv (foldl nt_step (set_alias_seed me NeighborTable_init) evs)"
  by (rule neighbor_table_run_ok)

lemma neighbor_by_link_SomeE:
  assumes "neighbor_by_link t nh ph \<noteq> nid_zero"
  obtains n where "n \<in> set (nt_slots t)" "n_used n" "n_my_alias n = nh" "n_their_alias n = ph"
    "neighbor_by_link t nh ph = n_id n"
proof -
  from assms obtain i where
    "find_idx (\<lambda>n. n_used n \<and> n_my_alias n = nh \<and> n_their_alias n = ph) (nt_slots t) = Some i"
    by (auto simp: neighbor_by_link_def split: if_splits option.splits)
  with that [of "nt_slots t ! i"] find_idx_sat [OF this] find_idx_lt [OF this] assms show ?thesis
    by (auto simp: neighbor_by_link_def split: if_splits)
qed

lemma neighbor_by_link_live:
  assumes inv: "nt_inv t" and n: "n \<in> set (nt_slots t)" "n_used n"
  shows "neighbor_by_link t (n_my_alias n) (n_their_alias n) = n_id n"
proof -
  let ?P = "\<lambda>m. n_used m \<and> n_my_alias m = n_my_alias n \<and> n_their_alias m = n_their_alias n"
  obtain i where i: "find_idx ?P (nt_slots t) = Some i"
    using n by (cases "find_idx ?P (nt_slots t)") (auto simp: find_idx_None_iff)
  have "nt_slots t ! i = n"
    using als.lookup_Some_iff [OF nt_invD(3) [OF inv], of "n_my_alias n"] n
      find_idx_sat [OF i] find_idx_lt [OF i] by (metis nth_mem option.inject)
  moreover have "n_my_alias n \<noteq> ALIAS_NONE" using nt_invD(4) [OF inv n] by (simp add: nbr_ok_def)
  ultimately show ?thesis by (simp add: neighbor_by_link_def i)
qed

text \<open>
  The strict directed-frame match is exact: in a table that satisfies the invariant the header
  pair of a live link names that neighbour and no other, and a header pair that names some neighbour
  is the alias pair of a live entry.
\<close>

theorem neighbor_by_link_correct:
  assumes "nt_inv t"
  shows "(\<forall>n\<in>set (nt_slots t). n_used n \<longrightarrow>
            neighbor_by_link t (n_my_alias n) (n_their_alias n) = n_id n)
       \<and> (neighbor_by_link t nh ph \<noteq> nid_zero \<longrightarrow>
            (\<exists>n\<in>set (nt_slots t). n_used n \<and> n_my_alias n = nh \<and> n_their_alias n = ph
               \<and> n_id n = neighbor_by_link t nh ph))"
  using neighbor_by_link_live [OF assms] by (metis neighbor_by_link_SomeE)

definition nt_example :: neighbor_table where
  "nt_example = foldl nt_step (set_alias_seed (nid_from_u32 1) NeighborTable_init)
     [Heard (nid_from_u32 2) 1 5, Their_alias (nid_from_u32 2) 9]"

lemma nt_inv_example: "nt_inv nt_example"
  unfolding nt_example_def by (rule neighbor_table_run_ok)

theorem neighbor_by_link_correct_witness:
  "nt_inv nt_example \<and> neighbor_by_link nt_example 211 9 \<noteq> nid_zero
   \<and> (\<exists>n\<in>set (nt_slots nt_example). n_used n \<and> n_my_alias n = 211 \<and> n_their_alias n = 9
        \<and> n_id n = neighbor_by_link nt_example 211 9)"
proof -
  have "neighbor_by_link nt_example 211 9 \<noteq> nid_zero" by code_simp
  then show ?thesis
    using neighbor_by_link_correct [OF nt_inv_example, of 211 9] nt_inv_example by blast
qed

lemma tx_cost_bounds:
  assumes "nt_inv t"
  shows "1 \<le> tx_cost t i \<and> tx_cost t i \<le> fdiv 1 Q_MIN"
proof -
  define q where "q = (let q = (case nt_get t i of None \<Rightarrow> Q_MIN
      | Some n \<Rightarrow> if 0 < n_q_tx n then n_q_tx n else Q_MIN) in if q < Q_MIN then Q_MIN else q)"
  have "n_q_tx n \<le> Q_MAX" if "nt_get t i = Some n" "0 < n_q_tx n" for n
  proof -
    from that(1) have "n \<in> set (nt_slots t)" "n_used n"
      unfolding nt_get_lookup by (auto dest: nbr.lookup_SomeD)
    with nt_invD(4) [OF assms] have "nbr_ok n" by simp
    with that(2) show ?thesis by (auto simp: nbr_ok_def q_ok_def)
  qed
  then have q: "Q_MIN \<le> q" "q \<le> Q_MAX" by (auto simp: q_def Let_def split: option.splits)
  have "tx_cost t i = fdiv 1 q" by (simp add: tx_cost_def q_def Let_def)
  moreover have "1 \<le> fdiv 1 q"
    unfolding fdiv_def using q less_le_trans [OF Q_MIN_pos q(1)]
    by (intro fl.rnd_ge_one) (simp add: Q_MAX_def le_divide_eq)
  moreover have "fdiv 1 q \<le> fdiv 1 Q_MIN"
    unfolding fdiv_def using q Q_MIN_pos less_le_trans [OF Q_MIN_pos q(1)]
    by (intro fl_mono divide_left_mono) auto
  ultimately show ?thesis by simp
qed

lemma max_tx_cost: "fdiv 1 Q_MIN = 50"
  unfolding Q_MIN_value fdiv_def by code_simp

end
