(* ===== verification/Routing_Table.thy ===== *)
theory Routing_Table
  imports Mesh_Types Float32 Slot_Table
begin

text \<open>
  \<^verbatim>\<open>lib/mesh/routing_table.h/.cpp\<close>: the distance-vector routes. The class \<^verbatim>\<open>RoutingTable\<close> is the record
  \<open>routing_table\<close>. Its abstract specification is a finite map from destinations to routes; \<open>offer\<close>,
  \<open>drop_via\<close> and \<open>prune\<close> are shown to refine the corresponding map operations, and every operation
  keeps the invariant \<open>rt_inv\<close> (one live route per destination, hop and cost ceilings, the pinned
  self-route).
\<close>

section \<open>State\<close>

definition MAX_ROUTES :: nat where "MAX_ROUTES = 64"
definition MAX_HOPS :: u8 where "MAX_HOPS = 16"
definition COST_INF :: float32 where "COST_INF = 1000000"

record route =
  rt_dst :: node_id
  rt_next_hop :: node_id
  rt_cost :: float32
  rt_hops :: u8
  rt_updated_ms :: u32
  rt_used :: bool

definition Route_init :: route where
  "Route_init = \<lparr>rt_dst = nid_zero, rt_next_hop = nid_zero, rt_cost = COST_INF, rt_hops = 0,
     rt_updated_ms = 0, rt_used = False\<rparr>"

record routing_table =
  rtb_self :: node_id
  rtb_slots :: "route list"

definition RoutingTable_init :: routing_table where
  "RoutingTable_init = \<lparr>rtb_self = nid_zero, rtb_slots = replicate MAX_ROUTES Route_init\<rparr>"

section \<open>Operations\<close>

definition rt_find :: "routing_table \<Rightarrow> node_id \<Rightarrow> nat option" where
  "rt_find t dst = slot_find rt_used rt_dst dst (rtb_slots t)"

definition rt_get :: "routing_table \<Rightarrow> node_id \<Rightarrow> route option" where
  "rt_get t dst = map_option (\<lambda>i. rtb_slots t ! i) (rt_find t dst)"

definition rt_alloc :: "routing_table \<Rightarrow> node_id \<Rightarrow> (nat \<times> routing_table) option" where
  "rt_alloc t dst = (case find_idx (\<lambda>r. \<not> rt_used r) (rtb_slots t) of
     None \<Rightarrow> None
   | Some i \<Rightarrow> Some (i, t\<lparr>rtb_slots := (rtb_slots t)[i := Route_init\<lparr>rt_used := True, rt_dst := dst\<rparr>]\<rparr>))"

definition rt_set_self :: "routing_table \<Rightarrow> node_id \<Rightarrow> u32 \<Rightarrow> routing_table" where
  "rt_set_self t me now_ms =
     (let t = t\<lparr>rtb_self := me\<rparr>;
          found = (case rt_find t me of Some i \<Rightarrow> Some (i, t) | None \<Rightarrow> rt_alloc t me)
      in case found of
           None \<Rightarrow> t
         | Some (i, t) \<Rightarrow> t\<lparr>rtb_slots := upd_at i (\<lambda>r. r\<lparr>rt_dst := me, rt_next_hop := me, rt_cost := 0,
                             rt_hops := 0, rt_updated_ms := now_ms\<rparr>) (rtb_slots t)\<rparr>)"

definition ROUTE_EPS :: float32 where "ROUTE_EPS = fl (1 / 10000)"

definition rt_store :: "node_id \<Rightarrow> float32 \<Rightarrow> u8 \<Rightarrow> u32 \<Rightarrow> route \<Rightarrow> route" where
  "rt_store next_hop cost hops now_ms r =
     r\<lparr>rt_next_hop := next_hop, rt_cost := cost, rt_hops := hops, rt_updated_ms := now_ms\<rparr>"

definition offer :: "routing_table \<Rightarrow> node_id \<Rightarrow> node_id \<Rightarrow> float32 \<Rightarrow> u8 \<Rightarrow> u32 \<Rightarrow> bool \<times> routing_table" where
  "offer t dst next_hop cost hops now_ms =
     (if dst = rtb_self t then (False, t)
      else if MAX_HOPS < hops \<or> COST_INF \<le> cost then
        (case rt_find t dst of
           Some i \<Rightarrow> if rt_next_hop (rtb_slots t ! i) = next_hop
                     then (True, t\<lparr>rtb_slots := upd_at i (\<lambda>r. r\<lparr>rt_used := False\<rparr>) (rtb_slots t)\<rparr>)
                     else (False, t)
         | None \<Rightarrow> (False, t))
      else
        (case rt_find t dst of
           None \<Rightarrow>
             (case rt_alloc t dst of
                None \<Rightarrow> (False, t)
              | Some (i, t) \<Rightarrow>
                  (True, t\<lparr>rtb_slots := upd_at i (rt_store next_hop cost hops now_ms) (rtb_slots t)\<rparr>))
         | Some i \<Rightarrow>
             (let r = rtb_slots t ! i in
              if rt_next_hop r = next_hop then
                (True, t\<lparr>rtb_slots := upd_at i (\<lambda>r. r\<lparr>rt_cost := cost, rt_hops := hops,
                          rt_updated_ms := now_ms\<rparr>) (rtb_slots t)\<rparr>)
              else if cost < fsub (rt_cost r) ROUTE_EPS then
                (True, t\<lparr>rtb_slots := upd_at i (rt_store next_hop cost hops now_ms) (rtb_slots t)\<rparr>)
              else (False, t))))"

definition rt_next_hop_for :: "routing_table \<Rightarrow> node_id \<Rightarrow> node_id" where
  "rt_next_hop_for t dst = (case rt_get t dst of Some r \<Rightarrow> rt_next_hop r | None \<Rightarrow> nid_zero)"

definition rt_prune :: "routing_table \<Rightarrow> u32 \<Rightarrow> u32 \<Rightarrow> routing_table" where
  "rt_prune t now_ms timeout_ms =
     t\<lparr>rtb_slots := map (\<lambda>r. if rt_used r \<and> rt_dst r \<noteq> rtb_self t \<and> timeout_ms < now_ms - rt_updated_ms r
                            then r\<lparr>rt_used := False\<rparr> else r) (rtb_slots t)\<rparr>"

definition drop_via :: "routing_table \<Rightarrow> node_id \<Rightarrow> routing_table" where
  "drop_via t via =
     t\<lparr>rtb_slots := map (\<lambda>r. if rt_used r \<and> rt_dst r \<noteq> rtb_self t \<and> rt_next_hop r = via
                            then r\<lparr>rt_used := False\<rparr> else r) (rtb_slots t)\<rparr>"

definition rt_count :: "routing_table \<Rightarrow> nat" where
  "rt_count t = count_if rt_used (rtb_slots t)"

section \<open>The abstract specification\<close>

interpretation rts: slot_table rt_used rt_dst "\<lambda>r. r\<lparr>rt_used := False\<rparr>"
  by unfold_locales simp

lemma rt_get_lookup: "rt_get t = slot_lookup rt_used rt_dst (rtb_slots t)"
  by (rule ext) (simp add: rt_get_def rt_find_def slot_lookup_def)

definition rt_full :: "routing_table \<Rightarrow> bool" where
  "rt_full t \<longleftrightarrow> (\<forall>r\<in>set (rtb_slots t). rt_used r)"

definition mk_route :: "node_id \<Rightarrow> node_id \<Rightarrow> float32 \<Rightarrow> u8 \<Rightarrow> u32 \<Rightarrow> route" where
  "mk_route dst nh c h now = \<lparr>rt_dst = dst, rt_next_hop = nh, rt_cost = c, rt_hops = h,
     rt_updated_ms = now, rt_used = True\<rparr>"

text \<open>What an offer means: the self-route is never overridden, an unreachable advertisement
  withdraws the route it supports and nothing else, the current next hop may always refresh its own
  route, and another next hop takes over only with a strictly better cost.\<close>

definition offer_spec ::
    "node_id \<Rightarrow> bool \<Rightarrow> node_id \<Rightarrow> node_id \<Rightarrow> float32 \<Rightarrow> u8 \<Rightarrow> u32 \<Rightarrow> (node_id \<rightharpoonup> route) \<Rightarrow> (node_id \<rightharpoonup> route)" where
  "offer_spec self full dst nh c h now m =
     (if dst = self then m
      else if MAX_HOPS < h \<or> COST_INF \<le> c then
        (if \<exists>r. m dst = Some r \<and> rt_next_hop r = nh then m(dst := None) else m)
      else (case m dst of
              None \<Rightarrow> if full then m else m(dst \<mapsto> mk_route dst nh c h now)
            | Some r \<Rightarrow> if rt_next_hop r = nh \<or> c < fsub (rt_cost r) ROUTE_EPS
                        then m(dst \<mapsto> mk_route dst nh c h now) else m))"

section \<open>Invariant\<close>

definition route_ok :: "node_id \<Rightarrow> route \<Rightarrow> bool" where
  "route_ok self r \<longleftrightarrow>
     (if rt_dst r = self then rt_next_hop r = self \<and> rt_cost r = 0 \<and> rt_hops r = 0
      else rt_hops r \<le> MAX_HOPS \<and> rt_cost r < COST_INF)"

definition rt_inv :: "routing_table \<Rightarrow> bool" where
  "rt_inv t \<longleftrightarrow> length (rtb_slots t) = MAX_ROUTES
     \<and> slots_distinct rt_used rt_dst (rtb_slots t)
     \<and> (\<forall>r\<in>set (rtb_slots t). rt_used r \<longrightarrow> route_ok (rtb_self t) r)
     \<and> rt_get t (rtb_self t) \<noteq> None"

lemma rt_invD:
  assumes "rt_inv t"
  shows "length (rtb_slots t) = MAX_ROUTES" "slots_distinct rt_used rt_dst (rtb_slots t)"
    "r \<in> set (rtb_slots t) \<Longrightarrow> rt_used r \<Longrightarrow> route_ok (rtb_self t) r"
    "rt_get t (rtb_self t) \<noteq> None"
  using assms by (auto simp: rt_inv_def)

lemma rt_findD: "rt_find t d = Some i \<Longrightarrow>
    i < length (rtb_slots t) \<and> rt_used (rtb_slots t ! i) \<and> rt_dst (rtb_slots t ! i) = d"
  unfolding rt_find_def by (rule rts.find_SomeD)

lemma rt_getD: "rt_get t d = Some r \<Longrightarrow> r \<in> set (rtb_slots t) \<and> rt_used r \<and> rt_dst r = d"
  unfolding rt_get_lookup by (rule rts.lookup_SomeD)

lemma rt_get_ok: "rt_inv t \<Longrightarrow> rt_get t d = Some r \<Longrightarrow> route_ok (rtb_self t) r"
  using rt_getD rt_invD(3) by blast

text \<open>The whole invariant seen through the map: what is stored is well formed and the self-route is
  there.\<close>

lemma rt_invI:
  assumes "length (rtb_slots t) = MAX_ROUTES" "slots_distinct rt_used rt_dst (rtb_slots t)"
    and "\<And>d r. rt_get t d = Some r \<Longrightarrow> route_ok (rtb_self t) r" "rt_get t (rtb_self t) \<noteq> None"
  shows "rt_inv t"
  using assms rts.lookup_in_set unfolding rt_inv_def rt_get_lookup by blast

section \<open>Operations refine the specification\<close>

lemma rt_alloc_None_iff: "rt_alloc t d = None \<longleftrightarrow> rt_full t"
  by (auto simp: rt_alloc_def rt_full_def find_idx_None_iff split: option.splits)
    (metis find_idx_None_iff option.distinct(1))

lemma rt_allocD:
  assumes "rt_alloc t d = Some (i, t')"
  shows "i < length (rtb_slots t)" "\<not> rt_used (rtb_slots t ! i)" "rtb_self t' = rtb_self t"
    "rtb_slots t' = (rtb_slots t)[i := Route_init\<lparr>rt_used := True, rt_dst := d\<rparr>]"
  using assms by (auto simp: rt_alloc_def split: option.splits dest: find_idx_lt find_idx_sat)

lemma upd_at_lt: "i < length xs \<Longrightarrow> upd_at i f xs = xs[i := f (xs ! i)]"
  by (simp add: upd_at_def)

lemma route_eq_mk: "rt_used r \<Longrightarrow> rt_dst r = d \<Longrightarrow> rt_store nh c h now r = mk_route d nh c h now"
  by (simp add: rt_store_def mk_route_def)

lemma route_refresh_mk:
  "rt_used r \<Longrightarrow> rt_dst r = d \<Longrightarrow> rt_next_hop r = nh \<Longrightarrow>
     r\<lparr>rt_cost := c, rt_hops := h, rt_updated_ms := now\<rparr> = mk_route d nh c h now"
  by (simp add: mk_route_def)

lemma offer_self [simp]: "rtb_self (snd (offer t d nh c h now)) = rtb_self t"
  by (auto simp: offer_def Let_def split: option.splits dest: rt_allocD(3))

lemma offer_map:
  assumes "slots_distinct rt_used rt_dst (rtb_slots t)"
  shows "rt_get (snd (offer t d nh c h now)) =
      offer_spec (rtb_self t) (rt_full t) d nh c h now (rt_get t)
    \<and> slots_distinct rt_used rt_dst (rtb_slots (snd (offer t d nh c h now)))
    \<and> length (rtb_slots (snd (offer t d nh c h now))) = length (rtb_slots t)"
proof (cases "rt_find t d")
  case None
  then have get: "rt_get t d = None" by (simp add: rt_get_def)
  show ?thesis
  proof (cases "rt_alloc t d")
    case a: None
    then have "rt_full t" by (simp add: rt_alloc_None_iff)
    with None get a assms show ?thesis by (simp add: offer_def offer_spec_def)
  next
    case (Some p)
    then obtain i t' where a: "rt_alloc t d = Some (i, t')" by (cases p) auto
    note i = rt_allocD [OF a]
    from a have nf: "\<not> rt_full t" using rt_alloc_None_iff [of t d] by simp
    have slots: "rtb_slots (t'\<lparr>rtb_slots := upd_at i (rt_store nh c h now) (rtb_slots t')\<rparr>) =
        (rtb_slots t)[i := mk_route d nh c h now]"
      using i by (simp add: upd_at_lt rt_store_def mk_route_def Route_init_def)
    have fnd: "slot_find rt_used rt_dst (rt_dst (mk_route d nh c h now)) (rtb_slots t) = None"
      using None by (simp add: rt_find_def mk_route_def)
    have "slot_lookup rt_used rt_dst ((rtb_slots t)[i := mk_route d nh c h now]) =
        (slot_lookup rt_used rt_dst (rtb_slots t))(d \<mapsto> mk_route d nh c h now)"
      using rts.lookup_claim [OF assms fnd i(1)] i(2) by (simp add: mk_route_def)
    then show ?thesis
      using None a get nf assms rts.distinct_claim [OF assms fnd, of i] slots
      by (simp add: offer_def offer_spec_def rt_get_lookup)
  qed
next
  case (Some i)
  then have i: "i < length (rtb_slots t)" "rt_used (rtb_slots t ! i)" "rt_dst (rtb_slots t ! i) = d"
    by (auto dest: rt_findD)
  have get: "rt_get t d = Some (rtb_slots t ! i)" by (simp add: rt_get_def Some)
  have f: "slot_find rt_used rt_dst d (rtb_slots t) = Some i" using Some by (simp add: rt_find_def)
  have stored: "slot_lookup rt_used rt_dst ((rtb_slots t)[i := mk_route d nh c h now]) =
        (slot_lookup rt_used rt_dst (rtb_slots t))(d \<mapsto> mk_route d nh c h now)"
    "slots_distinct rt_used rt_dst ((rtb_slots t)[i := mk_route d nh c h now])"
    using rts.lookup_refresh [OF assms f] rts.distinct_refresh [OF assms i(1,2)] i
    by (simp_all add: mk_route_def)
  have cleared: "slot_lookup rt_used rt_dst ((rtb_slots t)[i := (rtb_slots t ! i)\<lparr>rt_used := False\<rparr>]) =
        (slot_lookup rt_used rt_dst (rtb_slots t))(d := None)"
    "slots_distinct rt_used rt_dst ((rtb_slots t)[i := (rtb_slots t ! i)\<lparr>rt_used := False\<rparr>])"
    using rts.lookup_clear [OF assms f] rts.distinct_release [OF assms] by simp_all
  show ?thesis
    using Some i get stored cleared assms
    by (auto simp: offer_def offer_spec_def upd_at_lt route_eq_mk route_refresh_mk Let_def
        rt_get_lookup)
qed

lemma rt_inv_offer: "rt_inv t \<Longrightarrow> rt_inv (snd (offer t d nh c h now))"
proof (rule rt_invI)
  assume inv: "rt_inv t"
  note m = offer_map [OF rt_invD(2) [OF inv], of d nh c h now]
  show "length (rtb_slots (snd (offer t d nh c h now))) = MAX_ROUTES"
    using m rt_invD(1) [OF inv] by simp
  show "slots_distinct rt_used rt_dst (rtb_slots (snd (offer t d nh c h now)))" using m by simp
  have "rt_get (snd (offer t d nh c h now)) (rtb_self t) = rt_get t (rtb_self t)"
    using m by (auto simp: offer_spec_def split: option.splits)
  then show "rt_get (snd (offer t d nh c h now)) (rtb_self (snd (offer t d nh c h now))) \<noteq> None"
    using rt_invD(4) [OF inv] by simp
  fix d' r assume r: "rt_get (snd (offer t d nh c h now)) d' = Some r"
  then have "rt_get t d' = Some r \<or> r = mk_route d nh c h now \<and> d \<noteq> rtb_self t \<and> h \<le> MAX_HOPS \<and> c < COST_INF"
    using m by (auto simp: offer_spec_def split: option.splits if_splits)
  then show "route_ok (rtb_self (snd (offer t d nh c h now))) r"
    using rt_get_ok [OF inv] by (auto simp: route_ok_def mk_route_def)
qed

section \<open>The self-route, pruning and teardown\<close>

lemma set_self_map:
  assumes "slots_distinct rt_used rt_dst (rtb_slots t)" and "\<not> rt_full t \<or> rt_get t me \<noteq> None"
  shows "rt_get (rt_set_self t me now) = (rt_get t)(me \<mapsto> mk_route me me 0 0 now)
    \<and> slots_distinct rt_used rt_dst (rtb_slots (rt_set_self t me now))
    \<and> length (rtb_slots (rt_set_self t me now)) = length (rtb_slots t)
    \<and> rtb_self (rt_set_self t me now) = me"
proof (cases "rt_find t me")
  case (Some i)
  then have i: "i < length (rtb_slots t)" "rt_used (rtb_slots t ! i)" "rt_dst (rtb_slots t ! i) = me"
    by (auto dest: rt_findD)
  have f: "slot_find rt_used rt_dst me (rtb_slots t) = Some i" using Some by (simp add: rt_find_def)
  have "(rtb_slots t ! i)\<lparr>rt_dst := me, rt_next_hop := me, rt_cost := 0, rt_hops := 0,
      rt_updated_ms := now\<rparr> = mk_route me me 0 0 now" using i by (simp add: mk_route_def)
  moreover have "slot_lookup rt_used rt_dst ((rtb_slots t)[i := mk_route me me 0 0 now]) =
      (slot_lookup rt_used rt_dst (rtb_slots t))(me \<mapsto> mk_route me me 0 0 now)"
    by (rule rts.lookup_refresh [OF assms(1) f]) (simp_all add: mk_route_def)
  moreover have "slots_distinct rt_used rt_dst ((rtb_slots t)[i := mk_route me me 0 0 now])"
    using i by (intro rts.distinct_refresh [OF assms(1)]) (simp_all add: mk_route_def)
  ultimately show ?thesis
    using f i by (simp add: rt_set_self_def rt_find_def upd_at_lt Let_def rt_get_lookup)
next
  case None
  with assms(2) have "rt_alloc t me \<noteq> None" by (simp add: rt_alloc_None_iff rt_get_def)
  then obtain i t' where a: "rt_alloc t me = Some (i, t')" by auto
  then have i: "i < length (rtb_slots t)" "\<not> rt_used (rtb_slots t ! i)" by (auto dest: rt_allocD)
  have fi: "find_idx (\<lambda>r. \<not> rt_used r) (rtb_slots t) = Some i"
    using a by (simp add: rt_alloc_def split: option.splits)
  have fnd: "slot_find rt_used rt_dst (rt_dst (mk_route me me 0 0 now)) (rtb_slots t) = None"
    using None by (simp add: rt_find_def mk_route_def)
  have eq: "rt_set_self t me now = t\<lparr>rtb_self := me, rtb_slots := (rtb_slots t)[i := mk_route me me 0 0 now]\<rparr>"
    using None fi i by (simp add: rt_set_self_def rt_find_def rt_alloc_def upd_at_lt Let_def
        mk_route_def Route_init_def)
  have "slot_lookup rt_used rt_dst ((rtb_slots t)[i := mk_route me me 0 0 now]) =
      (slot_lookup rt_used rt_dst (rtb_slots t))(me \<mapsto> mk_route me me 0 0 now)"
    using rts.lookup_claim [OF assms(1) fnd i(1)] i(2) by (simp add: mk_route_def)
  then show ?thesis using rts.distinct_claim [OF assms(1) fnd] by (simp add: eq rt_get_lookup)
qed

lemma rt_inv_set_self: "rt_inv t \<Longrightarrow> rt_inv (rt_set_self t (rtb_self t) now)"
proof (rule rt_invI)
  assume inv: "rt_inv t"
  note m = set_self_map [OF rt_invD(2) [OF inv] disjI2 [OF rt_invD(4) [OF inv]], of now]
  show "length (rtb_slots (rt_set_self t (rtb_self t) now)) = MAX_ROUTES"
    using m rt_invD(1) [OF inv] by simp
  show "slots_distinct rt_used rt_dst (rtb_slots (rt_set_self t (rtb_self t) now))" using m by simp
  show "rt_get (rt_set_self t (rtb_self t) now) (rtb_self (rt_set_self t (rtb_self t) now)) \<noteq> None"
    using m by simp
  fix d r assume "rt_get (rt_set_self t (rtb_self t) now) d = Some r"
  with m rt_get_ok [OF inv] show "route_ok (rtb_self (rt_set_self t (rtb_self t) now)) r"
    by (auto simp: route_ok_def mk_route_def split: if_splits)
qed

lemma rt_inv_init: "rt_inv (rt_set_self RoutingTable_init me now)"
proof (rule rt_invI)
  have "\<not> rt_full RoutingTable_init"
    by (simp add: rt_full_def RoutingTable_init_def MAX_ROUTES_def Route_init_def)
  moreover have d: "slots_distinct rt_used rt_dst (rtb_slots RoutingTable_init)"
    unfolding RoutingTable_init_def by (simp add: rts.distinct_replicate Route_init_def)
  ultimately have m: "rt_get (rt_set_self RoutingTable_init me now) =
      (rt_get RoutingTable_init)(me \<mapsto> mk_route me me 0 0 now)"
    "slots_distinct rt_used rt_dst (rtb_slots (rt_set_self RoutingTable_init me now))"
    "length (rtb_slots (rt_set_self RoutingTable_init me now)) = length (rtb_slots RoutingTable_init)"
    "rtb_self (rt_set_self RoutingTable_init me now) = me"
    using set_self_map [OF d] by blast+
  show "length (rtb_slots (rt_set_self RoutingTable_init me now)) = MAX_ROUTES"
    using m(3) by (simp add: RoutingTable_init_def)
  show "slots_distinct rt_used rt_dst (rtb_slots (rt_set_self RoutingTable_init me now))" by (rule m)
  show "rt_get (rt_set_self RoutingTable_init me now) (rtb_self (rt_set_self RoutingTable_init me now)) \<noteq> None"
    by (simp add: m)
  fix d r assume "rt_get (rt_set_self RoutingTable_init me now) d = Some r"
  moreover have "rt_get RoutingTable_init d = None"
    by (simp add: rt_get_def rt_find_def slot_find_def find_idx_None_iff RoutingTable_init_def Route_init_def)
  ultimately show "route_ok (rtb_self (rt_set_self RoutingTable_init me now)) r"
    by (auto simp: m route_ok_def mk_route_def split: if_splits)
qed

text \<open>Clearing the routes that satisfy a condition which spares the self-route.\<close>

lemma rt_clear_map:
  assumes "slots_distinct rt_used rt_dst (rtb_slots t)"
  shows "rt_get (t\<lparr>rtb_slots := map (\<lambda>r. if P r then r\<lparr>rt_used := False\<rparr> else r) (rtb_slots t)\<rparr>) d =
    (case rt_get t d of None \<Rightarrow> None | Some r \<Rightarrow> if P r then None else Some r)"
  unfolding rt_get_lookup using rts.lookup_filter_clear [OF assms] by simp

lemma rt_inv_clear:
  assumes inv: "rt_inv t" and P: "\<And>r. rt_dst r = rtb_self t \<Longrightarrow> \<not> P r"
  shows "rt_inv (t\<lparr>rtb_slots := map (\<lambda>r. if P r then r\<lparr>rt_used := False\<rparr> else r) (rtb_slots t)\<rparr>)"
proof (rule rt_invI, goal_cases)
  case 1
  then show ?case using rt_invD(1) [OF inv] by simp
next
  case 2
  then show ?case using rt_invD(2) [OF inv] by (auto intro!: rts.distinct_map split: if_splits)
next
  case (3 d r)
  then show ?case
    using rt_get_ok [OF inv] by (auto simp: rt_clear_map [OF rt_invD(2) [OF inv]] split: option.splits if_splits)
next
  case 4
  obtain r where "rt_get t (rtb_self t) = Some r" using rt_invD(4) [OF inv] by auto
  with P rt_getD [OF this] show ?case by (simp add: rt_clear_map [OF rt_invD(2) [OF inv]])
qed

lemma rt_inv_prune: "rt_inv t \<Longrightarrow> rt_inv (rt_prune t now timeout)"
  unfolding rt_prune_def by (rule rt_inv_clear) auto

lemma rt_inv_drop_via: "rt_inv t \<Longrightarrow> rt_inv (drop_via t via)"
  unfolding drop_via_def by (rule rt_inv_clear) auto

lemma rt_self_ops [simp]:
  "rtb_self (rt_prune t now timeout) = rtb_self t" "rtb_self (drop_via t via) = rtb_self t"
  by (simp_all add: rt_prune_def drop_via_def)

lemma prune_map:
  "rt_inv t \<Longrightarrow> rt_get (rt_prune t now timeout) d =
    (case rt_get t d of None \<Rightarrow> None
     | Some r \<Rightarrow> if d \<noteq> rtb_self t \<and> timeout < now - rt_updated_ms r then None else Some r)"
  unfolding rt_prune_def
  by (auto simp: rt_clear_map [OF rt_invD(2)] split: option.splits dest: rt_getD)

lemma drop_via_map:
  "rt_inv t \<Longrightarrow> rt_get (drop_via t via) d =
    (case rt_get t d of None \<Rightarrow> None
     | Some r \<Rightarrow> if d \<noteq> rtb_self t \<and> rt_next_hop r = via then None else Some r)"
  unfolding drop_via_def
  by (auto simp: rt_clear_map [OF rt_invD(2)] split: option.splits dest: rt_getD)

lemmas rt_inv_ops [inv_intros] =
  rt_inv_init rt_inv_offer rt_inv_set_self rt_inv_prune rt_inv_drop_via


section \<open>Properties\<close>

text \<open>
  C12. \<^verbatim>\<open>RoutingTable::offer\<close> implements its specification on the route map, on every branch: the
  self-route is never overridden; an advertisement over the hop or cost ceiling withdraws the route
  only when it comes from the next hop in use; a new destination is learned exactly when a slot is
  free; the next hop in use refreshes its route even to a worse cost; another next hop takes over
  only when it is better by more than \<open>EPS\<close> in float arithmetic. The table invariant is kept.
\<close>

theorem offer_refines_spec:
  assumes "rt_inv t"
  shows "rt_get (snd (offer t d nh c h now)) =
           offer_spec (rtb_self t) (rt_full t) d nh c h now (rt_get t)
         \<and> rt_inv (snd (offer t d nh c h now))"
  using offer_map [OF rt_invD(2) [OF assms]] rt_inv_offer [OF assms] by blast

theorem offer_refines_spec_witness:
  "rt_get (snd (offer (rt_set_self RoutingTable_init (nid_from_u32 1) 0) (nid_from_u32 2)
      (nid_from_u32 3) 2 1 7)) =
     offer_spec (rtb_self (rt_set_self RoutingTable_init (nid_from_u32 1) 0))
       (rt_full (rt_set_self RoutingTable_init (nid_from_u32 1) 0)) (nid_from_u32 2)
       (nid_from_u32 3) 2 1 7 (rt_get (rt_set_self RoutingTable_init (nid_from_u32 1) 0))
   \<and> rt_next_hop_for (snd (offer (rt_set_self RoutingTable_init (nid_from_u32 1) 0) (nid_from_u32 2)
        (nid_from_u32 3) 2 1 7)) (nid_from_u32 2) = nid_from_u32 3"
proof
  show "rt_next_hop_for (snd (offer (rt_set_self RoutingTable_init (nid_from_u32 1) 0) (nid_from_u32 2)
        (nid_from_u32 3) 2 1 7)) (nid_from_u32 2) = nid_from_u32 3" by code_simp
qed (use offer_refines_spec [OF rt_inv_init] in blast)

text \<open>
  Teardown is exact: \<^verbatim>\<open>drop_via\<close> removes the routes to other nodes through \<open>via\<close> and no others,
  \<^verbatim>\<open>prune\<close> removes the routes to other nodes that were not refreshed within the timeout (unsigned,
  wrap-safe age) and no others, and both leave the self-route in place.
\<close>

theorem route_teardown_exact:
  assumes "rt_inv t"
  shows "rt_get (drop_via t via) d =
           (case rt_get t d of None \<Rightarrow> None
            | Some r \<Rightarrow> if d \<noteq> rtb_self t \<and> rt_next_hop r = via then None else Some r)
         \<and> rt_get (rt_prune t now timeout) d =
           (case rt_get t d of None \<Rightarrow> None
            | Some r \<Rightarrow> if d \<noteq> rtb_self t \<and> timeout < now - rt_updated_ms r then None else Some r)
         \<and> rt_get (rt_prune (drop_via t via) now timeout) (rtb_self t) = rt_get t (rtb_self t)"
  using drop_via_map [OF assms] prune_map [OF assms] prune_map [OF rt_inv_drop_via [OF assms]]
  by (simp split: option.splits)

theorem route_teardown_exact_witness:
  "rt_get (rt_prune (drop_via (rt_set_self RoutingTable_init (nid_from_u32 1) 0) (nid_from_u32 1)) 9 1)
     (rtb_self (rt_set_self RoutingTable_init (nid_from_u32 1) 0)) =
   rt_get (rt_set_self RoutingTable_init (nid_from_u32 1) 0)
     (rtb_self (rt_set_self RoutingTable_init (nid_from_u32 1) 0))"
  using route_teardown_exact [OF rt_inv_init] by blast

end
