(* ===== verification/Router.thy ===== *)
theory Router
  imports Neighbor_Table Routing_Table
begin

text \<open>
  \<^verbatim>\<open>lib/mesh/router.h/.cpp\<close>: the routing brain. A node's router holds its neighbour table, its
  routing table and the list of administratively blocked links; it consumes beacons (announces),
  ages entries out, blocks and unblocks links and answers next-hop queries.

  The inductive relation \<open>router_step\<close> has one rule per entry point the firmware calls; reachable
  routers keep \<open>router_inv\<close>, from which the safety properties follow.
\<close>

section \<open>State\<close>

definition MAX_BLOCKED :: nat where "MAX_BLOCKED = 8"

record report =
  rep_id :: node_id
  rep_q :: float32
  rep_alias :: link_addr

record route_adv =
  adv_dst :: node_id
  adv_next_hop :: node_id
  adv_cost :: float32
  adv_hops :: u8

text \<open>The fixed arrays with their counts are lists; the decoder bounds their lengths by the array
  sizes.\<close>

record announce =
  a_origin :: node_id
  a_reports :: "report list"
  a_routes :: "route_adv list"
  a_caps :: u16
  a_has_caps :: bool

definition Announce_init :: announce where
  "Announce_init = \<lparr>a_origin = nid_zero, a_reports = [], a_routes = [], a_caps = 0, a_has_caps = True\<rparr>"

record router =
  ro_my_id :: node_id
  ro_neighbors :: neighbor_table
  ro_routes :: routing_table
  ro_blocked :: "node_id list"

section \<open>Operations\<close>

definition Router_init :: "node_id \<Rightarrow> router" where
  "Router_init my_id = \<lparr>ro_my_id = my_id,
     ro_neighbors = set_alias_seed my_id NeighborTable_init,
     ro_routes = rt_set_self RoutingTable_init my_id 0,
     ro_blocked = []\<rparr>"

definition is_blocked :: "router \<Rightarrow> node_id \<Rightarrow> bool" where
  "is_blocked r i \<longleftrightarrow> i \<in> set (ro_blocked r)"

definition block :: "router \<Rightarrow> node_id \<Rightarrow> bool \<times> router" where
  "block r i =
     (if is_zero i \<or> i = ro_my_id r then (False, r)
      else if is_blocked r i then (True, r)
      else if MAX_BLOCKED \<le> length (ro_blocked r) then (False, r)
      else (True, r\<lparr>ro_blocked := ro_blocked r @ [i], ro_routes := drop_via (ro_routes r) i\<rparr>))"

text \<open>\<^verbatim>\<open>unblock\<close> overwrites the entry with the last one and shortens the list.\<close>

definition unblock :: "router \<Rightarrow> node_id \<Rightarrow> router" where
  "unblock r i = (case find_idx (\<lambda>b. b = i) (ro_blocked r) of
     None \<Rightarrow> r
   | Some k \<Rightarrow> r\<lparr>ro_blocked := butlast ((ro_blocked r)[k := last (ro_blocked r)])\<rparr>)"

text \<open>Relaxing one advertised route; the candidate hop count is a \<^verbatim>\<open>uint8_t\<close>, so it wraps.\<close>

definition relax :: "node_id \<Rightarrow> node_id \<Rightarrow> float32 \<Rightarrow> u32 \<Rightarrow> routing_table \<Rightarrow> route_adv \<Rightarrow> routing_table" where
  "relax my_id from link_cost now_ms t adv =
     (if adv_dst adv = my_id then t
      else if adv_next_hop adv = my_id then t
      else snd (offer t (adv_dst adv) from (fadd link_cost (adv_cost adv)) (adv_hops adv + 1) now_ms))"

definition learn_link :: "router \<Rightarrow> node_id \<Rightarrow> float32 \<Rightarrow> announce \<Rightarrow> u32 \<Rightarrow> neighbor_table" where
  "learn_link r from q a now_ms =
     (let nt = snd (heard (ro_neighbors r) from q now_ms);
          nt = set_caps nt from (a_caps a)
      in case find_idx (\<lambda>rp. rep_id rp = ro_my_id r) (a_reports a) of
           None \<Rightarrow> nt
         | Some k \<Rightarrow> set_their_alias (set_tx_report nt from (rep_q (a_reports a ! k))) from
                       (rep_alias (a_reports a ! k)))"

definition on_beacon :: "router \<Rightarrow> node_id \<Rightarrow> float32 \<Rightarrow> announce \<Rightarrow> u32 \<Rightarrow> router" where
  "on_beacon r from q a now_ms =
     (if from = ro_my_id r then r
      else if is_blocked r from then r
      else
        let nt = learn_link r from q a now_ms;
            rt = rt_set_self (ro_routes r) (ro_my_id r) now_ms;
            link_cost = tx_cost nt from;
            rt = foldl (relax (ro_my_id r) from link_cost now_ms) rt (a_routes a)
        in r\<lparr>ro_neighbors := nt, ro_routes := rt\<rparr>)"

definition build_announce :: "router \<Rightarrow> announce \<Rightarrow> announce" where
  "build_announce r out = out\<lparr>a_origin := ro_my_id r,
     a_reports := map (\<lambda>n. \<lparr>rep_id = n_id n, rep_q = n_q_rx n, rep_alias = n_my_alias n\<rparr>)
                    (filter (\<lambda>n. n_used n \<and> \<not> n_q_rx n < 0) (nt_slots (ro_neighbors r))),
     a_routes := map (\<lambda>x. \<lparr>adv_dst = rt_dst x, adv_next_hop = rt_next_hop x, adv_cost = rt_cost x,
                            adv_hops = rt_hops x\<rparr>)
                   (filter rt_used (rtb_slots (ro_routes r))),
     a_caps := NODE_CAPS\<rparr>"

definition tick :: "router \<Rightarrow> u32 \<Rightarrow> u32 \<Rightarrow> u32 \<Rightarrow> router" where
  "tick r now_ms neighbor_timeout_ms route_timeout_ms =
     (let (nt, removed) = nt_prune (ro_neighbors r) now_ms neighbor_timeout_ms;
          rt = foldl drop_via (ro_routes r) removed
      in r\<lparr>ro_neighbors := nt, ro_routes := rt_prune rt now_ms route_timeout_ms\<rparr>)"

definition next_hop :: "router \<Rightarrow> node_id \<Rightarrow> node_id" where
  "next_hop r dst = rt_next_hop_for (ro_routes r) dst"

definition blocked_at :: "router \<Rightarrow> nat \<Rightarrow> node_id" where
  "blocked_at r i = (if i < length (ro_blocked r) then ro_blocked r ! i else nid_zero)"

definition link_addr_for :: "router \<Rightarrow> node_id \<Rightarrow> link_addr" where
  "link_addr_for r dst = their_alias_for (ro_neighbors r) dst"

definition router_my_alias_for :: "router \<Rightarrow> node_id \<Rightarrow> link_addr" where
  "router_my_alias_for r dst = my_alias_for (ro_neighbors r) dst"

definition link_sender :: "router \<Rightarrow> link_addr \<Rightarrow> link_addr \<Rightarrow> node_id" where
  "link_sender r nh ph = neighbor_by_link (ro_neighbors r) nh ph"

definition neighbor_supports :: "router \<Rightarrow> node_id \<Rightarrow> u16 \<Rightarrow> bool" where
  "neighbor_supports r dst cap = supports (ro_neighbors r) dst cap"

section \<open>Reachable routers\<close>

text \<open>An announce off the wire carries non-negative costs (the codec's \<open>u16_to_cost\<close>).\<close>

definition ann_ok :: "announce \<Rightarrow> bool" where
  "ann_ok a \<longleftrightarrow> (\<forall>adv\<in>set (a_routes a). 0 \<le> adv_cost adv)"

inductive router_step :: "router \<Rightarrow> router \<Rightarrow> bool" where
  beacon: "ann_ok a \<Longrightarrow> router_step r (on_beacon r from q a now)"
| ticked: "router_step r (tick r now nto rto)"
| blocked: "router_step r (snd (block r i))"
| unblocked: "router_step r (unblock r i)"

inductive router_reachable :: "node_id \<Rightarrow> router \<Rightarrow> bool" for me where
  booted: "router_reachable me (Router_init me)"
| stepped: "router_reachable me r \<Longrightarrow> router_step r r' \<Longrightarrow> router_reachable me r'"

inductive_cases router_stepE: "router_step r r'"

text \<open>What holds of the routes to other nodes: the next hop is neither this node nor a blocked one,
  and the cost counts at least one link.\<close>

definition via_ok :: "node_id \<Rightarrow> node_id set \<Rightarrow> routing_table \<Rightarrow> bool" where
  "via_ok me bl t \<longleftrightarrow> (\<forall>d r. rt_get t d = Some r \<longrightarrow> d \<noteq> me \<longrightarrow>
     rt_next_hop r \<noteq> me \<and> rt_next_hop r \<notin> bl \<and> 1 \<le> rt_cost r)"

definition router_inv :: "router \<Rightarrow> bool" where
  "router_inv r \<longleftrightarrow> nt_inv (ro_neighbors r) \<and> rt_inv (ro_routes r)
     \<and> rtb_self (ro_routes r) = ro_my_id r
     \<and> length (ro_blocked r) \<le> MAX_BLOCKED \<and> distinct (ro_blocked r)
     \<and> nid_zero \<notin> set (ro_blocked r) \<and> ro_my_id r \<notin> set (ro_blocked r)
     \<and> via_ok (ro_my_id r) (set (ro_blocked r)) (ro_routes r)"

lemma router_invD:
  assumes "router_inv r"
  shows "nt_inv (ro_neighbors r)" "rt_inv (ro_routes r)" "rtb_self (ro_routes r) = ro_my_id r"
    "via_ok (ro_my_id r) (set (ro_blocked r)) (ro_routes r)" "nid_zero \<notin> set (ro_blocked r)"
    "ro_my_id r \<notin> set (ro_blocked r)" "length (ro_blocked r) \<le> MAX_BLOCKED" "distinct (ro_blocked r)"
  using assms by (auto simp: router_inv_def)

subsection \<open>Route-table operations keep the next-hop discipline\<close>

lemma via_ok_offer:
  assumes "rt_inv t" "via_ok (rtb_self t) bl t" "nh \<noteq> rtb_self t" "nh \<notin> bl" "1 \<le> c"
  shows "via_ok (rtb_self t) bl (snd (offer t d nh c h now))"
proof -
  have "rt_get (snd (offer t d nh c h now)) =
      offer_spec (rtb_self t) (rt_full t) d nh c h now (rt_get t)"
    using offer_map [OF rt_invD(2) [OF assms(1)]] by blast
  then have "rt_get t d' = Some r \<or> r = mk_route d nh c h now"
    if "rt_get (snd (offer t d nh c h now)) d' = Some r" for d' r
    using that by (auto simp: offer_spec_def split: option.splits if_splits)
  then show ?thesis using assms unfolding via_ok_def mk_route_def by fastforce
qed

lemma via_ok_set_self:
  assumes "rt_inv t" "via_ok (rtb_self t) bl t"
  shows "via_ok (rtb_self t) bl (rt_set_self t (rtb_self t) now)"
  using assms set_self_map [OF rt_invD(2) [OF assms(1)] disjI2 [OF rt_invD(4) [OF assms(1)]], of now]
  by (auto simp: via_ok_def)

lemma via_ok_drop_via:
  "rt_inv t \<Longrightarrow> via_ok (rtb_self t) bl t \<Longrightarrow> via_ok (rtb_self t) (insert v bl) (drop_via t v)"
  by (auto simp: via_ok_def drop_via_map split: option.splits if_splits)

lemma via_ok_mono: "via_ok me bl t \<Longrightarrow> bl' \<subseteq> bl \<Longrightarrow> via_ok me bl' t"
  by (auto simp: via_ok_def)

lemma via_ok_prune: "rt_inv t \<Longrightarrow> via_ok me bl t \<Longrightarrow> via_ok me bl (rt_prune t now timeout)"
  by (auto simp: via_ok_def prune_map split: option.splits if_splits)

lemma relax_keeps:
  assumes "rt_inv t" "rtb_self t = me" "via_ok me bl t" "from \<noteq> me" "from \<notin> bl"
    "1 \<le> lc" "0 \<le> adv_cost adv" "fl lc = lc"
  shows "rt_inv (relax me from lc now t adv) \<and> rtb_self (relax me from lc now t adv) = me
         \<and> via_ok me bl (relax me from lc now t adv)"
proof -
  have "1 \<le> fadd lc (adv_cost adv)"
    unfolding fadd_def using assms(6,7) by (intro fl.rnd_ge_one) simp
  with assms via_ok_offer [of t bl "from"] rt_inv_offer [of t] show ?thesis
    by (auto simp: relax_def)
qed

lemma relax_all_keeps:
  assumes "rt_inv t" "rtb_self t = me" "via_ok me bl t" "from \<noteq> me" "from \<notin> bl" "1 \<le> lc" "fl lc = lc"
    "\<forall>adv\<in>set advs. 0 \<le> adv_cost adv"
  shows "rt_inv (foldl (relax me from lc now) t advs)
       \<and> rtb_self (foldl (relax me from lc now) t advs) = me
       \<and> via_ok me bl (foldl (relax me from lc now) t advs)"
  using assms
proof (induction advs arbitrary: t)
  case (Cons adv advs)
  have "rt_inv (relax me from lc now t adv) \<and> rtb_self (relax me from lc now t adv) = me
      \<and> via_ok me bl (relax me from lc now t adv)"
    using Cons.prems by (intro relax_keeps) auto
  with Cons.IH [of "relax me from lc now t adv"] Cons.prems show ?case by simp
qed simp

lemma drop_all_keeps:
  assumes "rt_inv t" "via_ok (rtb_self t) bl t"
  shows "rt_inv (foldl drop_via t vs) \<and> rtb_self (foldl drop_via t vs) = rtb_self t
       \<and> via_ok (rtb_self t) (bl \<union> set vs) (foldl drop_via t vs)"
  using assms
proof (induction vs arbitrary: t bl)
  case (Cons v vs)
  have "via_ok (rtb_self (drop_via t v)) (insert v bl) (drop_via t v)"
    using via_ok_drop_via [OF Cons.prems] by simp
  from Cons.IH [OF rt_inv_drop_via [OF Cons.prems(1)] this] show ?case by simp
qed simp

subsection \<open>Every step keeps the invariant\<close>

lemma router_inv_init: "router_inv (Router_init me)"
proof -
  have "\<not> rt_full RoutingTable_init"
    by (simp add: rt_full_def RoutingTable_init_def MAX_ROUTES_def Route_init_def)
  moreover have "slots_distinct rt_used rt_dst (rtb_slots RoutingTable_init)"
    unfolding RoutingTable_init_def by (simp add: rts.distinct_replicate Route_init_def)
  ultimately have m: "rt_get (rt_set_self RoutingTable_init me 0) =
      (rt_get RoutingTable_init)(me \<mapsto> mk_route me me 0 0 0)" "rtb_self (rt_set_self RoutingTable_init me 0) = me"
    using set_self_map by blast+
  have "rt_get RoutingTable_init d = None" for d
    by (simp add: rt_get_def rt_find_def slot_find_def find_idx_None_iff RoutingTable_init_def Route_init_def)
  with m have "via_ok me {} (rt_set_self RoutingTable_init me 0)" by (auto simp: via_ok_def)
  with m(2) show ?thesis
    by (simp add: router_inv_def Router_init_def nt_inv_seed nt_inv_init rt_inv_init)
qed

lemma nt_inv_learn_link:
  "nt_inv (ro_neighbors r) \<Longrightarrow> nt_inv (learn_link r from q a now)"
  by (auto simp: learn_link_def Let_def split: option.splits intro!: nt_inv_ops)

lemma tx_cost_float: "fl (tx_cost t i) = tx_cost t i"
  by (simp add: tx_cost_def fdiv_def Let_def)

lemma router_inv_on_beacon:
  assumes inv: "router_inv r" and a: "ann_ok a"
  shows "router_inv (on_beacon r from q a now)"
proof (cases "from = ro_my_id r \<or> is_blocked r from")
  case True
  with inv show ?thesis by (auto simp: on_beacon_def)
next
  case False
  let ?nt = "learn_link r from q a now" and ?me = "ro_my_id r"
  have nt: "nt_inv ?nt" using inv by (intro nt_inv_learn_link) (simp add: router_inv_def)
  let ?t = "rt_set_self (ro_routes r) ?me now"
  have t: "rt_inv ?t" "rtb_self ?t = ?me" "via_ok ?me (set (ro_blocked r)) ?t"
    using router_invD(2-4) [OF inv] rt_inv_set_self [of "ro_routes r" now]
      via_ok_set_self [of "ro_routes r" "set (ro_blocked r)" now]
      set_self_map [OF rt_invD(2) disjI2 [OF rt_invD(4)], of "ro_routes r" now]
    by simp_all
  have "rt_inv (foldl (relax ?me from (tx_cost ?nt from) now) ?t (a_routes a))
      \<and> rtb_self (foldl (relax ?me from (tx_cost ?nt from) now) ?t (a_routes a)) = ?me
      \<and> via_ok ?me (set (ro_blocked r)) (foldl (relax ?me from (tx_cost ?nt from) now) ?t (a_routes a))"
    using False t a tx_cost_bounds [OF nt] tx_cost_float
    by (intro relax_all_keeps) (auto simp: is_blocked_def ann_ok_def)
  with False inv nt show ?thesis by (simp add: on_beacon_def router_inv_def Let_def)
qed

lemma router_inv_tick: "router_inv r \<Longrightarrow> router_inv (tick r now nto rto)"
proof -
  assume inv: "router_inv r"
  obtain nt removed where p: "nt_prune (ro_neighbors r) now nto = (nt, removed)"
    by (cases "nt_prune (ro_neighbors r) now nto")
  let ?t = "foldl drop_via (ro_routes r) removed"
  have t: "rt_inv ?t" "rtb_self ?t = ro_my_id r" "via_ok (ro_my_id r) (set (ro_blocked r) \<union> set removed) ?t"
    using drop_all_keeps [of "ro_routes r" "set (ro_blocked r)" removed] router_invD(2-4) [OF inv]
    by auto
  have "nt_inv nt" using nt_inv_prune [OF router_invD(1) [OF inv], of now nto] p by simp
  then show ?thesis
    using inv t rt_inv_prune [OF t(1)] via_ok_prune [OF t(1) via_ok_mono [OF t(3)]]
    by (simp add: tick_def p router_inv_def)
qed

lemma router_inv_block: "router_inv r \<Longrightarrow> router_inv (snd (block r i))"
proof -
  assume inv: "router_inv r"
  have "via_ok (ro_my_id r) (insert i (set (ro_blocked r))) (drop_via (ro_routes r) i)"
    using via_ok_drop_via [of "ro_routes r" "set (ro_blocked r)" i] router_invD(2-4) [OF inv] by simp
  with inv rt_inv_drop_via [OF router_invD(2) [OF inv]] show ?thesis
    by (auto simp: block_def router_inv_def is_blocked_def is_zero_iff)
qed

lemma unblock_set:
  assumes "distinct xs" "find_idx (\<lambda>b. b = i) xs = Some k"
  shows "set (butlast (xs[k := last xs])) = set xs - {i} \<and> distinct (butlast (xs[k := last xs]))
         \<and> length (butlast (xs[k := last xs])) = length xs - 1"
proof -
  have k: "k < length xs" "xs ! k = i" using find_idx_lt [OF assms(2)] find_idx_sat [OF assms(2)] by auto
  then obtain ys l where xs: "xs = ys @ [l]" by (cases xs rule: rev_cases) auto
  show ?thesis
  proof (cases "k < length ys")
    case True
    then have "ys ! k = i" using k xs by (simp add: nth_append)
    moreover have "butlast (xs[k := last xs]) = ys[k := l]" using True xs by (simp add: list_update_append)
    moreover have "set (ys[k := l]) = set ys - {i} \<union> {l}"
      using True assms(1) xs \<open>ys ! k = i\<close> by (simp add: set_update_distinct)
    ultimately show ?thesis
      using assms(1) xs True by (auto simp: distinct_list_update)
  next
    case False
    then have "k = length ys" "l = i" using k xs by (auto simp: nth_append split: if_splits)
    then show ?thesis using xs assms(1) by auto
  qed
qed

lemma router_inv_unblock: "router_inv r \<Longrightarrow> router_inv (unblock r i)"
proof (cases "find_idx (\<lambda>b. b = i) (ro_blocked r)")
  case None
  then show "router_inv r \<Longrightarrow> router_inv (unblock r i)" by (simp add: unblock_def)
next
  case (Some k)
  assume inv: "router_inv r"
  define bl where "bl = butlast ((ro_blocked r)[k := last (ro_blocked r)])"
  have u: "set bl = set (ro_blocked r) - {i}" "distinct bl" "length bl \<le> MAX_BLOCKED"
    using unblock_set [OF router_invD(8) [OF inv] Some] router_invD(7) [OF inv] by (simp_all add: bl_def)
  have "via_ok (ro_my_id r) (set bl) (ro_routes r)"
    using router_invD(4) [OF inv] by (rule via_ok_mono) (auto simp: u)
  moreover have "unblock r i = r\<lparr>ro_blocked := bl\<rparr>" by (simp add: unblock_def Some bl_def)
  ultimately show "router_inv (unblock r i)" using router_invD [OF inv] u by (simp add: router_inv_def)
qed

lemma router_inv_step: "router_step r r' \<Longrightarrow> router_inv r \<Longrightarrow> router_inv r'"
  by (erule router_stepE)
    (simp_all add: router_inv_on_beacon router_inv_tick router_inv_block router_inv_unblock)

lemma router_my_id_ops [simp]:
  "ro_my_id (on_beacon r i q a now) = ro_my_id r" "ro_my_id (tick r now nto rto) = ro_my_id r"
  "ro_my_id (snd (block r i)) = ro_my_id r" "ro_my_id (unblock r i) = ro_my_id r"
  by (simp_all add: on_beacon_def tick_def block_def unblock_def Let_def split: prod.splits option.splits)

lemma router_my_id_step: "router_step r r' \<Longrightarrow> ro_my_id r' = ro_my_id r"
  by (erule router_stepE) simp_all

lemma router_reachable_inv:
  assumes "router_reachable me r"
  shows "router_inv r \<and> ro_my_id r = me"
  using assms
proof (induction rule: router_reachable.induct)
  case booted
  show ?case using router_inv_init [of me] by (simp add: Router_init_def)
next
  case (stepped r r')
  then show ?case using router_inv_step router_my_id_step by metis
qed


section \<open>Learning routes\<close>

lemma relax_get:
  assumes "rt_inv t"
  shows "rt_get (relax me i lc now t adv) =
    (if adv_dst adv = me \<or> adv_next_hop adv = me then rt_get t
     else offer_spec (rtb_self t) (rt_full t) (adv_dst adv) i (fadd lc (adv_cost adv))
            (adv_hops adv + 1) now (rt_get t))"
  using offer_map [OF rt_invD(2) [OF assms]] by (auto simp: relax_def)

lemma rt_inv_relax: "rt_inv t \<Longrightarrow> rt_inv (relax me i lc now t adv)"
  by (simp add: relax_def rt_inv_offer)

lemma relax_other: "rt_inv t \<Longrightarrow> adv_dst adv \<noteq> d \<Longrightarrow> rt_get (relax me i lc now t adv) d = rt_get t d"
  by (auto simp: relax_get offer_spec_def split: option.splits)

lemma relax_all_other:
  "rt_inv t \<Longrightarrow> \<forall>adv\<in>set advs. adv_dst adv \<noteq> d \<Longrightarrow>
     rt_get (foldl (relax me i lc now) t advs) d = rt_get t d"
  by (induction advs arbitrary: t) (auto simp: rt_inv_relax relax_other)

text \<open>Refreshing the pinned self-route rewrites its slot in place.\<close>

lemma set_self_full: "rt_inv t \<Longrightarrow> rt_full (rt_set_self t (rtb_self t) now) \<longleftrightarrow> rt_full t"
proof -
  assume inv: "rt_inv t"
  then obtain i where i: "rt_find t (rtb_self t) = Some i"
    using rt_invD(4) by (auto simp: rt_get_def)
  then have "rtb_slots (rt_set_self t (rtb_self t) now) = upd_at i (\<lambda>r. r\<lparr>rt_dst := rtb_self t,
      rt_next_hop := rtb_self t, rt_cost := 0, rt_hops := 0, rt_updated_ms := now\<rparr>) (rtb_slots t)"
    by (simp add: rt_set_self_def rt_find_def Let_def)
  then show ?thesis
    unfolding rt_full_def all_set_conv_all_nth by (auto simp: nth_upd_at split: if_splits)
qed

text \<open>The routing table right before the advertised routes are relaxed.\<close>

lemma on_beacon_routes:
  assumes "i \<noteq> ro_my_id r" "\<not> is_blocked r i"
  shows "ro_routes (on_beacon r i q a now) =
    foldl (relax (ro_my_id r) i (tx_cost (learn_link r i q a now) i) now)
      (rt_set_self (ro_routes r) (ro_my_id r) now) (a_routes a)"
  using assms by (simp add: on_beacon_def Let_def)

lemma router_set_self:
  assumes "router_inv r"
  shows "rt_inv (rt_set_self (ro_routes r) (ro_my_id r) now)"
    "rtb_self (rt_set_self (ro_routes r) (ro_my_id r) now) = ro_my_id r"
    "rt_full (rt_set_self (ro_routes r) (ro_my_id r) now) \<longleftrightarrow> rt_full (ro_routes r)"
    "d \<noteq> ro_my_id r \<Longrightarrow> rt_get (rt_set_self (ro_routes r) (ro_my_id r) now) d = rt_get (ro_routes r) d"
  using router_invD(2,3) [OF assms] rt_inv_set_self [of "ro_routes r" now]
    set_self_full [of "ro_routes r" now]
    set_self_map [OF rt_invD(2) disjI2 [OF rt_invD(4)], of "ro_routes r" now]
  by (simp_all split: if_splits)

section \<open>Properties\<close>

lemma next_hop_inv:
  assumes "router_inv r" and "d \<noteq> ro_my_id r"
  shows "\<not> is_blocked r (next_hop r d)" "\<not> is_zero (ro_my_id r) \<Longrightarrow> next_hop r d \<noteq> ro_my_id r"
  using router_invD(2-5) [OF assms(1)] assms(2)
  by (auto simp: next_hop_def rt_next_hop_for_def via_ok_def is_blocked_def is_zero_iff split: option.splits)

lemma next_hop_foreign:
  assumes "router_reachable me r" and "\<not> is_zero me" and "d \<noteq> me"
  shows "next_hop r d \<noteq> me" "\<not> is_blocked r (next_hop r d)"
  using next_hop_inv router_reachable_inv [OF assms(1)] assms(2,3) by auto

lemma foreign_route:
  assumes "router_inv r" and "d \<noteq> ro_my_id r" and "rt_get (ro_routes r) d = Some x"
  shows "1 \<le> rt_cost x" "rt_cost x < COST_INF" "rt_hops x \<le> MAX_HOPS"
  using router_invD(2-4) [OF assms(1)] rt_get_ok [OF _ assms(3)] rt_getD [OF assms(3)] assms(2,3)
  by (auto simp: via_ok_def route_ok_def)

text \<open>
  C5. In every reachable state of a router (any sequence of beacons, ticks, blocks and unblocks) the
  next hop for a foreign destination is never the node itself and never a blocked link, and the next
  hop for the node's own id is itself. A foreign destination without a stored route has the zero id as
  next hop; a stored route has its next hop returned, costs at least one link and less than infinity,
  and is at most sixteen hops long.
\<close>

theorem router_next_hop_safe:
  assumes "router_reachable me r" and "\<not> is_zero me"
  shows "next_hop r me = me
    \<and> (d \<noteq> me \<longrightarrow> next_hop r d \<noteq> me \<and> \<not> is_blocked r (next_hop r d)
        \<and> (rt_get (ro_routes r) d = None \<longrightarrow> next_hop r d = nid_zero)
        \<and> (\<forall>x. rt_get (ro_routes r) d = Some x \<longrightarrow>
             next_hop r d = rt_next_hop x \<and> 1 \<le> rt_cost x \<and> rt_cost x < COST_INF \<and> rt_hops x \<le> MAX_HOPS))"
proof -
  have inv: "router_inv r" and me: "ro_my_id r = me" using router_reachable_inv [OF assms(1)] by auto
  note rt = router_invD(2-5) [OF inv, unfolded me]
  obtain x where x: "rt_get (ro_routes r) me = Some x" using rt(1,2) rt_invD(4) by force
  have "rt_next_hop x = me"
    using rt_get_ok [OF rt(1) x] rt_getD [OF x] rt(2) by (simp add: route_ok_def)
  with x have "next_hop r me = me" by (simp add: next_hop_def rt_next_hop_for_def)
  then show ?thesis using next_hop_foreign [OF assms] foreign_route [OF inv, unfolded me]
    by (auto simp: next_hop_def rt_next_hop_for_def)
qed

lemma Router_init_reachable: "router_reachable me (Router_init me)"
  by (rule router_reachable.booted)

definition beacon_example :: announce where
  "beacon_example = Announce_init\<lparr>a_origin := nid_from_u32 2,
     a_routes := [\<lparr>adv_dst = nid_from_u32 2, adv_next_hop = nid_from_u32 2, adv_cost = 0, adv_hops = 0\<rparr>]\<rparr>"

lemma beacon_example_reachable:
  "router_reachable (nid_from_u32 1)
     (on_beacon (Router_init (nid_from_u32 1)) (nid_from_u32 2) 1 beacon_example 7)"
  by (rule router_reachable.stepped [OF Router_init_reachable], rule router_step.beacon) code_simp

theorem router_next_hop_safe_witness:
  "next_hop (on_beacon (Router_init (nid_from_u32 1)) (nid_from_u32 2) 1 beacon_example 7) (nid_from_u32 2)
     = nid_from_u32 2
   \<and> next_hop (on_beacon (Router_init (nid_from_u32 1)) (nid_from_u32 2) 1 beacon_example 7) (nid_from_u32 1)
     = nid_from_u32 1
   \<and> next_hop (on_beacon (Router_init (nid_from_u32 1)) (nid_from_u32 2) 1 beacon_example 7) (nid_from_u32 3)
     = nid_zero"
proof -
  have "\<not> is_zero (nid_from_u32 1)" by code_simp
  note safe = router_next_hop_safe [OF beacon_example_reachable this, of "nid_from_u32 3"]
  moreover have "nid_from_u32 3 \<noteq> nid_from_u32 1"
    "rt_get (ro_routes (on_beacon (Router_init (nid_from_u32 1)) (nid_from_u32 2) 1 beacon_example 7)) (nid_from_u32 3) = None"
    by code_simp+
  moreover have "next_hop (on_beacon (Router_init (nid_from_u32 1)) (nid_from_u32 2) 1 beacon_example 7)
      (nid_from_u32 2) = nid_from_u32 2" by code_simp
  ultimately show ?thesis by simp
qed

text \<open>
  C23. Blocking a link takes effect at once and lasts: when \<^verbatim>\<open>block\<close> accepts an id, no destination is
  routed through it any more, its beacons change nothing, and unblocking it lifts the block. \<^verbatim>\<open>block\<close>
  refuses only the zero id, the node's own id and a ninth distinct link.
\<close>

theorem block_isolates_link:
  assumes "router_reachable me r"
  shows "(fst (block r i) \<longleftrightarrow> \<not> is_zero i \<and> i \<noteq> me \<and> (is_blocked r i \<or> length (ro_blocked r) < MAX_BLOCKED))
       \<and> (fst (block r i) \<longrightarrow>
            is_blocked (snd (block r i)) i
            \<and> (\<forall>d. d \<noteq> me \<longrightarrow> next_hop (snd (block r i)) d \<noteq> i)
            \<and> on_beacon (snd (block r i)) i q a now = snd (block r i)
            \<and> \<not> is_blocked (unblock (snd (block r i)) i) i)"
proof -
  have inv: "router_inv r" and me: "ro_my_id r = me" using router_reachable_inv [OF assms] by auto
  have inv': "router_inv (snd (block r i))" using router_inv_block [OF inv] .
  have "is_blocked (snd (block r i)) i" if "fst (block r i)"
    using that by (auto simp: block_def is_blocked_def split: if_splits)
  moreover have "next_hop (snd (block r i)) d \<noteq> i" if "is_blocked (snd (block r i)) i" "d \<noteq> me" for d
    using router_invD(4,5) [OF inv'] that me
    by (auto simp: next_hop_def rt_next_hop_for_def via_ok_def is_blocked_def split: option.splits)
  moreover have "on_beacon (snd (block r i)) i q a now = snd (block r i)" if "is_blocked (snd (block r i)) i"
    using that by (simp add: on_beacon_def)
  moreover have "\<not> is_blocked (unblock (snd (block r i)) i) i"
    using unblock_set [OF router_invD(8) [OF inv'], of i]
    by (auto simp: unblock_def is_blocked_def find_idx_None_iff split: option.splits)
  moreover have "fst (block r i) \<longleftrightarrow> \<not> is_zero i \<and> i \<noteq> me \<and> (is_blocked r i \<or> length (ro_blocked r) < MAX_BLOCKED)"
    by (auto simp: block_def me)
  ultimately show ?thesis by blast
qed

theorem block_isolates_link_witness:
  "fst (block (Router_init (nid_from_u32 1)) (nid_from_u32 2))
   \<and> is_blocked (snd (block (Router_init (nid_from_u32 1)) (nid_from_u32 2))) (nid_from_u32 2)
   \<and> on_beacon (snd (block (Router_init (nid_from_u32 1)) (nid_from_u32 2))) (nid_from_u32 2) 1
        Announce_init 5 = snd (block (Router_init (nid_from_u32 1)) (nid_from_u32 2))"
proof -
  have "fst (block (Router_init (nid_from_u32 1)) (nid_from_u32 2))" by code_simp
  then show ?thesis using block_isolates_link [OF Router_init_reachable] by blast
qed

text \<open>
  Hearing an unblocked neighbour gives a route to it. When a beacon advertises the sender's own
  zero-cost route first (as every announce this firmware builds does: the self-route sits in the
  first slot) and there is room in the table, afterwards a route to the sender exists. It is either
  the direct one-hop route whose cost is the directional link cost \<open>1 / q_tx\<close>, or an earlier route
  that the direct one does not beat by more than \<open>EPS\<close>.
\<close>

theorem beacon_gives_route:
  assumes "router_reachable me r" and "i \<noteq> me" and "\<not> is_blocked r i"
    and "a_routes a = \<lparr>adv_dst = i, adv_next_hop = i, adv_cost = 0, adv_hops = 0\<rparr> # rest"
    and "\<forall>adv\<in>set rest. adv_dst adv \<noteq> i"
    and "\<not> rt_full (ro_routes r) \<or> rt_get (ro_routes r) i \<noteq> None"
  shows "\<exists>x. rt_get (ro_routes (on_beacon r i q a now)) i = Some x
     \<and> (x = mk_route i i (tx_cost (learn_link r i q a now) i) 1 now
        \<or> rt_get (ro_routes r) i = Some x \<and> rt_next_hop x \<noteq> i
          \<and> \<not> tx_cost (learn_link r i q a now) i < fsub (rt_cost x) ROUTE_EPS)"
proof -
  have inv: "router_inv r" and me: "ro_my_id r = me" using router_reachable_inv [OF assms(1)] by auto
  let ?lc = "tx_cost (learn_link r i q a now) i"
  let ?t = "rt_set_self (ro_routes r) me now"
  let ?adv = "\<lparr>adv_dst = i, adv_next_hop = i, adv_cost = 0, adv_hops = 0\<rparr>"
  note t = router_set_self [OF inv, where now = now, unfolded me]
  have "?lc \<le> 50" using tx_cost_bounds [OF nt_inv_learn_link [OF router_invD(1) [OF inv]]]
    by (simp add: max_tx_cost)
  then have lc: "\<not> COST_INF \<le> fadd ?lc 0" "fadd ?lc 0 = ?lc"
    by (simp_all add: COST_INF_def fadd_def tx_cost_float)
  have "rt_get (ro_routes (on_beacon r i q a now)) i = rt_get (relax me i ?lc now ?t ?adv) i"
    using assms(2-5) t(1) by (simp add: on_beacon_routes me relax_all_other rt_inv_relax)
  also have "\<dots> = offer_spec me (rt_full ?t) i i ?lc 1 now (rt_get ?t) i"
    using assms(2) t lc by (simp add: relax_get)
  finally have get: "rt_get (ro_routes (on_beacon r i q a now)) i =
      offer_spec me (rt_full (ro_routes r)) i i ?lc 1 now (rt_get ?t) i"
    using t(3) by simp
  show ?thesis
    using assms(2,6) lc t(4) [of i] unfolding get
    by (auto simp: offer_spec_def MAX_HOPS_def split: option.splits)
qed

theorem beacon_gives_route_witness:
  "\<exists>x. rt_get (ro_routes (on_beacon (Router_init (nid_from_u32 1)) (nid_from_u32 2) 1 beacon_example 7))
         (nid_from_u32 2) = Some x"
proof -
  have "nid_from_u32 2 \<noteq> nid_from_u32 1" by code_simp
  moreover have "\<not> is_blocked (Router_init (nid_from_u32 1)) (nid_from_u32 2)"
    by (simp add: is_blocked_def Router_init_def)
  moreover have "\<not> rt_full (ro_routes (Router_init (nid_from_u32 1)))" by code_simp
  ultimately show ?thesis
    using beacon_gives_route [OF Router_init_reachable, of "nid_from_u32 2" "nid_from_u32 1" beacon_example "[]" 1 7]
    by (simp add: beacon_example_def) blast
qed

text \<open>
  The hop ceiling can be bypassed by wrap-around: the candidate hop count \<^verbatim>\<open>(uint8_t)(adv.hops + 1)\<close>
  of an advertisement with hop count 255 is 0, so \<^verbatim>\<open>offer\<close> stores an unknown destination as a zero-hop
  route, while the same advertisement with any hop count from 16 to 254 is refused.
\<close>

theorem hop_ceiling_wraps:
  assumes "rt_inv t" and "rtb_self t = me" and "rt_get t (adv_dst adv) = None" and "\<not> rt_full t"
    and "adv_dst adv \<noteq> me" and "adv_next_hop adv \<noteq> me"
    and "fadd lc (adv_cost adv) < COST_INF"
  shows "(adv_hops adv = 255 \<longrightarrow>
            rt_get (relax me i lc now t adv) (adv_dst adv) =
              Some (mk_route (adv_dst adv) i (fadd lc (adv_cost adv)) 0 now))
       \<and> (16 \<le> adv_hops adv \<and> adv_hops adv < 255 \<longrightarrow>
            rt_get (relax me i lc now t adv) (adv_dst adv) = None)"
proof -
  have wrap: "adv_hops adv + 1 = 0" if "adv_hops adv = 255" unfolding that by simp
  have over: "MAX_HOPS < adv_hops adv + 1" if "16 \<le> adv_hops adv" "adv_hops adv < 255"
    using that by (simp add: MAX_HOPS_def word_less_nat_alt word_le_nat_alt unat_plus_if')
  have get: "rt_get (relax me i lc now t adv) (adv_dst adv) =
      (if MAX_HOPS < adv_hops adv + 1 then None
       else Some (mk_route (adv_dst adv) i (fadd lc (adv_cost adv)) (adv_hops adv + 1) now))"
    using assms by (simp add: relax_get offer_spec_def)
  show ?thesis
  proof (intro conjI impI)
    assume "adv_hops adv = 255"
    then show "rt_get (relax me i lc now t adv) (adv_dst adv) =
        Some (mk_route (adv_dst adv) i (fadd lc (adv_cost adv)) 0 now)"
      unfolding get wrap [OF \<open>adv_hops adv = 255\<close>] by (simp add: MAX_HOPS_def)
  qed (use over get in simp)
qed

theorem hop_ceiling_wraps_witness:
  "rt_get (relax (nid_from_u32 1) (nid_from_u32 2) 2 7 (rt_set_self RoutingTable_init (nid_from_u32 1) 0)
      \<lparr>adv_dst = nid_from_u32 9, adv_next_hop = nid_from_u32 8, adv_cost = 3, adv_hops = 255\<rparr>)
      (nid_from_u32 9) =
   Some (mk_route (nid_from_u32 9) (nid_from_u32 2) (fadd 2 3) 0 7)"
proof -
  let ?t = "rt_set_self RoutingTable_init (nid_from_u32 1) 0"
  let ?adv = "\<lparr>adv_dst = nid_from_u32 9, adv_next_hop = nid_from_u32 8, adv_cost = 3, adv_hops = 255\<rparr>"
  have "rtb_self ?t = nid_from_u32 1" by code_simp
  moreover have "rt_get ?t (adv_dst ?adv) = None" by code_simp
  moreover have "\<not> rt_full ?t" by code_simp
  moreover have "adv_dst ?adv \<noteq> nid_from_u32 1" "adv_next_hop ?adv \<noteq> nid_from_u32 1" by code_simp+
  moreover have "fadd 2 (adv_cost ?adv) < COST_INF" by code_simp
  ultimately show ?thesis
    using hop_ceiling_wraps [OF rt_inv_init [of "nid_from_u32 1" 0], of "nid_from_u32 1" ?adv 2 "nid_from_u32 2" 7]
    by simp
qed

end
