(* ===== verification/Wire_Codec.thy ===== *)
theory Wire_Codec
  imports Prelude
begin

text \<open>
  The contract shared by the wire formats. A message is encoded to bytes; the decoder reads untrusted
  radio input. It returns \<open>None\<close> when it reads outside its buffer, \<open>Some None\<close> when it rejects the
  input and \<open>Some (Some m)\<close> when it accepts it as \<open>m\<close>. \<open>norm\<close> is what survives the wire (the
  identity except where the encoding quantises), \<open>ok\<close> are the messages the encoder accepts.

  \<open>wire_codec\<close> is the contract of a format whose message fills the buffer, \<open>wire_codec_tail\<close> of one
  whose decoder ignores what follows the message.
\<close>

locale wire_codec =
  fixes enc :: "'m \<Rightarrow> bytes"
    and dec :: "bytes \<Rightarrow> 'm option option"
    and norm :: "'m \<Rightarrow> 'm"
    and ok :: "'m \<Rightarrow> bool"
  assumes dec_safe: "dec bs \<noteq> None"
    and dec_enc: "ok m \<Longrightarrow> dec (enc m) = Some (Some (norm m))"
begin

lemma dec_cases: "dec bs = Some None \<or> (\<exists>m. dec bs = Some (Some m))"
  using dec_safe [of bs] by (cases "dec bs") auto

text \<open>Two messages with the same encoding carry the same content.\<close>

lemma enc_inj: "ok m \<Longrightarrow> ok m' \<Longrightarrow> enc m = enc m' \<Longrightarrow> norm m = norm m'"
  using dec_enc [of m] dec_enc [of m'] by simp

lemma dec_enc_iff: "ok m \<Longrightarrow> dec (enc m) = Some (Some m') \<longleftrightarrow> m' = norm m"
  by (auto simp: dec_enc)

end

locale wire_codec_tail =
  fixes enc :: "'m \<Rightarrow> bytes"
    and dec :: "bytes \<Rightarrow> 'm option option"
    and norm :: "'m \<Rightarrow> 'm"
    and ok :: "'m \<Rightarrow> bool"
  assumes dec_total: "dec bs \<noteq> None"
    and dec_enc_tail: "ok m \<Longrightarrow> dec (enc m @ tail) = Some (Some (norm m))"
begin

text \<open>Encodings are self-delimiting: no encoding is a proper prefix of another message's.\<close>

lemma prefix_free: "ok m \<Longrightarrow> ok m' \<Longrightarrow> enc m @ t = enc m' @ t' \<Longrightarrow> norm m = norm m'"
  using dec_enc_tail [of m t] dec_enc_tail [of m' t'] by simp

end

sublocale wire_codec_tail \<subseteq> exact: wire_codec
proof unfold_locales
  show "dec bs \<noteq> None" for bs by (rule dec_total)
  show "dec (enc m) = Some (Some (norm m))" if "ok m" for m using dec_enc_tail [OF that, of "[]"] by simp
qed

end
