(* ===== verification/Announce_Codec.thy ===== *)
theory Announce_Codec
  imports Router Wire_Codec
begin

text \<open>
  \<^verbatim>\<open>lib/mesh/announce_codec.h/.cpp\<close>: the wire format of an announce (link qualities as one byte, route
  costs as sixteen bits, optional capability field) and the signed identity tail. The serializer
  writes as many entries as the buffer holds; the parser reads untrusted radio input.

  A parser returns \<open>None\<close> when it reads outside its buffer, \<open>Some None\<close> when it rejects the message
  and \<open>Some (Some m)\<close> when it accepts it.
\<close>

section \<open>Quantisation\<close>

definition q_to_byte :: "float32 \<Rightarrow> u8" where
  "q_to_byte q =
     (let q = (if q < 0 then 0 else q); q = (if 1 < q then 1 else q)
      in word_of_int \<lfloor>fadd (fmul q 255) (1 / 2)\<rfloor>)"

definition byte_to_q :: "u8 \<Rightarrow> float32" where
  "byte_to_q b = fdiv (of_int (uint b)) 255"

definition cost_to_u16 :: "float32 \<Rightarrow> u16" where
  "cost_to_u16 cost =
     (let cost = (if cost < 0 then 0 else cost);
          v = fadd (fmul cost 16) (1 / 2);
          v = (if 65535 < v then 65535 else v)
      in word_of_int \<lfloor>v\<rfloor>)"

definition u16_to_cost :: "u16 \<Rightarrow> float32" where
  "u16_to_cost v = fdiv (of_int (uint v)) 16"

section \<open>Serializer\<close>

definition ANNOUNCE_REPORT_BYTES :: nat where "ANNOUNCE_REPORT_BYTES = 18"
definition ANNOUNCE_ROUTE_BYTES :: nat where "ANNOUNCE_ROUTE_BYTES = 35"
definition ANNOUNCE_HDR_BYTES :: nat where "ANNOUNCE_HDR_BYTES = 2"
definition ANNOUNCE_CAPS_BYTES :: nat where "ANNOUNCE_CAPS_BYTES = 2"
definition ANNOUNCE_HAS_CAPS :: u8 where "ANNOUNCE_HAS_CAPS = 0x80"

lemmas announce_sizes =
  ANNOUNCE_REPORT_BYTES_def ANNOUNCE_ROUTE_BYTES_def ANNOUNCE_HDR_BYTES_def ANNOUNCE_CAPS_BYTES_def

definition put_report :: "report \<Rightarrow> bytes" where
  "put_report r = nid_write (rep_id r) @ [q_to_byte (rep_q r), rep_alias r]"

definition put_route :: "route_adv \<Rightarrow> bytes" where
  "put_route r = nid_write (adv_dst r) @ nid_write (adv_next_hop r) @ put_u16 (cost_to_u16 (adv_cost r))
     @ [adv_hops r]"

text \<open>The entries a loop writes from offset \<open>off\<close> until the next one of \<open>sz\<close> bytes would pass \<open>cap\<close>.\<close>

fun fitting :: "nat \<Rightarrow> nat \<Rightarrow> nat \<Rightarrow> 'a list \<Rightarrow> 'a list" where
  "fitting sz cap off [] = []"
| "fitting sz cap off (x # xs) =
     (if cap < off + sz then [] else x # fitting sz cap (off + sz) xs)"

definition announce_hdr_len :: "bool \<Rightarrow> nat" where
  "announce_hdr_len has_caps = ANNOUNCE_HDR_BYTES + (if has_caps then ANNOUNCE_CAPS_BYTES else 0)"

definition announce_serialize :: "announce \<Rightarrow> nat \<Rightarrow> bytes option" where
  "announce_serialize a cap =
     (let hdr = announce_hdr_len (a_has_caps a) in
      if cap < hdr then None
      else
        let reps = fitting ANNOUNCE_REPORT_BYTES cap hdr (a_reports a);
            off = hdr + length reps * ANNOUNCE_REPORT_BYTES;
            rts = fitting ANNOUNCE_ROUTE_BYTES cap off (a_routes a)
        in Some ([of_nat (length reps) OR (if a_has_caps a then ANNOUNCE_HAS_CAPS else 0),
                  of_nat (length rts)]
                 @ (if a_has_caps a then put_u16 (a_caps a) else [])
                 @ concat (map put_report reps) @ concat (map put_route rts)))"

section \<open>Parser\<close>

fun get_reports :: "nat \<Rightarrow> bytes \<Rightarrow> nat \<Rightarrow> report list option" where
  "get_reports 0 bs off = Some []"
| "get_reports (Suc n) bs off = do {
     i \<leftarrow> rd_nid bs off;
     q \<leftarrow> rd8 bs (off + 16);
     al \<leftarrow> rd8 bs (off + 17);
     rs \<leftarrow> get_reports n bs (off + 18);
     Some (\<lparr>rep_id = i, rep_q = byte_to_q q, rep_alias = al\<rparr> # rs) }"

fun get_routes :: "nat \<Rightarrow> bytes \<Rightarrow> nat \<Rightarrow> route_adv list option" where
  "get_routes 0 bs off = Some []"
| "get_routes (Suc n) bs off = do {
     d \<leftarrow> rd_nid bs off;
     nh \<leftarrow> rd_nid bs (off + 16);
     c \<leftarrow> rd16 bs (off + 32);
     h \<leftarrow> rd8 bs (off + 34);
     rs \<leftarrow> get_routes n bs (off + 35);
     Some (\<lparr>adv_dst = d, adv_next_hop = nh, adv_cost = u16_to_cost c, adv_hops = h\<rparr> # rs) }"

definition announce_deserialize :: "bytes \<Rightarrow> announce option option" where
  "announce_deserialize bs =
     (if length bs < ANNOUNCE_HDR_BYTES then Some None
      else do {
        rep_byte \<leftarrow> rd8 bs 0;
        n_rt \<leftarrow> rd8 bs 1;
        let has_caps = (rep_byte AND ANNOUNCE_HAS_CAPS \<noteq> 0);
        let n_reports = unat (rep_byte AND NOT ANNOUNCE_HAS_CAPS);
        let n_routes = unat n_rt;
        if MAX_NEIGHBORS < n_reports \<or> MAX_ROUTES < n_routes then Some None
        else do {
          let hdr = announce_hdr_len has_caps;
          if length bs < hdr + n_reports * ANNOUNCE_REPORT_BYTES + n_routes * ANNOUNCE_ROUTE_BYTES
          then Some None
          else do {
            caps \<leftarrow> (if has_caps then rd16 bs 2 else Some 0);
            reps \<leftarrow> get_reports n_reports bs hdr;
            rts \<leftarrow> get_routes n_routes bs (hdr + n_reports * ANNOUNCE_REPORT_BYTES);
            Some (Some (Announce_init\<lparr>a_has_caps := has_caps, a_caps := caps,
                          a_reports := reps, a_routes := rts\<rparr>)) } } })"

definition announce_body_len :: "announce \<Rightarrow> nat" where
  "announce_body_len a = announce_hdr_len (a_has_caps a)
     + length (a_reports a) * ANNOUNCE_REPORT_BYTES + length (a_routes a) * ANNOUNCE_ROUTE_BYTES"

section \<open>Signed identity tail\<close>

text \<open>The Ed25519 primitives of the vendored Monocypher library are parameters: \<open>ed_sign sk m\<close> is the
  64-byte signature, \<open>ed_check sig pk m\<close> the verification.\<close>

definition ANN_DOMAIN :: bytes where
  "ANN_DOMAIN = [0x41, 0x47, 0x4E, 0x2D, 0x41, 0x4E, 0x4E, 0x2D, 0x31]"

definition ANN_VIEW_BODY_MAX :: nat where "ANN_VIEW_BODY_MAX = 256"

definition ann_view :: "bytes \<Rightarrow> bytes \<Rightarrow> bytes" where
  "ann_view pubkey body = ANN_DOMAIN @ pubkey @ body"

definition announce_sign :: "(bytes \<Rightarrow> bytes \<Rightarrow> bytes) \<Rightarrow> bytes \<Rightarrow> bytes \<Rightarrow> bytes \<Rightarrow> bytes option" where
  "announce_sign ed_sign body pubkey seckey =
     (if ANN_VIEW_BODY_MAX < length body then None
      else Some (pubkey @ ed_sign seckey (ann_view pubkey body)))"

definition announce_verify :: "(bytes \<Rightarrow> bytes \<Rightarrow> bytes \<Rightarrow> bool) \<Rightarrow> bytes \<Rightarrow> bytes \<Rightarrow> bytes option" where
  "announce_verify ed_check body tail =
     (if ANN_VIEW_BODY_MAX < length body then None
      else
        let pubkey = take 32 tail; sig = take 64 (drop 32 tail)
        in if \<not> ed_check sig pubkey (ann_view pubkey body) then None else Some pubkey)"

section \<open>Quantisation lemmas\<close>

lemma uint_u8_lt: "uint (b :: u8) < 256"
  using uint_lt2p [of b] by simp

lemma uint_u16_lt: "uint (v :: u16) < 65536"
  using uint_lt2p [of v] by simp

text \<open>A cost on the wire is a multiple of \<open>1 / 16\<close> below \<open>2 ^ 12\<close>, exact in binary32 at every step.\<close>

lemma u16_to_cost_exact: "u16_to_cost v = of_int (uint v) / 16"
proof -
  have "fl (of_int (uint v) * 2 powi (- 4)) = of_int (uint v) * 2 powi (- 4)"
    using uint_u16_lt [of v] by (intro fl_exact) auto
  then show ?thesis by (simp add: u16_to_cost_def fdiv_def)
qed

lemma u16_to_cost_nonneg: "0 \<le> u16_to_cost v"
  by (simp add: u16_to_cost_exact del: of_int_uint)

lemma cost_u16_roundtrip: "cost_to_u16 (u16_to_cost v) = v"
proof -
  let ?x = "uint v"
  have x: "0 \<le> ?x" "?x < 65536" using uint_u16_lt [of v] by auto
  have m: "fmul (u16_to_cost v) 16 = of_int ?x"
    using x by (simp add: u16_to_cost_exact fmul_def fl_of_int del: of_int_uint)
  have "fl (of_int (2 * ?x + 1) * 2 powi (- 1)) = of_int (2 * ?x + 1) * 2 powi (- 1)"
    using x by (intro fl_exact) auto
  then have a: "fadd (of_int ?x) (1 / 2) = of_int ?x + 1 / 2"
    by (simp add: fadd_def field_simps)
  have f: "\<lfloor>of_int ?x + 1 / 2 :: rat\<rfloor> = ?x" by linarith
  show ?thesis
  proof (cases "?x = 65535")
    case True
    then have "fadd (fmul (u16_to_cost v) 16) (1 / 2) = 65535 + 1 / 2"
      unfolding m a by (simp add: True del: of_int_uint)
    then have "cost_to_u16 (u16_to_cost v) = word_of_int 65535"
      using u16_to_cost_nonneg [of v] by (simp add: cost_to_u16_def Let_def not_less [symmetric])
    then show ?thesis using True by (metis word_of_int_uint)
  next
    case False
    with x have "\<not> (65535 :: rat) < of_int ?x + 1 / 2" by linarith
    then show ?thesis
      using u16_to_cost_nonneg [of v] by (simp add: cost_to_u16_def m a f Let_def word_of_int_uint del: of_int_uint)
  qed
qed

text \<open>The roundings on the way from a byte to a quality and back stay far below one half.\<close>

lemma fl_close: "2 powi (- 126) \<le> x \<Longrightarrow> x \<le> 258 \<Longrightarrow> \<bar>fl x - x\<bar> \<le> 1 / 1000"
proof -
  assume x: "2 powi (- 126) \<le> x" "x \<le> 258"
  then have "0 < x" using powi_pos [of "- 126"] by linarith
  with fl_error_rel [of x] x have "\<bar>fl x - x\<bar> \<le> x / 2 ^ 24" by simp
  also have "\<dots> \<le> 1 / 1000" using x by simp
  finally show ?thesis .
qed

lemma small_le: "1 / 1024 \<le> x \<Longrightarrow> (2 :: rat) powi (- 126) \<le> x"
proof -
  have "(2 :: rat) powi (- 126) \<le> 2 powi (- 10)" by (rule powi_mono) simp
  also have "\<dots> = 1 / 1024" by simp
  finally show "1 / 1024 \<le> x \<Longrightarrow> (2 :: rat) powi (- 126) \<le> x" by simp
qed

lemma byte_to_q_range: "0 \<le> byte_to_q b" "byte_to_q b \<le> 1"
proof -
  show "0 \<le> byte_to_q b" unfolding byte_to_q_def fdiv_def by (intro fl.rnd_nonneg) (simp del: of_int_uint)
  have "(of_int (uint b) :: rat) \<le> 255" using uint_u8_lt [of b] by linarith
  then show "byte_to_q b \<le> 1" unfolding byte_to_q_def fdiv_def by (intro fl.rnd_le_one) simp
qed

lemma q_byte_roundtrip: "q_to_byte (byte_to_q b) = b"
proof (cases "uint b = 0")
  case True
  then have "b = 0" by (simp add: unsigned_eq_0_iff)
  then show ?thesis by (simp add: byte_to_q_def fdiv_def q_to_byte_def fmul_def fadd_def) code_simp
next
  case False
  define x :: rat where "x = of_int (uint b)"
  have "1 \<le> uint b" "uint b \<le> 255" using False uint_u8_lt [of b] uint_ge_0 [of b] by linarith+
  then have x: "1 \<le> x" "x \<le> 255" unfolding x_def by linarith+
  define y z w where "y = fl (x / 255)" and "z = fl (y * 255)" and "w = fl (z + 1 / 2)"
  have "\<bar>y - x / 255\<bar> \<le> (x / 255) / 2 ^ 24"
    unfolding y_def using fl_error_rel [of "x / 255"] small_le [of "x / 255"] x by simp
  then have "\<bar>y - x / 255\<bar> * 255 \<le> (x / 255) / 2 ^ 24 * 255" by (rule mult_right_mono) simp
  then have y: "\<bar>y * 255 - x\<bar> \<le> 1 / 1000"
    using x by (simp add: abs_if algebra_simps split: if_splits)
  then have "\<bar>z - y * 255\<bar> \<le> 1 / 1000"
    unfolding z_def using x by (intro fl_close small_le; linarith)
  with y have z: "\<bar>z - x\<bar> \<le> 1 / 500" by linarith
  then have "\<bar>w - (z + 1 / 2)\<bar> \<le> 1 / 1000"
    unfolding w_def using x by (intro fl_close small_le; linarith)
  with z have "\<bar>w - (x + 1 / 2)\<bar> \<le> 3 / 1000" by linarith
  then have "\<lfloor>w\<rfloor> = uint b" unfolding x_def floor_eq_iff by linarith
  moreover have "byte_to_q b = y" by (simp add: byte_to_q_def fdiv_def y_def x_def)
  ultimately show ?thesis
    using byte_to_q_range [of b] by (simp add: q_to_byte_def fmul_def fadd_def w_def z_def Let_def)
qed

text \<open>
  Quantisation does not drift: re-encoding a decoded link quality or route cost gives the same
  wire value, in the binary32 arithmetic of the code, for all 256 quality bytes and all 65536 costs.
\<close>

theorem quantisation_stable: "q_to_byte (byte_to_q b) = b \<and> cost_to_u16 (u16_to_cost v) = v"
  by (simp add: q_byte_roundtrip cost_u16_roundtrip)

section \<open>What survives the wire\<close>

definition quant_report :: "report \<Rightarrow> report" where
  "quant_report r = r\<lparr>rep_q := byte_to_q (q_to_byte (rep_q r))\<rparr>"

definition quant_route :: "route_adv \<Rightarrow> route_adv" where
  "quant_route r = r\<lparr>adv_cost := u16_to_cost (cost_to_u16 (adv_cost r))\<rparr>"

definition fit_reports :: "announce \<Rightarrow> nat \<Rightarrow> report list" where
  "fit_reports a cap = fitting ANNOUNCE_REPORT_BYTES cap (announce_hdr_len (a_has_caps a)) (a_reports a)"

definition fit_routes :: "announce \<Rightarrow> nat \<Rightarrow> route_adv list" where
  "fit_routes a cap = fitting ANNOUNCE_ROUTE_BYTES cap
     (announce_hdr_len (a_has_caps a) + length (fit_reports a cap) * ANNOUNCE_REPORT_BYTES) (a_routes a)"

text \<open>The announce a receiver gets from a buffer of \<open>cap\<close> bytes: the entries that fit, quantised; the
  origin is in the network header and not part of the body.\<close>

definition announce_view :: "announce \<Rightarrow> nat \<Rightarrow> announce" where
  "announce_view a cap =
     \<lparr>a_origin = nid_zero, a_reports = map quant_report (fit_reports a cap),
      a_routes = map quant_route (fit_routes a cap),
      a_caps = (if a_has_caps a then a_caps a else 0), a_has_caps = a_has_caps a\<rparr>"

definition announce_sized :: "announce \<Rightarrow> bool" where
  "announce_sized a \<longleftrightarrow> length (a_reports a) \<le> MAX_NEIGHBORS \<and> length (a_routes a) \<le> MAX_ROUTES"

section \<open>Serializer lemmas\<close>

lemma quant_report_fields:
  "quant_report r = \<lparr>rep_id = rep_id r, rep_q = byte_to_q (q_to_byte (rep_q r)), rep_alias = rep_alias r\<rparr>"
  by (cases r) (simp add: quant_report_def)

lemma quant_route_fields:
  "quant_route r = \<lparr>adv_dst = adv_dst r, adv_next_hop = adv_next_hop r,
     adv_cost = u16_to_cost (cost_to_u16 (adv_cost r)), adv_hops = adv_hops r\<rparr>"
  by (cases r) (simp add: quant_route_def)

lemma fitting_prefix: "\<exists>n. fitting sz cap off xs = take n xs"
proof (induction xs arbitrary: off)
  case Nil
  then show ?case by simp
next
  case (Cons x xs)
  obtain n where "fitting sz cap (off + sz) xs = take n xs" using Cons.IH by blast
  then show ?case by (cases "cap < off + sz") (auto intro: exI [of _ 0] exI [of _ "Suc n"])
qed

lemma fitting_length_le: "length (fitting sz cap off xs) \<le> length xs"
  by (metis fitting_prefix length_take min.cobounded1)

lemma fitting_bound: "off \<le> cap \<Longrightarrow> off + length (fitting sz cap off xs) * sz \<le> cap"
  by (induction xs arbitrary: off) (auto simp: add.assoc [symmetric])

lemma fitting_all: "off + length xs * sz \<le> cap \<Longrightarrow> fitting sz cap off xs = xs"
proof (induction xs arbitrary: off)
  case Nil
  then show ?case by simp
next
  case (Cons x xs)
  then have "\<not> cap < off + sz" "off + sz + length xs * sz \<le> cap" by auto
  with Cons.IH show ?case by simp
qed

lemma put_report_fields:
  "put_report \<lparr>rep_id = i, rep_q = q, rep_alias = al\<rparr> = nid_write i @ [q_to_byte q, al]"
  by (simp add: put_report_def)

lemma put_route_fields:
  "put_route \<lparr>adv_dst = d, adv_next_hop = nh, adv_cost = c, adv_hops = h\<rparr> =
     nid_write d @ nid_write nh @ put_u16 (cost_to_u16 c) @ [h]"
  by (simp add: put_route_def)

lemma length_put_report [simp]: "length (put_report r) = 18"
  by (simp add: put_report_def)

lemma length_put_route [simp]: "length (put_route r) = 35"
  by (simp add: put_route_def)

lemma length_concat_const: "(\<And>x. length (f x) = k) \<Longrightarrow> length (concat (map f xs)) = length xs * k"
  by (induction xs) auto

text \<open>The count byte carries the report count in its low seven bits.\<close>

lemma rep_byte_fields:
  assumes "n \<le> MAX_NEIGHBORS"
  shows "((of_nat n OR (if c then ANNOUNCE_HAS_CAPS else 0)) AND ANNOUNCE_HAS_CAPS \<noteq> 0) = c"
    and "unat ((of_nat n OR (if c then ANNOUNCE_HAS_CAPS else 0)) AND NOT ANNOUNCE_HAS_CAPS) = n"
proof -
  have "\<forall>n\<in>set [0..<33]. \<forall>c\<in>{True, False}.
     ((of_nat n OR (if c then ANNOUNCE_HAS_CAPS else 0)) AND ANNOUNCE_HAS_CAPS \<noteq> 0) = c \<and>
     unat ((of_nat n OR (if c then ANNOUNCE_HAS_CAPS else 0)) AND NOT ANNOUNCE_HAS_CAPS) = n"
    by code_simp
  moreover have "n \<in> set [0..<33]" using assms by (simp add: MAX_NEIGHBORS_def)
  moreover have "c \<in> {True, False}" by simp
  ultimately show "((of_nat n OR (if c then ANNOUNCE_HAS_CAPS else 0)) AND ANNOUNCE_HAS_CAPS \<noteq> 0) = c"
    and "unat ((of_nat n OR (if c then ANNOUNCE_HAS_CAPS else 0)) AND NOT ANNOUNCE_HAS_CAPS) = n"
    by blast+
qed

lemma get_reports_at:
  "length pre = off \<Longrightarrow>
     get_reports (length rs) (pre @ concat (map put_report rs) @ suf) off = Some (map quant_report rs)"
proof (induction rs arbitrary: pre off)
  case Nil
  then show ?case by simp
next
  case (Cons r rs)
  have "get_reports (length rs) ((pre @ put_report r) @ concat (map put_report rs) @ suf) (off + 18)
      = Some (map quant_report rs)"
    using Cons.prems by (intro Cons.IH) simp
  with Cons.prems show ?case
    by (simp add: put_report_def [of r] codec_simps quant_report_fields [of r])
qed

lemma get_routes_at:
  "length pre = off \<Longrightarrow>
     get_routes (length rs) (pre @ concat (map put_route rs) @ suf) off = Some (map quant_route rs)"
proof (induction rs arbitrary: pre off)
  case Nil
  then show ?case by simp
next
  case (Cons r rs)
  have "get_routes (length rs) ((pre @ put_route r) @ concat (map put_route rs) @ suf) (off + 35)
      = Some (map quant_route rs)"
    using Cons.prems by (intro Cons.IH) simp
  with Cons.prems show ?case
    by (simp add: put_route_def [of r] codec_simps quant_route_fields [of r])
qed

definition announce_bytes :: "bool \<Rightarrow> u16 \<Rightarrow> report list \<Rightarrow> route_adv list \<Rightarrow> bytes" where
  "announce_bytes hc caps reps rts =
     [of_nat (length reps) OR (if hc then ANNOUNCE_HAS_CAPS else 0), of_nat (length rts)]
     @ (if hc then put_u16 caps else []) @ concat (map put_report reps) @ concat (map put_route rts)"

lemma announce_serialize_iff:
  "announce_serialize a cap = Some bs \<longleftrightarrow> announce_hdr_len (a_has_caps a) \<le> cap \<and>
     bs = announce_bytes (a_has_caps a) (a_caps a) (fit_reports a cap) (fit_routes a cap)"
  by (auto simp: announce_serialize_def announce_bytes_def fit_reports_def fit_routes_def Let_def)

lemma length_announce_bytes:
  "length (announce_bytes hc caps reps rts) =
     announce_hdr_len hc + length reps * ANNOUNCE_REPORT_BYTES + length rts * ANNOUNCE_ROUTE_BYTES"
  by (simp add: announce_bytes_def announce_hdr_len_def announce_sizes length_concat_const [of put_report 18]
      length_concat_const [of put_route 35])

lemma unat_count: "n \<le> MAX_ROUTES \<Longrightarrow> unat (of_nat n :: u8) = n"
  by (simp add: MAX_ROUTES_def unsigned_of_nat take_bit_nat_eq_self)

lemma announce_deserialize_bytes:
  assumes "length reps \<le> MAX_NEIGHBORS" "length rts \<le> MAX_ROUTES"
  shows "announce_deserialize (announce_bytes hc caps reps rts @ tail) =
     Some (Some \<lparr>a_origin = nid_zero, a_reports = map quant_report reps,
       a_routes = map quant_route rts, a_caps = (if hc then caps else 0), a_has_caps = hc\<rparr>)"
proof -
  let ?bs = "announce_bytes hc caps reps rts @ tail" and ?h = "announce_hdr_len hc"
  let ?hd = "[of_nat (length reps) OR (if hc then ANNOUNCE_HAS_CAPS else 0), of_nat (length rts)]
     @ (if hc then put_u16 caps else [])"
  have h: "length ?hd = ?h" by (simp add: announce_hdr_len_def announce_sizes)
  have "get_reports (length reps) (?hd @ concat (map put_report reps) @ concat (map put_route rts) @ tail) ?h
      = Some (map quant_report reps)" by (rule get_reports_at [OF h])
  then have reps: "get_reports (length reps) ?bs ?h = Some (map quant_report reps)"
    by (simp add: announce_bytes_def)
  have "get_routes (length rts) ((?hd @ concat (map put_report reps)) @ concat (map put_route rts) @ tail)
      (?h + length reps * ANNOUNCE_REPORT_BYTES) = Some (map quant_route rts)"
    by (rule get_routes_at)
      (simp add: length_concat_const [of put_report 18] announce_sizes announce_hdr_len_def)
  then have rts: "get_routes (length rts) ?bs (?h + length reps * ANNOUNCE_REPORT_BYTES) = Some (map quant_route rts)"
    by (simp add: announce_bytes_def)
  have rd: "rd8 ?bs 0 = Some (of_nat (length reps) OR (if hc then ANNOUNCE_HAS_CAPS else 0))"
      "rd8 ?bs 1 = Some (of_nat (length rts))" "hc \<Longrightarrow> rd16 ?bs 2 = Some caps"
    by (simp_all add: announce_bytes_def codec_simps)
  have "\<not> length ?bs < ANNOUNCE_HDR_BYTES"
    by (simp add: length_announce_bytes announce_hdr_len_def)
  then show ?thesis
    unfolding announce_deserialize_def rd Let_def
    using rd(3) assms by (simp add: rd rep_byte_fields [OF assms(1)] unat_count reps rts length_announce_bytes
        Announce_init_def del: One_nat_def)
qed

lemma fit_bounds:
  assumes "announce_hdr_len (a_has_caps a) \<le> cap"
  shows "length (fit_reports a cap) \<le> length (a_reports a)" "length (fit_routes a cap) \<le> length (a_routes a)"
    "announce_hdr_len (a_has_caps a) + length (fit_reports a cap) * ANNOUNCE_REPORT_BYTES
       + length (fit_routes a cap) * ANNOUNCE_ROUTE_BYTES \<le> cap"
  unfolding fit_routes_def using assms
  by (auto simp: fit_reports_def fitting_length_le intro!: fitting_bound)

lemma announce_deserialize_fit:
  assumes "announce_sized a" and "announce_serialize a cap = Some bs"
  shows "announce_deserialize (bs @ tail) = Some (Some (announce_view a cap))"
proof -
  from assms(2) have h: "announce_hdr_len (a_has_caps a) \<le> cap"
      and bs: "bs = announce_bytes (a_has_caps a) (a_caps a) (fit_reports a cap) (fit_routes a cap)"
    by (simp_all add: announce_serialize_iff)
  have "length (fit_reports a cap) \<le> MAX_NEIGHBORS" "length (fit_routes a cap) \<le> MAX_ROUTES"
    using assms(1) fit_bounds [OF h] by (auto simp: announce_sized_def)
  then show ?thesis unfolding bs by (simp add: announce_deserialize_bytes announce_view_def)
qed

text \<open>
  C26. An announce survives the wire. Whatever the buffer size and whatever follows the body (the
  signature tail), the parser returns the announce of the entries that fit, quantised; the body fits
  the buffer, and \<^verbatim>\<open>announce_body_len\<close> of the parsed announce is the length of the body, which is how
  a receiver finds the signature tail.
\<close>

theorem announce_roundtrip:
  assumes "announce_sized a" and "announce_serialize a cap = Some bs"
  shows "announce_deserialize (bs @ tail) = Some (Some (announce_view a cap))
    \<and> announce_body_len (announce_view a cap) = length bs \<and> length bs \<le> cap"
  using announce_deserialize_fit [OF assms] fit_bounds(3) [of a cap] assms(2)
  by (simp add: announce_serialize_iff announce_view_def announce_body_len_def length_announce_bytes)

definition ann_example :: announce where
  "ann_example = Announce_init\<lparr>a_caps := 5,
     a_reports := [\<lparr>rep_id = nid_from_u32 7, rep_q = 3 / 4, rep_alias = 9\<rparr>],
     a_routes := [\<lparr>adv_dst = nid_from_u32 8, adv_next_hop = nid_from_u32 7, adv_cost = 5 / 2, adv_hops = 2\<rparr>]\<rparr>"

theorem announce_roundtrip_witness:
  "announce_deserialize (the (announce_serialize ann_example 100) @ [1, 2]) = Some (Some (announce_view ann_example 100))
     \<and> length (the (announce_serialize ann_example 100)) = 57"
proof -
  have "announce_sized ann_example" by code_simp
  moreover have "announce_serialize ann_example 100 = Some (the (announce_serialize ann_example 100))" by code_simp
  ultimately have "announce_deserialize (the (announce_serialize ann_example 100) @ [1, 2])
      = Some (Some (announce_view ann_example 100))" by (rule announce_roundtrip [THEN conjunct1])
  moreover have "length (the (announce_serialize ann_example 100)) = 57" by code_simp
  ultimately show ?thesis by simp
qed

text \<open>A full buffer loses nothing but the quantised digits.\<close>

lemma announce_view_all: "announce_body_len a \<le> cap \<Longrightarrow>
  fit_reports a cap = a_reports a \<and> fit_routes a cap = a_routes a"
  by (simp add: announce_body_len_def fit_reports_def fit_routes_def fitting_all)

section \<open>Parser lemmas\<close>

lemma get_reports_safe:
  "off + n * 18 \<le> length bs \<Longrightarrow> \<exists>rs. get_reports n bs off = Some rs \<and> length rs = n
     \<and> concat (map put_report rs) = take (n * 18) (drop off bs)"
proof (induction n arbitrary: off)
  case 0
  then show ?case by simp
next
  case (Suc n)
  then obtain rs where rs: "get_reports n bs (off + 18) = Some rs" "length rs = n"
      "concat (map put_report rs) = take (n * 18) (drop (off + 18) bs)" by force
  have "take (Suc n * 18) (drop off bs) = take 18 (drop off bs) @ take (n * 18) (drop (off + 18) bs)"
    by (simp add: take_add add.commute)
  moreover have "take 18 (drop off bs) = take 16 (drop off bs) @ [bs ! (off + 16), bs ! (off + 17)]"
    using Suc.prems take_add [of 16 2 "drop off bs"]
    by (simp add: numeral_2_eq_2 take_Suc_conv_app_nth add.commute)
  ultimately show ?case using Suc.prems rs
    by (simp add: rd_safe put_report_fields q_byte_roundtrip nid_write_def nid_bytes_read)
qed

lemma get_routes_safe:
  "off + n * 35 \<le> length bs \<Longrightarrow> \<exists>rs. get_routes n bs off = Some rs \<and> length rs = n
     \<and> concat (map put_route rs) = take (n * 35) (drop off bs) \<and> (\<forall>r\<in>set rs. 0 \<le> adv_cost r)"
proof (induction n arbitrary: off)
  case 0
  then show ?case by simp
next
  case (Suc n)
  then obtain rs where rs: "get_routes n bs (off + 35) = Some rs" "length rs = n"
      "concat (map put_route rs) = take (n * 35) (drop (off + 35) bs)" "\<forall>r\<in>set rs. 0 \<le> adv_cost r"
    by force
  have "take (Suc n * 35) (drop off bs) = take 35 (drop off bs) @ take (n * 35) (drop (off + 35) bs)"
    by (simp add: take_add add.commute)
  moreover have "take 35 (drop off bs) = take 16 (drop off bs) @ take 16 (drop (off + 16) bs)
      @ [bs ! (off + 32), bs ! (off + 33), bs ! (off + 34)]"
    using Suc.prems take_add [of 16 19 "drop off bs"] take_add [of 16 3 "drop (off + 16) bs"]
    by (simp add: numeral_3_eq_3 take_Suc_conv_app_nth add.commute)
  ultimately show ?case using Suc.prems rs
    by (simp add: rd_safe put_route_fields cost_u16_roundtrip nid_write_def nid_bytes_read u16_to_cost_nonneg
        add.commute [of 33])
qed

lemma has_caps_bit: "bit ANNOUNCE_HAS_CAPS n \<longleftrightarrow> n = 7"
  using bit_exp_iff [where 'a = u8, of 7 n] by (auto simp: ANNOUNCE_HAS_CAPS_def possible_bit_word)

lemma rep_byte_split:
  fixes b :: u8
  assumes "unat (b AND NOT ANNOUNCE_HAS_CAPS) = n"
  shows "of_nat n OR (if b AND ANNOUNCE_HAS_CAPS \<noteq> 0 then ANNOUNCE_HAS_CAPS else 0) = b"
proof -
  have "(b AND ANNOUNCE_HAS_CAPS \<noteq> 0) = bit b 7"
    by (auto simp: bit_eq_iff [of _ "0 :: u8"] bit_and_iff has_caps_bit dest: bit_imp_le_length)
  moreover have "of_nat n = b AND NOT ANNOUNCE_HAS_CAPS" using assms by (metis of_nat_unat ucast_id)
  ultimately show ?thesis
    by (auto intro!: bit_word_eqI simp: bit_or_iff bit_and_iff bit_not_iff has_caps_bit)
qed

text \<open>All branches of the parser, with the accepted announce related to the bytes it came from.\<close>

lemma announce_deserialize_cases:
  "\<exists>r. announce_deserialize bs = Some r \<and>
     (\<forall>a. r = Some a \<longrightarrow> announce_sized a \<and> ann_ok a \<and> announce_body_len a \<le> length bs
        \<and> announce_bytes (a_has_caps a) (a_caps a) (a_reports a) (a_routes a) = take (announce_body_len a) bs)"
proof (cases "length bs < 2")
  case True
  then show ?thesis by (simp add: announce_deserialize_def announce_sizes)
next
  case False
  then have ne: "bs \<noteq> []" by auto
  define nr where "nr = unat (bs ! 0 AND NOT ANNOUNCE_HAS_CAPS)"
  define nt where "nt = unat (bs ! 1)"
  define hc where "hc \<longleftrightarrow> bs ! 0 AND ANNOUNCE_HAS_CAPS \<noteq> 0"
  define h where "h = announce_hdr_len hc"
  show ?thesis
  proof (cases "MAX_NEIGHBORS < nr \<or> MAX_ROUTES < nt \<or> length bs < h + nr * 18 + nt * 35")
    case True
    with False ne show ?thesis
      by (auto simp: announce_deserialize_def announce_sizes nr_def nt_def h_def hc_def rd_safe Let_def)
  next
    case in_range: False
    have len: "hc \<Longrightarrow> 4 \<le> length bs" using in_range by (simp add: h_def announce_hdr_len_def announce_sizes)
    have h2: "2 \<le> h" "hc \<Longrightarrow> h = 4" "\<not> hc \<Longrightarrow> h = 2" by (simp_all add: h_def announce_hdr_len_def announce_sizes)
    from in_range obtain rs where rs: "get_reports nr bs h = Some rs" "length rs = nr"
        "concat (map put_report rs) = take (nr * 18) (drop h bs)" using get_reports_safe [of h nr bs] by force
    from in_range obtain ts where ts: "get_routes nt bs (h + nr * 18) = Some ts" "length ts = nt"
        "concat (map put_route ts) = take (nt * 35) (drop (h + nr * 18) bs)" "\<forall>r\<in>set ts. 0 \<le> adv_cost r"
      using get_routes_safe [of "h + nr * 18" nt bs] by force
    let ?caps = "if hc then mk_u16 (bs ! 2) (bs ! 3) else 0"
    let ?a = "Announce_init\<lparr>a_has_caps := hc, a_caps := ?caps, a_reports := rs, a_routes := ts\<rparr>"
    have caps: "(if hc then rd16 bs 2 else Some 0) = Some ?caps" using len by (auto simp: rd_safe)
    have "announce_deserialize bs = Some (Some ?a)"
      using False ne in_range caps rs(1) ts(1)
      by (simp add: announce_deserialize_def announce_sizes rd_safe Let_def nr_def nt_def h_def hc_def)
    moreover have "announce_bytes hc ?caps rs ts = take (h + nr * 18 + nt * 35) bs"
    proof -
      have "take h bs = [bs ! 0, bs ! 1] @ (if hc then [bs ! 2, bs ! 3] else [])"
        using False len h2 by (cases hc) (simp_all add: take_2 take_4)
      moreover have "of_nat nr OR (if hc then ANNOUNCE_HAS_CAPS else 0) = bs ! 0"
        unfolding hc_def by (rule rep_byte_split) (simp add: nr_def)
      moreover have "of_nat nt = bs ! 1" by (simp add: nt_def)
      ultimately show ?thesis
        by (simp add: announce_bytes_def rs ts take_add)
    qed
    ultimately show ?thesis using in_range rs(2) ts(2,4)
      by (simp add: announce_sized_def ann_ok_def announce_body_len_def h_def announce_sizes Announce_init_def)
  qed
qed

interpretation ann: wire_codec_tail "\<lambda>a. the (announce_serialize a 65535)" announce_deserialize
  "\<lambda>a. announce_view a 65535" announce_sized
proof unfold_locales
  show "announce_deserialize bs \<noteq> None" for bs using announce_deserialize_cases [of bs] by auto
  show "announce_deserialize (the (announce_serialize m 65535) @ tail) = Some (Some (announce_view m 65535))"
    if "announce_sized m" for m tail
    using announce_deserialize_fit [OF that] by (simp add: announce_serialize_def Let_def announce_hdr_len_def announce_sizes)
qed

text \<open>
  The announce parser is safe on untrusted radio input: for every byte string it returns without
  reading outside the buffer, and an accepted announce fits the fixed arrays, has the non-negative
  costs the router relies on, and occupies no more bytes than were received.
\<close>

theorem announce_parser_safe:
  "\<exists>r. announce_deserialize bs = Some r \<and>
     (\<forall>a. r = Some a \<longrightarrow> announce_sized a \<and> ann_ok a \<and> announce_body_len a \<le> length bs)"
  using announce_deserialize_cases [of bs] by blast

theorem announce_parser_safe_witness:
  "announce_deserialize [0x80, 0, 5, 0, 7] = Some (Some (Announce_init\<lparr>a_caps := 5\<rparr>)) \<and>
     ann_ok (Announce_init\<lparr>a_caps := 5\<rparr>) \<and> announce_body_len (Announce_init\<lparr>a_caps := 5\<rparr>) \<le> 5"
proof -
  have d: "announce_deserialize [0x80, 0, 5, 0, 7] = Some (Some (Announce_init\<lparr>a_caps := 5\<rparr>))" by code_simp
  with announce_parser_safe [of "[0x80, 0, 5, 0, 7]"] show ?thesis by simp
qed

text \<open>
  Decode then encode is faithful: an accepted announce, serialized again into a large enough
  buffer, gives back the received body byte for byte, legacy frames without capabilities included.
\<close>

theorem announce_reencode:
  assumes "announce_deserialize bs = Some (Some a)" and "announce_body_len a \<le> cap"
  shows "announce_serialize a cap = Some (take (announce_body_len a) bs)"
proof -
  have "announce_bytes (a_has_caps a) (a_caps a) (a_reports a) (a_routes a) = take (announce_body_len a) bs"
    using announce_deserialize_cases [of bs] assms(1) by simp
  moreover have "announce_hdr_len (a_has_caps a) \<le> cap" using assms(2) by (simp add: announce_body_len_def)
  ultimately show ?thesis using announce_view_all [OF assms(2)] by (simp add: announce_serialize_iff)
qed

theorem announce_reencode_witness:
  "announce_serialize (Announce_init\<lparr>a_caps := 5\<rparr>) 200 = Some [0x80, 0, 5, 0]"
proof -
  have "announce_deserialize [0x80, 0, 5, 0, 7] = Some (Some (Announce_init\<lparr>a_caps := 5\<rparr>))"
    "announce_body_len (Announce_init\<lparr>a_caps := 5\<rparr>) \<le> 200" by code_simp+
  from announce_reencode [OF this] show ?thesis by code_simp
qed

section \<open>Identity tail\<close>

lemma ann_view_inj: "length p = 32 \<Longrightarrow> length p' = 32 \<Longrightarrow> ann_view p b = ann_view p' b' \<longleftrightarrow> p = p' \<and> b = b'"
  by (auto simp: ann_view_def)

lemma announce_verify_Some:
  assumes "announce_verify ed_check body tail = Some pk"
  shows "pk = take 32 tail" "ed_check (take 64 (drop 32 tail)) pk (ann_view pk body)"
    "length body \<le> ANN_VIEW_BODY_MAX"
  using assms by (auto simp: announce_verify_def Let_def split: if_splits)

lemma announce_verify_sign:
  assumes "length pk = 32" "\<And>m. length (ed_sign sk m) = 64" "\<And>m. ed_check (ed_sign sk m) pk m"
    "announce_sign ed_sign body pk sk = Some tail"
  shows "length tail = 96" "announce_verify ed_check body tail = Some pk"
  using assms by (auto simp: announce_sign_def announce_verify_def Let_def split: if_splits)

end
