(* ===== verification/Packet.thy ===== *)
theory Packet
  imports Mesh_Types Wire_Codec
begin

text \<open>
  \<^verbatim>\<open>include/packet.h\<close> and \<^verbatim>\<open>lib/mesh/version_stats.h\<close>: the two stacked headers of a frame, the beacon
  payload, the packed version-and-type byte, and the counter of frames with a foreign version.

  The packed structs are copied to and from the frame with \<^verbatim>\<open>memcpy\<close>, so on the little-endian targets
  their image is the concatenation of their fields; \<open>frame_hdr\<close> parses it.
\<close>

section \<open>Constants\<close>

definition LINK_ADDR_NONE :: link_addr where "LINK_ADDR_NONE = 0x00"
definition LINK_ADDR_BROADCAST :: link_addr where "LINK_ADDR_BROADCAST = 0xFF"
definition PROTO_VERSION :: u8 where "PROTO_VERSION = 2"

text \<open>\<^verbatim>\<open>enum PacketType : uint8_t\<close> has a fixed underlying type: a value read off the wire is any of the
  sixteen nibbles, known or not.\<close>

definition PKT_DATA :: u8 where "PKT_DATA = 0"
definition PKT_CONTROL :: u8 where "PKT_CONTROL = 1"
definition PKT_ACK :: u8 where "PKT_ACK = 2"
definition PKT_BEACON :: u8 where "PKT_BEACON = 3"
definition PKT_LOC :: u8 where "PKT_LOC = 4"
definition PKT_TELEM :: u8 where "PKT_TELEM = 5"

lemmas pkt_types = PKT_DATA_def PKT_CONTROL_def PKT_ACK_def PKT_BEACON_def PKT_LOC_def PKT_TELEM_def

definition NET_FLAG_ACK_REQ :: u8 where "NET_FLAG_ACK_REQ = 1"
definition LINK_FLAG_ACK_REQ :: u8 where "LINK_FLAG_ACK_REQ = 1"
definition LINK_FLAG_IS_ACK :: u8 where "LINK_FLAG_IS_ACK = 2"

definition DEFAULT_TTL :: u8 where "DEFAULT_TTL = 16"
definition MAX_PAYLOAD :: nat where "MAX_PAYLOAD = 255"

section \<open>Headers\<close>

record link_header =
  lh_prev_hop :: link_addr
  lh_next_hop :: link_addr
  lh_link_seq :: u8
  lh_flags :: u8

record net_header =
  nh_ver_type :: u8
  nh_flags :: u8
  nh_ttl :: u8
  nh_dst :: node_id
  nh_src :: node_id
  nh_pkt_id :: u16

record beacon_payload =
  bp_hw_class :: u8
  bp_batt_pct_plus1 :: u8
  bp_uptime_s :: u16

definition HEADER_BYTES :: nat where "HEADER_BYTES = 4 + 37"
definition BEACON_PAYLOAD_BYTES :: nat where "BEACON_PAYLOAD_BYTES = 4"

definition put_link :: "link_header \<Rightarrow> bytes" where
  "put_link h = [lh_prev_hop h, lh_next_hop h, lh_link_seq h, lh_flags h]"

definition put_net :: "net_header \<Rightarrow> bytes" where
  "put_net h = [nh_ver_type h, nh_flags h, nh_ttl h] @ nid_write (nh_dst h) @ nid_write (nh_src h)
     @ put_u16 (nh_pkt_id h)"

definition put_beacon_payload :: "beacon_payload \<Rightarrow> bytes" where
  "put_beacon_payload p = [bp_hw_class p, bp_batt_pct_plus1 p] @ put_u16 (bp_uptime_s p)"

definition rd_link :: "bytes \<Rightarrow> nat \<Rightarrow> link_header option" where
  "rd_link bs i = do {
     p \<leftarrow> rd8 bs i; n \<leftarrow> rd8 bs (i + 1); s \<leftarrow> rd8 bs (i + 2); f \<leftarrow> rd8 bs (i + 3);
     Some \<lparr>lh_prev_hop = p, lh_next_hop = n, lh_link_seq = s, lh_flags = f\<rparr> }"

definition rd_net :: "bytes \<Rightarrow> nat \<Rightarrow> net_header option" where
  "rd_net bs i = do {
     v \<leftarrow> rd8 bs i; f \<leftarrow> rd8 bs (i + 1); t \<leftarrow> rd8 bs (i + 2);
     d \<leftarrow> rd_nid bs (i + 3); s \<leftarrow> rd_nid bs (i + 19); p \<leftarrow> rd16 bs (i + 35);
     Some \<lparr>nh_ver_type = v, nh_flags = f, nh_ttl = t, nh_dst = d, nh_src = s, nh_pkt_id = p\<rparr> }"

definition rd_beacon_payload :: "bytes \<Rightarrow> nat \<Rightarrow> beacon_payload option" where
  "rd_beacon_payload bs i = do {
     h \<leftarrow> rd8 bs i; b \<leftarrow> rd8 bs (i + 1); u \<leftarrow> rd16 bs (i + 2);
     Some \<lparr>bp_hw_class = h, bp_batt_pct_plus1 = b, bp_uptime_s = u\<rparr> }"

text \<open>A frame is both headers and an opaque payload; a receiver rejects what is shorter than the headers.\<close>

definition mk_frame :: "link_header \<Rightarrow> net_header \<Rightarrow> bytes \<Rightarrow> bytes" where
  "mk_frame l n payload = put_link l @ put_net n @ payload"

definition frame_hdr :: "bytes \<Rightarrow> (link_header \<times> net_header) option option" where
  "frame_hdr bs =
     (if length bs < HEADER_BYTES then Some None
      else do { l \<leftarrow> rd_link bs 0; n \<leftarrow> rd_net bs 4; Some (Some (l, n)) })"

section \<open>The version and type byte\<close>

definition net_ver_type :: "u8 \<Rightarrow> u8" where
  "net_ver_type t = push_bit 4 PROTO_VERSION OR (t AND 0x0F)"

definition net_type_of :: "u8 \<Rightarrow> u8" where
  "net_type_of ver_type = ver_type AND 0x0F"

definition net_ver_of :: "u8 \<Rightarrow> u8" where
  "net_ver_of ver_type = drop_bit 4 ver_type"

section \<open>Foreign-version counter\<close>

record version_stats =
  vs_drops :: u32
  vs_last_ver :: u8

definition VersionStats_init :: version_stats where
  "VersionStats_init = \<lparr>vs_drops = 0, vs_last_ver = 0xFF\<rparr>"

definition on_foreign :: "version_stats \<Rightarrow> u8 \<Rightarrow> u32 \<times> version_stats" where
  "on_foreign s ver = (let s' = s\<lparr>vs_drops := vs_drops s + 1, vs_last_ver := ver\<rparr> in (vs_drops s', s'))"

definition vs_any :: "version_stats \<Rightarrow> bool" where
  "vs_any s \<longleftrightarrow> 0 < vs_drops s"

definition vs_reset :: "version_stats \<Rightarrow> version_stats" where
  "vs_reset s = VersionStats_init"

section \<open>Lemmas\<close>

lemma length_put_link [simp]: "length (put_link h) = 4"
  by (simp add: put_link_def)

lemma length_put_net [simp]: "length (put_net h) = 37"
  by (simp add: put_net_def)

lemma length_put_beacon_payload [simp]: "length (put_beacon_payload p) = 4"
  by (simp add: put_beacon_payload_def)

lemma length_mk_frame [simp]: "length (mk_frame l n p) = HEADER_BYTES + length p"
  by (simp add: mk_frame_def HEADER_BYTES_def)

lemma rd_link_0 [codec_simps]: "rd_link (put_link h @ ys) 0 = Some h"
  by (cases h) (simp add: rd_link_def put_link_def codec_simps)

lemma rd_net_0 [codec_simps]: "rd_net (put_net h @ ys) 0 = Some h"
  by (cases h) (simp add: rd_net_def put_net_def codec_simps)

lemma rd_link_some [rd_safe]: "i + 4 \<le> length bs \<Longrightarrow> \<exists>h. rd_link bs i = Some h"
  by (simp add: rd_link_def rd_safe)

lemma rd_net_some [rd_safe]: "i + 37 \<le> length bs \<Longrightarrow> \<exists>h. rd_net bs i = Some h"
  by (simp add: rd_net_def rd_safe)

lemma rd_link_skip [codec_simps]: "length xs \<le> i \<Longrightarrow> rd_link (xs @ ys) i = rd_link ys (i - length xs)"
  by (simp add: rd_link_def codec_simps Suc_diff_le)

lemma rd_net_skip [codec_simps]: "length xs \<le> i \<Longrightarrow> rd_net (xs @ ys) i = rd_net ys (i - length xs)"
  by (simp add: rd_net_def codec_simps Suc_diff_le)

lemma rd_beacon_payload_skip [codec_simps]:
  "length xs \<le> i \<Longrightarrow> rd_beacon_payload (xs @ ys) i = rd_beacon_payload ys (i - length xs)"
  by (simp add: rd_beacon_payload_def codec_simps Suc_diff_le)

lemma rd_beacon_payload_0 [codec_simps]: "rd_beacon_payload (put_beacon_payload p @ ys) 0 = Some p"
  by (cases p) (simp add: rd_beacon_payload_def put_beacon_payload_def codec_simps)

lemma frame_hdr_total: "frame_hdr bs \<noteq> None"
  using rd_link_some [of 0 bs] rd_net_some [of 4 bs] by (auto simp: frame_hdr_def HEADER_BYTES_def)

lemma frame_hdr_mk: "frame_hdr (mk_frame l n p) = Some (Some (l, n))"
  by (simp add: frame_hdr_def HEADER_BYTES_def) (simp add: mk_frame_def codec_simps)

interpretation hdr: wire_codec_tail "\<lambda>(l, n). mk_frame l n []" frame_hdr "\<lambda>x. x" "\<lambda>_. True"
proof unfold_locales
  show "frame_hdr bs \<noteq> None" for bs by (rule frame_hdr_total)
  show "frame_hdr ((case m of (l, n) \<Rightarrow> mk_frame l n []) @ tail) = Some (Some m)" for m tail
    using frame_hdr_mk [of "fst m" "snd m" tail] by (cases m) (simp add: mk_frame_def)
qed

lemma take_37: "37 \<le> length xs \<Longrightarrow> take 37 xs =
    [xs ! 0, xs ! 1, xs ! 2] @ take 16 (drop 3 xs) @ take 16 (drop 19 xs) @ [xs ! 35, xs ! 36]"
  using take_split [of 3 37 xs] take_split [of 16 34 "drop 3 xs"] take_split [of 16 18 "drop 19 xs"]
  by (simp add: take_3 take_2)

lemma put_link_inj: "put_link a = put_link b \<longleftrightarrow> a = b"
  by (metis append_Nil2 option.inject rd_link_0)

text \<open>A received frame is the image of the headers it parses to, followed by its payload.\<close>

lemma frame_hdr_reencode:
  assumes "frame_hdr bs = Some (Some (l, n))"
  shows "bs = mk_frame l n (drop HEADER_BYTES bs)"
proof -
  have len: "41 \<le> length bs" using assms by (auto simp: frame_hdr_def HEADER_BYTES_def split: if_splits)
  then have "rd_link bs 0 = Some l" "rd_net bs 4 = Some n"
    using assms rd_link_some [of 0 bs] rd_net_some [of 4 bs]
    by (auto simp: frame_hdr_def HEADER_BYTES_def split: if_splits)
  moreover have "bs \<noteq> []" using len by auto
  ultimately have "put_link l = take 4 bs" "put_net n = take 37 (drop 4 bs)"
    using len by (auto simp: rd_link_def rd_net_def rd_safe put_link_def put_net_def take_4 nid_write_def
        nid_bytes_read take_37 numeral_2_eq_2)
  then show ?thesis
    by (metis HEADER_BYTES_def append_take_drop_id drop_drop mk_frame_def add.commute)
qed

lemma ver_type_roundtrip: "net_ver_of (net_ver_type t) = PROTO_VERSION" "net_type_of (net_ver_type t) = t AND 0x0F"
proof -
  have m: "(0x0F :: u8) = mask 4" by (simp add: mask_eq_exp_minus_1)
  have p: "bit PROTO_VERSION n \<Longrightarrow> n < 4" for n :: nat
    using bit_exp_iff [where 'a = u8, of 1 n] by (simp add: PROTO_VERSION_def)
  show "net_ver_of (net_ver_type t) = PROTO_VERSION"
    unfolding net_ver_of_def net_ver_type_def m
    by (rule bit_word_eqI) (use p in \<open>auto simp: bit_simps dest: bit_imp_le_length\<close>)
  show "net_type_of (net_ver_type t) = t AND 0x0F"
    unfolding net_type_of_def net_ver_type_def m by (rule bit_word_eqI) (auto simp: bit_simps)
qed

text \<open>
  Frames survive the air: a frame built from two headers and a payload parses to the same headers
  and leaves exactly the payload, the headers take 41 bytes, and the packed version byte carries the
  protocol version and the four-bit packet class. A frame shorter than the headers is rejected, and no
  input makes the parser read outside its buffer.
\<close>

theorem frame_roundtrip:
  "frame_hdr (mk_frame l n p) = Some (Some (l, n)) \<and> drop HEADER_BYTES (mk_frame l n p) = p
   \<and> length (mk_frame l n p) = 41 + length p
   \<and> net_ver_of (net_ver_type t) = PROTO_VERSION \<and> net_type_of (net_ver_type t) = t AND 0x0F
   \<and> (frame_hdr bs = Some None \<longleftrightarrow> length bs < 41) \<and> frame_hdr bs \<noteq> None"
proof -
  have "drop HEADER_BYTES (mk_frame l n p) = p" by (simp add: mk_frame_def HEADER_BYTES_def)
  moreover have "frame_hdr bs = Some None \<longleftrightarrow> length bs < 41"
    using rd_link_some [of 0 bs] rd_net_some [of 4 bs] by (auto simp: frame_hdr_def HEADER_BYTES_def)
  ultimately show ?thesis
    using frame_hdr_mk [of l n p] frame_hdr_total [of bs] ver_type_roundtrip [of t]
    by (simp add: HEADER_BYTES_def)
qed

end
