(* ===== verification/Dedup_Ring.thy ===== *)
theory Dedup_Ring
  imports Prelude
begin

text \<open>
  The ring buffers that remember recently handled packets: the seen-cache of the forwarder and the
  flood cache of the locator directory. A ring is an array of slots and an insertion point; a new key
  overwrites the oldest slot. Seen from its insertion point the ring is a queue, \<open>ring_queue\<close>: an
  insertion drops the front and appends at the back, which is the specification the clients rest on.
\<close>

section \<open>Rings\<close>

definition ring_seen :: "('e \<Rightarrow> bool) \<Rightarrow> ('e \<Rightarrow> 'k) \<Rightarrow> 'e list \<Rightarrow> 'k \<Rightarrow> bool" where
  "ring_seen used key slots k \<longleftrightarrow> (\<exists>e\<in>set slots. used e \<and> key e = k)"

definition ring_put :: "'e \<Rightarrow> 'e list \<times> nat \<Rightarrow> 'e list \<times> nat" where
  "ring_put e = (\<lambda>(slots, head). (slots[head := e], (head + 1) mod length slots))"

definition ring_queue :: "'e list \<times> nat \<Rightarrow> 'e list" where
  "ring_queue = (\<lambda>(slots, head). drop head slots @ take head slots)"

definition ring_ok :: "nat \<Rightarrow> 'e list \<times> nat \<Rightarrow> bool" where
  "ring_ok n = (\<lambda>(slots, head). length slots = n \<and> head < n)"

section \<open>A ring is a bounded queue\<close>

lemma ring_ok_put: "ring_ok n r \<Longrightarrow> ring_ok n (ring_put e r)"
  by (cases r) (auto simp: ring_ok_def ring_put_def)

lemma set_ring_queue: "set (ring_queue (slots, head)) = set slots"
  using set_append [of "take head slots" "drop head slots"] by (simp add: ring_queue_def Un_commute)

lemma length_ring_queue: "ring_ok n r \<Longrightarrow> length (ring_queue r) = n"
  by (cases r) (auto simp: ring_ok_def ring_queue_def)

lemma ring_queue_put:
  assumes "ring_ok n r"
  shows "ring_queue (ring_put e r) = tl (ring_queue r) @ [e]"
proof -
  obtain slots h where r: "r = (slots, h)" by (cases r)
  with assms have h: "h < length slots" by (simp add: ring_ok_def)
  have d: "drop h slots = slots ! h # drop (Suc h) slots" using h by (simp add: Cons_nth_drop_Suc)
  show ?thesis
  proof (cases "Suc h = length slots")
    case True
    then have "slots[h := e] = take h slots @ [e]" by (simp add: upd_conv_take_nth_drop)
    with True d r show ?thesis by (simp add: ring_queue_def ring_put_def)
  next
    case False
    with h have "Suc h mod length slots = Suc h" by simp
    with d r h show ?thesis by (simp add: ring_queue_def ring_put_def take_Suc_conv_app_nth)
  qed
qed

lemma ring_queue_puts:
  "ring_ok n r \<Longrightarrow> length es \<le> n \<Longrightarrow> ring_queue (fold ring_put es r) = drop (length es) (ring_queue r) @ es"
proof (induction es arbitrary: r)
  case Nil
  then show ?case by simp
next
  case (Cons e es)
  have ok: "ring_ok n (ring_put e r)" by (rule ring_ok_put [OF Cons.prems(1)])
  have "length es \<le> length (tl (ring_queue r))" using Cons.prems length_ring_queue [of n r] by simp
  with Cons.IH [OF ok] Cons.prems show ?case
    by (simp add: ring_queue_put [OF Cons.prems(1)] drop_Suc)
qed

section \<open>The dedup contract\<close>

locale dedup_ring =
  fixes used :: "'e \<Rightarrow> bool" and key :: "'e \<Rightarrow> 'k" and mk :: "'k \<Rightarrow> 'e" and n :: nat
  assumes used_mk: "used (mk k)" and key_mk: "key (mk k) = k" and n_pos: "0 < n"
begin

text \<open>Inserting a key makes it seen at once.\<close>

lemma seen_put: "ring_ok n r \<Longrightarrow> ring_seen used key (fst (ring_put (mk k) r)) k"
proof -
  assume ok: "ring_ok n r"
  have "mk k \<in> set (ring_queue (ring_put (mk k) r))" by (simp add: ring_queue_put [OF ok])
  then have "mk k \<in> set (fst (ring_put (mk k) r))" by (metis prod.collapse set_ring_queue)
  then show ?thesis using used_mk key_mk by (auto simp: ring_seen_def)
qed

text \<open>It stays seen while fewer than \<open>n\<close> further keys are inserted.\<close>

lemma seen_window:
  assumes "ring_ok n r" and "length ks < n"
  shows "ring_seen used key (fst (fold ring_put (map mk ks) (ring_put (mk k) r))) k"
proof -
  have ok: "ring_ok n (ring_put (mk k) r)" by (rule ring_ok_put [OF assms(1)])
  let ?r = "fold ring_put (map mk ks) (ring_put (mk k) r)"
  have "ring_queue ?r = drop (length ks) (tl (ring_queue r) @ [mk k]) @ map mk ks"
    using assms(2) by (simp add: ring_queue_puts [OF ok] ring_queue_put [OF assms(1)])
  moreover have "length ks \<le> length (tl (ring_queue r))" using assms length_ring_queue [of n r] by simp
  ultimately have "mk k \<in> set (ring_queue ?r)" by simp
  then have "mk k \<in> set (fst ?r)" by (metis prod.collapse set_ring_queue)
  then show ?thesis using used_mk key_mk by (auto simp: ring_seen_def)
qed

text \<open>Nothing is seen that was not inserted.\<close>

lemma seen_only_inserted:
  "ring_seen used key (fst (ring_put (mk k) r)) k' \<Longrightarrow> k' = k \<or> ring_seen used key (fst r) k'"
  using key_mk by (cases r) (auto simp: ring_seen_def ring_put_def dest!: subsetD [OF set_update_subset_insert])

end

end
