(* ===== verification/Forwarder.thy ===== *)
theory Forwarder
  imports Router Dedup_Ring
begin

text \<open>
  \<^verbatim>\<open>lib/mesh/forwarder.h/.cpp\<close>: the relay decision. A packet that arrives is delivered, forwarded or
  dropped; a ring of 64 entries remembers the packets already handled. The forwarder asks the router
  for a next hop, which the model passes as the function \<open>nh\<close>; the locale \<open>next_hop_oracle\<close> states
  what the forwarder relies on there, and the router's model provides it.
\<close>

section \<open>State and decisions\<close>

record packet_ref =
  pr_src :: node_id
  pr_dst :: node_id
  pr_pkt_id :: u16
  pr_ttl :: u8

datatype action = DELIVER | FORWARD | DROP_OWN | DROP_DUP | DROP_TTL | DROP_NO_ROUTE

record decision =
  d_action :: action
  d_next_hop :: node_id
  d_out_ttl :: u8

definition SEEN_CACHE_SIZE :: nat where "SEEN_CACHE_SIZE = 64"

record seen_entry =
  se_src :: node_id
  se_pkt_id :: u16
  se_used :: bool

record forwarder =
  fw_me :: node_id
  fw_seen :: "seen_entry list"
  fw_head :: nat

definition Forwarder_init :: "node_id \<Rightarrow> forwarder" where
  "Forwarder_init me = \<lparr>fw_me = me,
     fw_seen = replicate SEEN_CACHE_SIZE \<lparr>se_src = nid_zero, se_pkt_id = 0, se_used = False\<rparr>, fw_head = 0\<rparr>"

section \<open>Operations\<close>

definition seen_or_insert :: "forwarder \<Rightarrow> node_id \<Rightarrow> u16 \<Rightarrow> bool \<times> forwarder" where
  "seen_or_insert f src pkt_id =
     (if \<exists>e\<in>set (fw_seen f). se_used e \<and> se_src e = src \<and> se_pkt_id e = pkt_id then (True, f)
      else (False, f\<lparr>fw_seen := (fw_seen f)[fw_head f := \<lparr>se_src = src, se_pkt_id = pkt_id, se_used = True\<rparr>],
                     fw_head := (fw_head f + 1) mod SEEN_CACHE_SIZE\<rparr>))"

definition mark_seen :: "forwarder \<Rightarrow> node_id \<Rightarrow> u16 \<Rightarrow> forwarder" where
  "mark_seen f src pkt_id = snd (seen_or_insert f src pkt_id)"

definition drop_with :: "action \<Rightarrow> decision" where
  "drop_with a = \<lparr>d_action = a, d_next_hop = nid_zero, d_out_ttl = 0\<rparr>"

definition decide :: "(node_id \<Rightarrow> node_id) \<Rightarrow> forwarder \<Rightarrow> packet_ref \<Rightarrow> decision \<times> forwarder" where
  "decide nh f p =
     (if pr_src p = fw_me f then (drop_with DROP_OWN, f)
      else
        let (dup, f') = seen_or_insert f (pr_src p) (pr_pkt_id p) in
        if dup then (drop_with DROP_DUP, f')
        else if pr_dst p = fw_me f \<or> pr_dst p = NODE_ID_BROADCAST then (drop_with DELIVER, f')
        else if pr_ttl p \<le> 1 then (drop_with DROP_TTL, f')
        else if is_zero (nh (pr_dst p)) then (drop_with DROP_NO_ROUTE, f')
        else (\<lparr>d_action = FORWARD, d_next_hop = nh (pr_dst p), d_out_ttl = pr_ttl p - 1\<rparr>, f'))"

section \<open>The seen-cache as a dedup ring\<close>

definition se_key :: "seen_entry \<Rightarrow> node_id \<times> u16" where
  "se_key e = (se_src e, se_pkt_id e)"

definition se_mk :: "node_id \<times> u16 \<Rightarrow> seen_entry" where
  "se_mk k = \<lparr>se_src = fst k, se_pkt_id = snd k, se_used = True\<rparr>"

definition fw_ring :: "forwarder \<Rightarrow> seen_entry list \<times> nat" where
  "fw_ring f = (fw_seen f, fw_head f)"

definition fw_inv :: "forwarder \<Rightarrow> bool" where
  "fw_inv f \<longleftrightarrow> ring_ok SEEN_CACHE_SIZE (fw_ring f)"

definition fw_has :: "forwarder \<Rightarrow> node_id \<times> u16 \<Rightarrow> bool" where
  "fw_has f k \<longleftrightarrow> ring_seen se_used se_key (fw_seen f) k"

interpretation seen: dedup_ring se_used se_key se_mk SEEN_CACHE_SIZE
  by unfold_locales (auto simp: se_mk_def se_key_def SEEN_CACHE_SIZE_def)

lemma fw_inv_init: "fw_inv (Forwarder_init me)"
  by (simp add: fw_inv_def fw_ring_def Forwarder_init_def ring_ok_def SEEN_CACHE_SIZE_def)

lemma seen_or_insert_fst: "fst (seen_or_insert f s i) = fw_has f (s, i)"
  by (auto simp: seen_or_insert_def fw_has_def ring_seen_def se_key_def)

lemma seen_or_insert_ring:
  assumes "fw_inv f"
  shows "fw_ring (snd (seen_or_insert f s i)) = (if fw_has f (s, i) then fw_ring f else ring_put (se_mk (s, i)) (fw_ring f))"
  using assms by (auto simp: seen_or_insert_def fw_has_def ring_seen_def se_key_def fw_ring_def ring_put_def
      se_mk_def fw_inv_def ring_ok_def)

lemma seen_or_insert_me [simp]: "fw_me (snd (seen_or_insert f s i)) = fw_me f"
  by (simp add: seen_or_insert_def)

lemma fw_inv_seen_or_insert [inv_intros]: "fw_inv f \<Longrightarrow> fw_inv (snd (seen_or_insert f s i))"
  using seen_or_insert_ring [of f s i] by (simp add: fw_inv_def ring_ok_put)

lemma decide_snd: "snd (decide nh f p) = (if pr_src p = fw_me f then f else snd (seen_or_insert f (pr_src p) (pr_pkt_id p)))"
  by (simp add: decide_def split: prod.splits)

lemma decide_action:
  "d_action (fst (decide nh f p)) =
     (if pr_src p = fw_me f then DROP_OWN
      else if fw_has f (pr_src p, pr_pkt_id p) then DROP_DUP
      else if pr_dst p = fw_me f \<or> pr_dst p = NODE_ID_BROADCAST then DELIVER
      else if pr_ttl p \<le> 1 then DROP_TTL
      else if is_zero (nh (pr_dst p)) then DROP_NO_ROUTE else FORWARD)"
  using seen_or_insert_fst [of f "pr_src p" "pr_pkt_id p"]
  by (cases "seen_or_insert f (pr_src p) (pr_pkt_id p)") (auto simp: decide_def drop_with_def)

lemma decide_forward:
  "d_action (fst (decide nh f p)) = FORWARD \<Longrightarrow>
     fst (decide nh f p) = \<lparr>d_action = FORWARD, d_next_hop = nh (pr_dst p), d_out_ttl = pr_ttl p - 1\<rparr>
     \<and> 1 < pr_ttl p \<and> \<not> is_zero (nh (pr_dst p)) \<and> pr_dst p \<noteq> fw_me f"
  by (auto simp: decide_def drop_with_def split: prod.splits if_splits)

section \<open>A sequence of arrivals\<close>

text \<open>Each arrival comes with the routing answers of its time.\<close>

definition decide_all :: "((node_id \<Rightarrow> node_id) \<times> packet_ref) list \<Rightarrow> forwarder \<Rightarrow> forwarder" where
  "decide_all = fold (\<lambda>(nh, p) f. snd (decide nh f p))"

lemma decide_all_keeps: "fw_inv f \<Longrightarrow> fw_inv (decide_all ps f) \<and> fw_me (decide_all ps f) = fw_me f"
proof (induction ps arbitrary: f)
  case Nil
  then show ?case by (simp add: decide_all_def)
next
  case (Cons x ps)
  have "fw_inv (snd (decide (fst x) f (snd x)))" "fw_me (snd (decide (fst x) f (snd x))) = fw_me f"
    using Cons.prems by (simp_all add: decide_snd inv_intros)
  with Cons.IH [of "snd (decide (fst x) f (snd x))"] show ?case by (simp add: decide_all_def split_beta)
qed

lemma decide_all_ring:
  "fw_inv f \<Longrightarrow> \<exists>ks. fw_ring (decide_all ps f) = fold ring_put (map se_mk ks) (fw_ring f) \<and> length ks \<le> length ps"
proof (induction ps arbitrary: f)
  case Nil
  then show ?case by (auto simp: decide_all_def intro!: exI [of _ "[]"])
next
  case (Cons x ps)
  let ?f = "snd (decide (fst x) f (snd x))"
  have "fw_inv ?f" using Cons.prems by (simp add: decide_snd inv_intros)
  from Cons.IH [OF this] obtain ks where ks: "length ks \<le> length ps"
      "fw_ring (decide_all ps ?f) = fold ring_put (map se_mk ks) (fw_ring ?f)" by blast
  have step: "fw_ring ?f = fw_ring f \<or> (\<exists>k. fw_ring ?f = ring_put (se_mk k) (fw_ring f))"
    using seen_or_insert_ring [OF Cons.prems, of "pr_src (snd x)" "pr_pkt_id (snd x)"]
    by (auto simp: decide_snd)
  have all: "decide_all (x # ps) f = decide_all ps ?f" by (simp add: decide_all_def split_beta)
  from step show ?case
  proof
    assume "fw_ring ?f = fw_ring f"
    with ks show ?thesis unfolding all by (intro exI [of _ ks]) simp
  next
    assume "\<exists>k. fw_ring ?f = ring_put (se_mk k) (fw_ring f)"
    then obtain k where "fw_ring ?f = ring_put (se_mk k) (fw_ring f)" ..
    with ks show ?thesis unfolding all by (intro exI [of _ "k # ks"]) simp
  qed
qed

text \<open>
  Storm control by deduplication: once a packet of another node has been handled for the first
  time, every later copy of it (same source and packet id, whatever its destination, TTL or the routing
  state) is dropped as a duplicate, as long as fewer than 64 other packets arrived in between.
\<close>

theorem duplicate_dropped:
  assumes "fw_inv f" and "d_action (fst (decide nh f p)) \<notin> {DROP_OWN, DROP_DUP}"
    and "length between < SEEN_CACHE_SIZE"
    and "pr_src p' = pr_src p" and "pr_pkt_id p' = pr_pkt_id p"
  shows "d_action (fst (decide nh' (decide_all between (snd (decide nh f p))) p')) = DROP_DUP"
proof -
  let ?k = "(pr_src p, pr_pkt_id p)" and ?g = "snd (decide nh f p)"
  let ?h = "decide_all between ?g"
  have new: "pr_src p \<noteq> fw_me f" "\<not> fw_has f ?k" using assms(2) by (auto simp: decide_action split: if_splits)
  have g: "fw_inv ?g" "fw_me ?g = fw_me f" using assms(1) by (simp_all add: decide_snd inv_intros)
  obtain ks where "fw_ring ?h = fold ring_put (map se_mk ks) (fw_ring ?g)" "length ks \<le> length between"
    using decide_all_ring [OF g(1)] by blast
  moreover have "fw_ring ?g = ring_put (se_mk ?k) (fw_ring f)"
    using new seen_or_insert_ring [OF assms(1)] by (simp add: decide_snd)
  ultimately have "ring_seen se_used se_key (fst (fw_ring ?h)) ?k"
    using seen.seen_window [of "fw_ring f" ks ?k] assms(1,3) by (simp add: fw_inv_def)
  then have "fw_has ?h (pr_src p', pr_pkt_id p')" using assms(4,5) by (simp add: fw_has_def fw_ring_def)
  with new(1) assms(4) decide_all_keeps [OF g(1)] g(2) show ?thesis by (simp add: decide_action)
qed

definition fw_packet :: packet_ref where
  "fw_packet = \<lparr>pr_src = nid_from_u32 2, pr_dst = nid_from_u32 3, pr_pkt_id = 7, pr_ttl = 16\<rparr>"

theorem duplicate_dropped_witness:
  "d_action (fst (decide (\<lambda>d. nid_from_u32 4) (Forwarder_init (nid_from_u32 1)) fw_packet)) = FORWARD
   \<and> d_action (fst (decide (\<lambda>d. d) (decide_all [(\<lambda>d. d, fw_packet\<lparr>pr_pkt_id := 8\<rparr>)]
        (snd (decide (\<lambda>d. nid_from_u32 4) (Forwarder_init (nid_from_u32 1)) fw_packet)))
        (fw_packet\<lparr>pr_ttl := 3\<rparr>))) = DROP_DUP"
proof -
  have a: "d_action (fst (decide (\<lambda>d. nid_from_u32 4) (Forwarder_init (nid_from_u32 1)) fw_packet)) = FORWARD"
    by code_simp
  then show ?thesis
    by (intro conjI a duplicate_dropped fw_inv_init) (simp_all add: SEEN_CACHE_SIZE_def)
qed

section \<open>The path of a packet\<close>

text \<open>The relays a packet passes, each with its routing answers and its own seen-cache; a relay stamps
  the decremented TTL.\<close>

fun relayed :: "((node_id \<Rightarrow> node_id) \<times> forwarder) list \<Rightarrow> packet_ref \<Rightarrow> packet_ref option" where
  "relayed [] p = Some p"
| "relayed ((nh, f) # path) p =
     (let d = fst (decide nh f p) in
      if d_action d = FORWARD then relayed path (p\<lparr>pr_ttl := d_out_ttl d\<rparr>) else None)"

text \<open>
  C24. Storm control by hop limit: a packet that is relayed along any path of nodes, whatever their
  routing tables say and even if it loops, loses one from its TTL at each relay, so it is relayed fewer
  times than its initial TTL, and nothing but the TTL changes.
\<close>

theorem ttl_bounds_relays:
  assumes "relayed path p = Some q" and "path \<noteq> []"
  shows "length path < unat (pr_ttl p) \<and> unat (pr_ttl q) = unat (pr_ttl p) - length path
    \<and> q = p\<lparr>pr_ttl := pr_ttl q\<rparr>"
  using assms
proof (induction path arbitrary: p)
  case Nil
  then show ?case by simp
next
  case (Cons x path)
  obtain nh f where x: "x = (nh, f)" by (cases x)
  let ?d = "fst (decide nh f p)" and ?p = "p\<lparr>pr_ttl := pr_ttl p - 1\<rparr>"
  have fwd: "d_action ?d = FORWARD" using Cons.prems by (auto simp: x Let_def split: if_splits)
  then have d: "d_out_ttl ?d = pr_ttl p - 1" "1 < pr_ttl p" using decide_forward [OF fwd] by simp_all
  have ttl: "unat (pr_ttl p - 1) = unat (pr_ttl p) - 1" "1 < unat (pr_ttl p)"
    using d(2) by (simp_all add: word_less_nat_alt unat_sub word_le_nat_alt)
  have rest: "relayed path ?p = Some q" using Cons.prems(1) fwd d(1) by (simp add: x Let_def)
  show ?case
  proof (cases "path = []")
    case True
    with rest ttl show ?thesis by auto
  next
    case False
    from Cons.IH [OF rest False] ttl show ?thesis by (cases p; cases q) auto
  qed
qed

theorem ttl_bounds_relays_witness:
  "relayed [(\<lambda>d. nid_from_u32 4, Forwarder_init (nid_from_u32 1)), (\<lambda>d. d, Forwarder_init (nid_from_u32 4))] fw_packet
     = Some (fw_packet\<lparr>pr_ttl := 14\<rparr>) \<and> 2 < unat (pr_ttl fw_packet)"
proof -
  have r: "relayed [(\<lambda>d. nid_from_u32 4, Forwarder_init (nid_from_u32 1)), (\<lambda>d. d, Forwarder_init (nid_from_u32 4))]
      fw_packet = Some (fw_packet\<lparr>pr_ttl := 14\<rparr>)" by code_simp
  from ttl_bounds_relays [OF r] r show ?thesis by simp
qed

section \<open>The interface to the router\<close>

locale next_hop_oracle =
  fixes answer :: "'r \<Rightarrow> node_id \<Rightarrow> node_id" and self :: "'r \<Rightarrow> node_id"
    and shut :: "'r \<Rightarrow> node_id \<Rightarrow> bool" and valid :: "'r \<Rightarrow> bool"
  assumes answer_not_self: "valid r \<Longrightarrow> d \<noteq> self r \<Longrightarrow> answer r d \<noteq> self r"
    and answer_open: "valid r \<Longrightarrow> d \<noteq> self r \<Longrightarrow> \<not> shut r (answer r d)"
begin

text \<open>A forwarded frame goes to another node over an open link, one hop closer to the end of its life.\<close>

lemma forward_sound:
  assumes "valid r" and "fw_me f = self r" and "d_action (fst (decide (answer r) f p)) = FORWARD"
  shows "d_next_hop (fst (decide (answer r) f p)) = answer r (pr_dst p)
    \<and> \<not> is_zero (answer r (pr_dst p)) \<and> answer r (pr_dst p) \<noteq> self r \<and> \<not> shut r (answer r (pr_dst p))"
  using decide_forward [OF assms(3)] answer_not_self [OF assms(1)] answer_open [OF assms(1)] assms(2) by simp

end

lemma router_answers:
  assumes "router_reachable (ro_my_id r) r \<and> \<not> is_zero (ro_my_id r)" and "d \<noteq> ro_my_id r"
  shows "next_hop r d \<noteq> ro_my_id r" "\<not> is_blocked r (next_hop r d)"
  using next_hop_foreign [of "ro_my_id r" r d] assms by auto

interpretation route: next_hop_oracle next_hop ro_my_id is_blocked
  "\<lambda>r. router_reachable (ro_my_id r) r \<and> \<not> is_zero (ro_my_id r)"
  by unfold_locales (use router_answers in auto)

text \<open>A decision records at most the packet it is about.\<close>

lemma fw_has_step:
  assumes "fw_has (snd (decide nh f p)) k"
  shows "fw_has f k \<or> pr_src p \<noteq> fw_me f \<and> k = (pr_src p, pr_pkt_id p)"
proof -
  have "se_key e = (pr_src p, pr_pkt_id p)"
    if "e \<in> set (fw_seen (snd (seen_or_insert f (pr_src p) (pr_pkt_id p))))" "e \<notin> set (fw_seen f)" for e
    using that by (auto simp: seen_or_insert_def se_key_def split: if_splits dest!: subsetD [OF set_update_subset_insert])
  then show ?thesis using assms by (auto simp: decide_snd fw_has_def ring_seen_def split: if_splits)
qed

text \<open>
  C9. What the forwarder does with a packet, over the routes of any router the node can reach, exactly: it
  drops the node's own packets and those in the cache; of the others it delivers what is addressed to it
  or broadcast, drops what has a TTL below 2 or a destination without a route, and relays the rest, with
  the TTL lowered by one, to a next hop that is neither zero, nor the node itself, nor a blocked link. A
  packet that is new enters the cache and nothing else does: every later copy of it, whatever its
  destination, TTL and the routes then, is dropped as a duplicate while fewer than 64 other packets have
  arrived in between.
\<close>

theorem decide_correct:
  assumes "router_reachable me r" and "\<not> is_zero me" and "fw_inv f" and "fw_me f = me"
    and "decide (next_hop r) f p = (dec, f')"
    and "new \<longleftrightarrow> pr_src p \<noteq> me \<and> \<not> fw_has f (pr_src p, pr_pkt_id p)"
    and "mine \<longleftrightarrow> pr_dst p \<in> {me, NODE_ID_BROADCAST}"
  shows "(d_action dec = DROP_OWN \<longleftrightarrow> pr_src p = me)
    \<and> (d_action dec = DROP_DUP \<longleftrightarrow> pr_src p \<noteq> me \<and> fw_has f (pr_src p, pr_pkt_id p))
    \<and> (d_action dec = DELIVER \<longleftrightarrow> new \<and> mine)
    \<and> (d_action dec = DROP_TTL \<longleftrightarrow> new \<and> \<not> mine \<and> pr_ttl p < 2)
    \<and> (d_action dec = DROP_NO_ROUTE \<longleftrightarrow> new \<and> \<not> mine \<and> 2 \<le> pr_ttl p \<and> next_hop r (pr_dst p) = nid_zero)
    \<and> (d_action dec = FORWARD \<longleftrightarrow> new \<and> \<not> mine \<and> 2 \<le> pr_ttl p \<and> next_hop r (pr_dst p) \<noteq> nid_zero)
    \<and> (d_action dec = FORWARD \<longrightarrow> d_out_ttl dec = pr_ttl p - 1 \<and> d_next_hop dec = next_hop r (pr_dst p)
         \<and> d_next_hop dec \<noteq> me \<and> \<not> is_blocked r (d_next_hop dec))
    \<and> fw_inv f' \<and> fw_me f' = me
    \<and> (\<forall>k. fw_has f' k \<longrightarrow> fw_has f k \<or> pr_src p \<noteq> me \<and> k = (pr_src p, pr_pkt_id p))
    \<and> (new \<and> length between < SEEN_CACHE_SIZE \<longrightarrow>
         d_action (fst (decide nh (decide_all between f') (p\<lparr>pr_dst := d2, pr_ttl := t2\<rparr>))) = DROP_DUP)"
proof -
  have D: "dec = fst (decide (next_hop r) f p)" "f' = snd (decide (next_hop r) f p)" using assms(5) by simp_all
  have me: "ro_my_id r = me" using router_reachable_inv [OF assms(1)] by simp
  have ttl: "pr_ttl p \<le> 1 \<longleftrightarrow> pr_ttl p < 2" "2 \<le> pr_ttl p \<longleftrightarrow> \<not> pr_ttl p \<le> 1"
    by (auto simp: word_less_nat_alt word_le_nat_alt)
  note act = decide_action [of "next_hop r" f p, folded D, unfolded assms(4)]
  have "d_action (fst (decide nh (decide_all between f') (p\<lparr>pr_dst := d2, pr_ttl := t2\<rparr>))) = DROP_DUP"
    if "new" "length between < SEEN_CACHE_SIZE"
    unfolding D using assms(3) _ that(2)
    by (rule duplicate_dropped) (use that(1) assms(4,6) in \<open>simp_all add: decide_action\<close>)
  moreover have "d_out_ttl dec = pr_ttl p - 1 \<and> d_next_hop dec = next_hop r (pr_dst p)
         \<and> d_next_hop dec \<noteq> me \<and> \<not> is_blocked r (d_next_hop dec)" if "d_action dec = FORWARD"
    using route.forward_sound [of r f p] decide_forward [of "next_hop r" f p] that assms(1,2,4) me by (simp add: D)
  moreover have "fw_inv f' \<and> fw_me f' = me" using assms(3,4) by (simp add: D decide_snd inv_intros)
  moreover have "\<forall>k. fw_has f' k \<longrightarrow> fw_has f k \<or> pr_src p \<noteq> me \<and> k = (pr_src p, pr_pkt_id p)"
    using fw_has_step [of "next_hop r" f p] assms(4) by (auto simp: D)
  moreover have "(d_action dec = DROP_OWN \<longleftrightarrow> pr_src p = me)
    \<and> (d_action dec = DROP_DUP \<longleftrightarrow> pr_src p \<noteq> me \<and> fw_has f (pr_src p, pr_pkt_id p))
    \<and> (d_action dec = DELIVER \<longleftrightarrow> new \<and> mine)
    \<and> (d_action dec = DROP_TTL \<longleftrightarrow> new \<and> \<not> mine \<and> pr_ttl p < 2)
    \<and> (d_action dec = DROP_NO_ROUTE \<longleftrightarrow> new \<and> \<not> mine \<and> 2 \<le> pr_ttl p \<and> next_hop r (pr_dst p) = nid_zero)
    \<and> (d_action dec = FORWARD \<longleftrightarrow> new \<and> \<not> mine \<and> 2 \<le> pr_ttl p \<and> next_hop r (pr_dst p) \<noteq> nid_zero)"
    unfolding act assms(6,7) is_zero_iff ttl(1)[symmetric] ttl(2) by auto
  ultimately show ?thesis by blast
qed

theorem decide_correct_witness:
  "d_next_hop (fst (decide (next_hop (on_beacon (Router_init (nid_from_u32 1)) (nid_from_u32 2) 1 beacon_example 7))
      (Forwarder_init (nid_from_u32 1)) (fw_packet\<lparr>pr_src := nid_from_u32 5, pr_dst := nid_from_u32 2\<rparr>)))
   = next_hop (on_beacon (Router_init (nid_from_u32 1)) (nid_from_u32 2) 1 beacon_example 7) (nid_from_u32 2)"
proof -
  let ?r = "on_beacon (Router_init (nid_from_u32 1)) (nid_from_u32 2) 1 beacon_example 7"
  let ?p = "fw_packet\<lparr>pr_src := nid_from_u32 5, pr_dst := nid_from_u32 2\<rparr>"
  have z: "\<not> is_zero (nid_from_u32 1)" by code_simp
  have me: "fw_me (Forwarder_init (nid_from_u32 1)) = nid_from_u32 1" by (simp add: Forwarder_init_def)
  have "d_action (fst (decide (next_hop ?r) (Forwarder_init (nid_from_u32 1)) ?p)) = FORWARD" by code_simp
  then show ?thesis
    using decide_correct [OF beacon_example_reachable z fw_inv_init me prod.collapse [symmetric] refl refl, of ?p] by simp
qed

end
