(* ===== verification/Link_Arq.thy ===== *)
theory Link_Arq
  imports Mesh_Types
begin

text \<open>
  \<^verbatim>\<open>lib/mesh/link_arq.h/.cpp\<close>: hop-by-hop acknowledgement with a small number of retries. Four slots
  remember frames that wait for a link-layer ACK; \<^verbatim>\<open>tick\<close> retransmits those whose timer has run out and
  gives up on those without retries left.

  The retransmission callback only enqueues the frame, so \<^verbatim>\<open>tick\<close> returns the frames it hands to it, in
  order. A slot's buffer with its length is a byte list.
\<close>

section \<open>State\<close>

definition ARQ_MAX_PENDING :: nat where "ARQ_MAX_PENDING = 4"
definition ARQ_MAX_RETRIES :: u8 where "ARQ_MAX_RETRIES = 5"
definition ARQ_TIMEOUT_MS :: u32 where "ARQ_TIMEOUT_MS = 5000"
definition ARQ_FRAME_MAX :: nat where "ARQ_FRAME_MAX = 255"

record pending =
  pd_used :: bool
  pd_seq :: u8
  pd_next_hop :: node_id
  pd_retries_left :: u8
  pd_next_tx_ms :: u32
  pd_timeout_ms :: u32
  pd_frame :: bytes

definition Pending_init :: pending where
  "Pending_init = \<lparr>pd_used = False, pd_seq = 0, pd_next_hop = nid_zero, pd_retries_left = 0,
     pd_next_tx_ms = 0, pd_timeout_ms = 0, pd_frame = []\<rparr>"

record link_arq =
  aq_slots :: "pending list"
  aq_seq_ctr :: u8
  aq_acked :: u32
  aq_dropped :: u32

definition LinkArq_init :: link_arq where
  "LinkArq_init = \<lparr>aq_slots = replicate ARQ_MAX_PENDING Pending_init, aq_seq_ctr = 0, aq_acked = 0, aq_dropped = 0\<rparr>"

section \<open>Operations\<close>

text \<open>The loop \<^verbatim>\<open>do { seq_ctr_++; } while (seq_ctr_ == 0)\<close>.\<close>

function next_ctr :: "u8 \<Rightarrow> u8" where
  "next_ctr c = (if c + 1 = 0 then next_ctr (c + 1) else c + 1)"
  by auto
termination
  by (relation "measure (\<lambda>c :: u8. if c + 1 = 0 then 1 else 0)") auto

definition next_seq :: "link_arq \<Rightarrow> u8 \<times> link_arq" where
  "next_seq a = (let c = next_ctr (aq_seq_ctr a) in (c, a\<lparr>aq_seq_ctr := c\<rparr>))"

definition track :: "link_arq \<Rightarrow> u8 \<Rightarrow> node_id \<Rightarrow> bytes \<Rightarrow> u32 \<Rightarrow> u32 \<Rightarrow> u8 \<Rightarrow> bool \<times> link_arq" where
  "track a link_seq nxt frame now timeout max_retries =
     (if ARQ_FRAME_MAX < length frame then (False, a)
      else case find_idx (\<lambda>p. \<not> pd_used p) (aq_slots a) of
        None \<Rightarrow> (False, a)
      | Some i \<Rightarrow> (True, a\<lparr>aq_slots := (aq_slots a)[i :=
          \<lparr>pd_used = True, pd_seq = link_seq, pd_next_hop = nxt, pd_retries_left = max_retries,
           pd_next_tx_ms = now + timeout, pd_timeout_ms = timeout, pd_frame = frame\<rparr>]\<rparr>))"

definition on_ack :: "link_arq \<Rightarrow> u8 \<Rightarrow> bool \<times> link_arq" where
  "on_ack a link_seq =
     (case find_idx (\<lambda>p. pd_used p \<and> pd_seq p = link_seq) (aq_slots a) of
        None \<Rightarrow> (False, a)
      | Some i \<Rightarrow> (True, a\<lparr>aq_slots := upd_at i (\<lambda>p. p\<lparr>pd_used := False\<rparr>) (aq_slots a),
                           aq_acked := aq_acked a + 1\<rparr>))"

text \<open>One slot of the \<^verbatim>\<open>tick\<close> loop: the slot afterwards, the frames handed to the callback and the number
  of frames given up.\<close>

definition tick_slot :: "u32 \<Rightarrow> pending \<Rightarrow> pending \<times> bytes list \<times> nat" where
  "tick_slot now p =
     (if \<not> pd_used p then (p, [], 0)
      else if before32 now (pd_next_tx_ms p) then (p, [], 0)
      else if pd_retries_left p = 0 then (p\<lparr>pd_used := False\<rparr>, [], 1)
      else (p\<lparr>pd_retries_left := pd_retries_left p - 1, pd_next_tx_ms := now + pd_timeout_ms p\<rparr>, [pd_frame p], 0))"

fun tick_slots :: "u32 \<Rightarrow> pending list \<Rightarrow> pending list \<times> bytes list \<times> nat" where
  "tick_slots now [] = ([], [], 0)"
| "tick_slots now (p # ps) =
     (let (p', fs, n) = tick_slot now p; (ps', fs', n') = tick_slots now ps in (p' # ps', fs @ fs', n + n'))"

definition arq_tick :: "link_arq \<Rightarrow> u32 \<Rightarrow> nat \<times> bytes list \<times> link_arq" where
  "arq_tick a now =
     (let (ps, fs, n) = tick_slots now (aq_slots a)
      in (n, fs, a\<lparr>aq_slots := ps, aq_dropped := aq_dropped a + of_nat n\<rparr>))"

definition pending_count :: "link_arq \<Rightarrow> nat" where
  "pending_count a = count_if pd_used (aq_slots a)"

section \<open>Sequence numbers\<close>

lemma u8_succ_zero: "(c :: u8) + 1 = 0 \<longleftrightarrow> c = 255"
proof -
  have "(- 1 :: u8) = 255" by code_simp
  then show ?thesis using eq_neg_iff_add_eq_0 [of c 1] by metis
qed

lemma next_ctr_eq: "next_ctr c = (if c = 255 then 1 else c + 1)"
proof (cases "c = 255")
  case True
  have "next_ctr 255 = 1" by code_simp
  with True show ?thesis by (simp del: next_ctr.simps)
next
  case False
  then show ?thesis by (subst next_ctr.simps) (simp add: u8_succ_zero)
qed

declare next_ctr.simps [simp del]

lemma next_ctr_nonzero: "next_ctr c \<noteq> 0"
  by (simp add: next_ctr_eq u8_succ_zero)

lemma unat_next_ctr: "c \<noteq> 0 \<Longrightarrow> unat (next_ctr c) - 1 = (unat c - 1 + 1) mod 255"
proof -
  assume "c \<noteq> 0"
  then have c: "0 < unat c" "unat c < 256" using unsigned_less [of c] by (simp_all add: unat_gt_0)
  show ?thesis
  proof (cases "c = 255")
    case True
    then show ?thesis by (simp add: next_ctr_eq)
  next
    case False
    then have "unat c \<noteq> 255" by (metis of_nat_unat ucast_id of_nat_numeral)
    with c False show ?thesis by (simp add: next_ctr_eq unat_plus_if')
  qed
qed

lemma unat_next_ctr_funpow: "c \<noteq> 0 \<Longrightarrow> unat ((next_ctr ^^ k) c) - 1 = (unat c - 1 + k) mod 255"
proof (induction k)
  case 0
  have "unat c < 256" using unsigned_less [of c] by simp
  then show ?case using 0 by (simp add: unat_gt_0)
next
  case (Suc k)
  have "(next_ctr ^^ k) c \<noteq> 0" using Suc.prems next_ctr_nonzero by (cases k) simp_all
  from unat_next_ctr [OF this] Suc show ?case by (simp add: mod_simps)
qed

text \<open>
  Link sequence numbers are usable as ARQ keys: the reserved value 0 is never issued, and 255
  consecutive calls issue 255 different numbers, whatever the counter was.
\<close>

theorem next_seq_fresh:
  "fst (next_seq a) \<noteq> 0 \<and> aq_seq_ctr (snd (next_seq a)) = fst (next_seq a)
   \<and> distinct (map (\<lambda>k. fst (next_seq (((\<lambda>a. snd (next_seq a)) ^^ k) a))) [0..<255])"
proof -
  have ctr: "aq_seq_ctr (((\<lambda>a. snd (next_seq a)) ^^ k) a) = (next_ctr ^^ k) (aq_seq_ctr a)" for k
    by (induction k) (simp_all add: next_seq_def Let_def)
  let ?c = "next_ctr (aq_seq_ctr a)"
  have nth: "fst (next_seq (((\<lambda>a. snd (next_seq a)) ^^ k) a)) = (next_ctr ^^ k) ?c" for k
    using ctr [of k] by (simp add: next_seq_def Let_def funpow_swap1)
  have "inj_on (\<lambda>k. (next_ctr ^^ k) ?c) {0..<255}"
  proof (rule inj_onI)
    fix i j :: nat assume ij: "i \<in> {0..<255}" "j \<in> {0..<255}" and eq: "(next_ctr ^^ i) ?c = (next_ctr ^^ j) ?c"
    have "(unat ?c - 1 + i) mod 255 = (unat ?c - 1 + j) mod 255"
      using unat_next_ctr_funpow [OF next_ctr_nonzero, of i] unat_next_ctr_funpow [OF next_ctr_nonzero, of j] eq
      by metis
    with ij show "i = j" by (auto intro: mod_shift_inj)
  qed
  then show ?thesis by (simp add: nth distinct_map) (simp add: next_seq_def next_ctr_nonzero Let_def)
qed

section \<open>Slots and counters\<close>

definition arq_inv :: "link_arq \<Rightarrow> bool" where
  "arq_inv a \<longleftrightarrow> length (aq_slots a) = ARQ_MAX_PENDING \<and> (\<forall>p\<in>set (aq_slots a). length (pd_frame p) \<le> ARQ_FRAME_MAX)"

lemma tick_slots_map:
  "fst (tick_slots now ps) = map (\<lambda>p. fst (tick_slot now p)) ps"
  "fst (snd (tick_slots now ps)) = concat (map (\<lambda>p. fst (snd (tick_slot now p))) ps)"
  "snd (snd (tick_slots now ps)) = sum_list (map (\<lambda>p. snd (snd (tick_slot now p))) ps)"
  by (induction ps) (auto simp: split_beta)

lemma tick_slot_used:
  "(if pd_used p then 1 else 0) = (if pd_used (fst (tick_slot now p)) then 1 else 0) + snd (snd (tick_slot now p))"
  by (simp add: tick_slot_def)

lemma tick_slots_count:
  "count_if pd_used ps = count_if pd_used (fst (tick_slots now ps)) + snd (snd (tick_slots now ps))"
proof (induction ps)
  case Nil
  then show ?case by (simp add: count_if_def)
next
  case (Cons p ps)
  then show ?case using tick_slot_used [of p now]
    by (auto simp: count_if_def split_beta split: if_splits)
qed

lemma tick_slot_frame [simp]: "pd_frame (fst (tick_slot now p)) = pd_frame p"
  by (simp add: tick_slot_def)

lemma arq_tick_fields:
  "aq_slots (snd (snd (arq_tick a now))) = map (\<lambda>p. fst (tick_slot now p)) (aq_slots a)"
  "fst (snd (arq_tick a now)) = concat (map (\<lambda>p. fst (snd (tick_slot now p))) (aq_slots a))"
  by (simp_all add: arq_tick_def split_beta tick_slots_map Let_def)

section \<open>Accounting\<close>

datatype arq_op =
  Op_seq
| Op_track u8 node_id bytes u32 u32 u8
| Op_ack u8
| Op_tick u32

fun arq_step :: "arq_op \<Rightarrow> link_arq \<Rightarrow> link_arq" where
  "arq_step Op_seq a = snd (next_seq a)"
| "arq_step (Op_track s nxt fr now tmo r) a = snd (track a s nxt fr now tmo r)"
| "arq_step (Op_ack s) a = snd (on_ack a s)"
| "arq_step (Op_tick now) a = snd (snd (arq_tick a now))"

fun accepted :: "arq_op \<Rightarrow> link_arq \<Rightarrow> nat" where
  "accepted (Op_track s nxt fr now tmo r) a = (if fst (track a s nxt fr now tmo r) then 1 else 0)"
| "accepted _ a = 0"

fun arq_accepted :: "arq_op list \<Rightarrow> link_arq \<Rightarrow> nat" where
  "arq_accepted [] a = 0"
| "arq_accepted (x # ops) a = accepted x a + arq_accepted ops (arq_step x a)"

definition arq_balance :: "link_arq \<Rightarrow> u32" where
  "arq_balance a = aq_acked a + aq_dropped a + of_nat (pending_count a)"

lemma pending_count_claim:
  assumes "find_idx (\<lambda>p. \<not> pd_used p) ps = Some i" and "pd_used e"
  shows "count_if pd_used (ps[i := e]) = count_if pd_used ps + 1"
  using count_if_update [OF find_idx_lt [OF assms(1)], of pd_used e] find_idx_sat [OF assms(1)] assms(2) by simp

lemma pending_count_release:
  assumes "find_idx (\<lambda>p. pd_used p \<and> pd_seq p = s) ps = Some i"
  shows "count_if pd_used (upd_at i (\<lambda>p. p\<lparr>pd_used := False\<rparr>) ps) + 1 = count_if pd_used ps"
  using count_if_update [OF find_idx_lt [OF assms], of pd_used "(ps ! i)\<lparr>pd_used := False\<rparr>"]
    find_idx_sat [OF assms] find_idx_lt [OF assms] by (simp add: upd_at_def)

lemma arq_balance_step: "arq_balance (arq_step x a) = arq_balance a + of_nat (accepted x a)"
proof (cases x)
  case Op_seq
  then show ?thesis by (simp add: arq_balance_def next_seq_def pending_count_def Let_def)
next
  case (Op_track s nxt fr now tmo r)
  then show ?thesis
    by (auto simp: arq_balance_def track_def pending_count_def pending_count_claim split: option.splits)
next
  case (Op_ack s)
  show ?thesis
  proof (cases "find_idx (\<lambda>p. pd_used p \<and> pd_seq p = s) (aq_slots a)")
    case None
    with Op_ack show ?thesis by (simp add: arq_balance_def on_ack_def)
  next
    case (Some i)
    from pending_count_release [OF Some] have
      "of_nat (count_if pd_used (aq_slots a)) =
        of_nat (count_if pd_used (upd_at i (\<lambda>p. p\<lparr>pd_used := False\<rparr>) (aq_slots a))) + (1 :: u32)"
      by (metis of_nat_1 of_nat_add)
    with Op_ack Some show ?thesis by (simp add: arq_balance_def on_ack_def pending_count_def)
  qed
next
  case (Op_tick now)
  have "of_nat (count_if pd_used (aq_slots a)) = of_nat (count_if pd_used (fst (tick_slots now (aq_slots a))))
      + (of_nat (snd (snd (tick_slots now (aq_slots a)))) :: u32)"
    using tick_slots_count [of "aq_slots a" now] by (metis of_nat_add)
  with Op_tick show ?thesis by (simp add: arq_balance_def arq_tick_def pending_count_def split_beta Let_def)
qed

lemma arq_inv_step: "arq_inv a \<Longrightarrow> arq_inv (arq_step x a)"
proof (cases x)
  case (Op_ack s)
  moreover assume "arq_inv a"
  ultimately show ?thesis
    by (auto simp: arq_inv_def on_ack_def dest!: subsetD [OF set_upd_at_subset] split: option.splits)
qed (auto simp: arq_inv_def next_seq_def track_def arq_tick_fields Let_def
      dest!: subsetD [OF set_update_subset_insert] split: option.splits)

lemma arq_run:
  "arq_inv a \<Longrightarrow> arq_inv (fold arq_step ops a)
     \<and> arq_balance (fold arq_step ops a) = arq_balance a + of_nat (arq_accepted ops a)"
  by (induction ops arbitrary: a) (simp_all add: arq_inv_step arq_balance_step)

text \<open>
  Frames are neither lost nor counted twice: after any sequence of operations, the frames accepted
  for tracking are exactly the acknowledged, the given-up and the still pending ones (counted modulo
  \<open>2 ^ 32\<close>, the width of the statistics), at most four are pending, and no slot holds more than its
  buffer.
\<close>

theorem arq_conservation:
  "of_nat (arq_accepted ops LinkArq_init) =
     aq_acked (fold arq_step ops LinkArq_init) + aq_dropped (fold arq_step ops LinkArq_init)
       + of_nat (pending_count (fold arq_step ops LinkArq_init))
   \<and> pending_count (fold arq_step ops LinkArq_init) \<le> 4 \<and> arq_inv (fold arq_step ops LinkArq_init)"
proof -
  have "arq_inv LinkArq_init" by (simp add: arq_inv_def LinkArq_init_def Pending_init_def ARQ_MAX_PENDING_def)
  note run = arq_run [OF this, of ops]
  have "arq_balance LinkArq_init = 0"
    by (simp add: arq_balance_def LinkArq_init_def pending_count_def count_if_def Pending_init_def)
  moreover have "pending_count (fold arq_step ops LinkArq_init) \<le> 4"
    using run count_if_le [of pd_used "aq_slots (fold arq_step ops LinkArq_init)"]
    by (simp add: pending_count_def arq_inv_def ARQ_MAX_PENDING_def)
  ultimately show ?thesis using run by (simp add: arq_balance_def)
qed

section \<open>Tracking\<close>

text \<open>A frame is kept in a slot that was free, and dropped silently when none is.\<close>

lemma track_slots:
  assumes "length frame \<le> ARQ_FRAME_MAX"
    and "p = \<lparr>pd_used = True, pd_seq = s, pd_next_hop = nh, pd_retries_left = m, pd_next_tx_ms = now + t, pd_timeout_ms = t, pd_frame = frame\<rparr>"
  shows "\<exists>x\<in>set (aq_slots a). \<not> pd_used x \<Longrightarrow>
      \<exists>i<length (aq_slots a). \<not> pd_used (aq_slots a ! i) \<and> aq_slots (snd (track a s nh frame now t m)) = (aq_slots a)[i := p]"
    and "\<forall>x\<in>set (aq_slots a). pd_used x \<Longrightarrow> snd (track a s nh frame now t m) = a"
proof -
  show "\<exists>i<length (aq_slots a). \<not> pd_used (aq_slots a ! i) \<and> aq_slots (snd (track a s nh frame now t m)) = (aq_slots a)[i := p]"
    if free: "\<exists>x\<in>set (aq_slots a). \<not> pd_used x"
  proof -
    from free have "find_idx (\<lambda>x. \<not> pd_used x) (aq_slots a) \<noteq> None" by (auto simp: find_idx_None_iff)
    then obtain i where i: "find_idx (\<lambda>x. \<not> pd_used x) (aq_slots a) = Some i" by blast
    show ?thesis using find_idx_lt [OF i] find_idx_sat [OF i] assms by (intro exI [of _ i]) (simp add: track_def i)
  qed
  show "snd (track a s nh frame now t m) = a" if "\<forall>x\<in>set (aq_slots a). pd_used x"
  proof -
    have "find_idx (\<lambda>x. \<not> pd_used x) (aq_slots a) = None" using that by (auto simp: find_idx_None_iff)
    then show ?thesis using assms by (simp add: track_def)
  qed
qed

lemma next_seq_slots [simp]: "aq_slots (snd (next_seq a)) = aq_slots a"
  by (simp add: next_seq_def Let_def)

section \<open>Retries\<close>

definition arq_ticks :: "u32 list \<Rightarrow> link_arq \<Rightarrow> link_arq" where
  "arq_ticks ts a = fold (\<lambda>t a. snd (snd (arq_tick a t))) ts a"

text \<open>The frames slot \<open>i\<close> contributes to the retransmissions of a series of ticks.\<close>

fun slot_sends :: "nat \<Rightarrow> u32 list \<Rightarrow> link_arq \<Rightarrow> bytes list" where
  "slot_sends i [] a = []"
| "slot_sends i (t # ts) a = fst (snd (tick_slot t (aq_slots a ! i))) @ slot_sends i ts (snd (snd (arq_tick a t)))"

text \<open>Each tick comes when the timer armed by the previous one has run out.\<close>

fun due :: "u32 \<Rightarrow> u32 \<Rightarrow> u32 list \<Rightarrow> bool" where
  "due next_tx timeout [] = True"
| "due next_tx timeout (t # ts) \<longleftrightarrow> \<not> before32 t next_tx \<and> due (t + timeout) timeout ts"

lemma arq_ticks_Cons: "arq_ticks (t # ts) a = arq_ticks ts (snd (snd (arq_tick a t)))"
  by (simp add: arq_ticks_def)

lemma slot_after_tick:
  "i < length (aq_slots a) \<Longrightarrow> aq_slots (snd (snd (arq_tick a t))) ! i = fst (tick_slot t (aq_slots a ! i))"
  by (simp add: arq_tick_fields)

lemma length_after_tick [simp]: "length (aq_slots (snd (snd (arq_tick a t)))) = length (aq_slots a)"
  by (simp add: arq_tick_fields)

lemma unused_slot_silent:
  "i < length (aq_slots a) \<Longrightarrow> \<not> pd_used (aq_slots a ! i) \<Longrightarrow>
     slot_sends i ts a = [] \<and> \<not> pd_used (aq_slots (arq_ticks ts a) ! i)"
proof (induction ts arbitrary: a)
  case Nil
  then show ?case by (simp add: arq_ticks_def)
next
  case (Cons t ts)
  have "tick_slot t (aq_slots a ! i) = (aq_slots a ! i, [], 0)" using Cons.prems by (simp add: tick_slot_def)
  with Cons.IH [of "snd (snd (arq_tick a t))"] Cons.prems show ?case
    by (simp add: arq_ticks_Cons slot_after_tick)
qed

lemma unat_pred: "(w :: u8) \<noteq> 0 \<Longrightarrow> unat (w - 1) = unat w - 1"
  by (simp add: unat_minus_one)

lemma slot_sends_bound:
  "i < length (aq_slots a) \<Longrightarrow>
     \<exists>n. slot_sends i ts a = replicate n (pd_frame (aq_slots a ! i)) \<and> n \<le> unat (pd_retries_left (aq_slots a ! i))"
proof (induction ts arbitrary: a)
  case Nil
  then show ?case by simp
next
  case (Cons t ts)
  let ?p = "aq_slots a ! i" and ?a = "snd (snd (arq_tick a t))"
  obtain n where n: "slot_sends i ts ?a = replicate n (pd_frame (fst (tick_slot t ?p)))"
      "n \<le> unat (pd_retries_left (fst (tick_slot t ?p)))"
    using Cons.IH [of ?a] Cons.prems by (auto simp: slot_after_tick)
  show ?case
  proof (cases "pd_used ?p \<and> \<not> before32 t (pd_next_tx_ms ?p) \<and> pd_retries_left ?p \<noteq> 0")
    case True
    then have "tick_slot t ?p = (?p\<lparr>pd_retries_left := pd_retries_left ?p - 1,
        pd_next_tx_ms := t + pd_timeout_ms ?p\<rparr>, [pd_frame ?p], 0)" by (simp add: tick_slot_def)
    moreover have "0 < unat (pd_retries_left ?p)" using True by (simp add: unat_gt_0)
    ultimately show ?thesis using n True by (intro exI [of _ "Suc n"]) (simp add: unat_pred)
  next
    case False
    then have "fst (snd (tick_slot t ?p)) = [] \<and> pd_retries_left (fst (tick_slot t ?p)) = pd_retries_left ?p"
      by (auto simp: tick_slot_def)
    with n show ?thesis by auto
  qed
qed

lemma slot_sends_due:
  "i < length (aq_slots a) \<Longrightarrow> pd_used (aq_slots a ! i) \<Longrightarrow>
   due (pd_next_tx_ms (aq_slots a ! i)) (pd_timeout_ms (aq_slots a ! i)) ts \<Longrightarrow>
     slot_sends i ts a = replicate (min (length ts) (unat (pd_retries_left (aq_slots a ! i)))) (pd_frame (aq_slots a ! i))
     \<and> (pd_used (aq_slots (arq_ticks ts a) ! i) \<longleftrightarrow> length ts \<le> unat (pd_retries_left (aq_slots a ! i)))"
proof (induction ts arbitrary: a)
  case Nil
  then show ?case by (simp add: arq_ticks_def)
next
  case (Cons t ts)
  let ?p = "aq_slots a ! i" and ?a = "snd (snd (arq_tick a t))"
  have len: "i < length (aq_slots ?a)" using Cons.prems by simp
  show ?case
  proof (cases "pd_retries_left ?p = 0")
    case True
    then have "tick_slot t ?p = (?p\<lparr>pd_used := False\<rparr>, [], 1)" using Cons.prems by (simp add: tick_slot_def)
    then have "\<not> pd_used (aq_slots ?a ! i)" "fst (snd (tick_slot t ?p)) = []"
      using Cons.prems by (simp_all add: slot_after_tick)
    with unused_slot_silent [OF len] True show ?thesis by (simp add: arq_ticks_Cons)
  next
    case False
    then have ts: "tick_slot t ?p = (?p\<lparr>pd_retries_left := pd_retries_left ?p - 1,
        pd_next_tx_ms := t + pd_timeout_ms ?p\<rparr>, [pd_frame ?p], 0)" using Cons.prems by (simp add: tick_slot_def)
    then have slot: "aq_slots ?a ! i = ?p\<lparr>pd_retries_left := pd_retries_left ?p - 1, pd_next_tx_ms := t + pd_timeout_ms ?p\<rparr>"
      using Cons.prems by (simp add: slot_after_tick)
    moreover have "0 < unat (pd_retries_left ?p)" using False by (simp add: unat_gt_0)
    ultimately show ?thesis using Cons.IH [OF len] Cons.prems ts unat_pred [OF False]
      by (cases "unat (pd_retries_left ?p)") (auto simp: arq_ticks_Cons)
  qed
qed

text \<open>
  C25. Retransmission is bounded and complete: whatever the tick times, a tracked frame is retransmitted
  at most \<open>retries\<close> times and always verbatim. When each tick comes after the timer has run out and no
  ACK arrives, it is retransmitted at every tick until the retries are used up, and the next tick gives it
  up, so its slot is free again after exactly one tick more than there were retries.
\<close>

theorem arq_retry_exact:
  assumes "i < length (aq_slots a)" and "pd_used (aq_slots a ! i)"
    and "unat (pd_retries_left (aq_slots a ! i)) = r" and "pd_frame (aq_slots a ! i) = frame"
  shows "(\<exists>n\<le>r. slot_sends i ts a = replicate n frame)
    \<and> (due (pd_next_tx_ms (aq_slots a ! i)) (pd_timeout_ms (aq_slots a ! i)) ts \<longrightarrow>
         slot_sends i ts a = replicate (min (length ts) r) frame
         \<and> (pd_used (aq_slots (arq_ticks ts a) ! i) \<longleftrightarrow> length ts \<le> r))"
  using slot_sends_bound [OF assms(1), of ts] slot_sends_due [OF assms(1,2), of ts] assms(3,4) by auto

definition arq_example :: link_arq where
  "arq_example = snd (track LinkArq_init 1 (nid_from_u32 2) [7, 8, 9] 0xFFFFFF00 ARQ_TIMEOUT_MS 2)"

theorem arq_retry_exact_witness:
  "slot_sends 0 [4744, 9744, 14744] arq_example = [[7, 8, 9], [7, 8, 9]]
   \<and> \<not> pd_used (aq_slots (arq_ticks [4744, 9744, 14744] arq_example) ! 0)"
proof -
  have "0 < length (aq_slots arq_example)" "pd_used (aq_slots arq_example ! 0)"
    "unat (pd_retries_left (aq_slots arq_example ! 0)) = 2" "pd_frame (aq_slots arq_example ! 0) = [7, 8, 9]"
    "due (pd_next_tx_ms (aq_slots arq_example ! 0)) (pd_timeout_ms (aq_slots arq_example ! 0)) [4744, 9744, 14744]"
    by code_simp+
  with arq_retry_exact [of 0 arq_example 2 "[7, 8, 9]" "[4744, 9744, 14744]"] show ?thesis
    by (simp add: numeral_2_eq_2)
qed

text \<open>
  An ACK stops exactly one frame: it is accepted when some pending frame carries its sequence number,
  frees the first such slot, leaves every other slot as it was and counts one acknowledgement; from then
  on no tick retransmits from the freed slot. An unknown or repeated ACK changes nothing.
\<close>

theorem ack_stops_retransmission:
  assumes "on_ack a s = (ok, a')"
  shows "(ok \<longleftrightarrow> (\<exists>p\<in>set (aq_slots a). pd_used p \<and> pd_seq p = s))
    \<and> (\<not> ok \<longrightarrow> a' = a)
    \<and> (ok \<longrightarrow> aq_acked a' = aq_acked a + 1 \<and>
         (\<exists>i<length (aq_slots a). pd_used (aq_slots a ! i) \<and> pd_seq (aq_slots a ! i) = s
            \<and> (\<forall>ts. slot_sends i ts a' = [])
            \<and> (\<forall>j<length (aq_slots a). j \<noteq> i \<longrightarrow> aq_slots a' ! j = aq_slots a ! j)))"
proof (cases "find_idx (\<lambda>p. pd_used p \<and> pd_seq p = s) (aq_slots a)")
  case None
  then have "\<not> (\<exists>p\<in>set (aq_slots a). pd_used p \<and> pd_seq p = s)" by (auto simp: find_idx_None_iff)
  with None assms show ?thesis by (simp add: on_ack_def)
next
  case (Some i)
  note lt = find_idx_lt [OF Some] and sat = find_idx_sat [OF Some]
  have a': "ok" "a' = a\<lparr>aq_slots := upd_at i (\<lambda>p. p\<lparr>pd_used := False\<rparr>) (aq_slots a), aq_acked := aq_acked a + 1\<rparr>"
    using assms Some by (auto simp: on_ack_def)
  have "i < length (aq_slots a')" "\<not> pd_used (aq_slots a' ! i)" using lt by (simp_all add: a' nth_upd_at)
  then have "\<forall>ts. slot_sends i ts a' = []" using unused_slot_silent by blast
  moreover have "\<forall>j<length (aq_slots a). j \<noteq> i \<longrightarrow> aq_slots a' ! j = aq_slots a ! j"
    by (simp add: a' nth_upd_at)
  moreover have "\<exists>p\<in>set (aq_slots a). pd_used p \<and> pd_seq p = s" using lt sat nth_mem by blast
  ultimately show ?thesis using a' lt sat by auto
qed

theorem ack_stops_retransmission_witness:
  "fst (on_ack arq_example 1) \<and> aq_acked (snd (on_ack arq_example 1)) = 1"
proof -
  have ok: "fst (on_ack arq_example 1)" by code_simp
  moreover have "aq_acked arq_example = 0" by code_simp
  ultimately show ?thesis
    using ack_stops_retransmission [OF prod.collapse [symmetric, of "on_ack arq_example 1"]] by simp
qed

end
