(* ===== verification/Sar.thy ===== *)
theory Sar
  imports Wire_Codec
begin

text \<open>
  \<^verbatim>\<open>lib/mesh/sar.h/.cpp\<close>: segmentation and reassembly. A blob is cut into fragments of 160 bytes; the
  reassembler collects them in any order into a fixed buffer and checks a CRC-32 over the whole. NACK
  messages name the missing fragments, a DONE message confirms a verified transfer.

  Reads and writes outside a buffer are the value \<open>None\<close> of \<open>add\<close>.
\<close>

section \<open>CRC-32\<close>

definition crc_bit :: "u32 \<Rightarrow> u32" where
  "crc_bit crc = drop_bit 1 crc XOR (0xEDB88320 AND (- (crc AND 1)))"

definition crc_byte :: "u32 \<Rightarrow> u8 \<Rightarrow> u32" where
  "crc_byte crc b = (crc_bit ^^ 8) (crc XOR ucast b)"

definition sar_crc32 :: "bytes \<Rightarrow> u32" where
  "sar_crc32 data = NOT (foldl crc_byte 0xFFFFFFFF data)"

section \<open>Fragments\<close>

definition SAR_HDR_BYTES :: nat where "SAR_HDR_BYTES = 18"
definition SAR_CHUNK :: nat where "SAR_CHUNK = 160"
definition SAR_MAX_FILE :: nat where "SAR_MAX_FILE = 8192"
definition SAR_MAX_FRAGS :: nat where "SAR_MAX_FRAGS = (SAR_MAX_FILE + SAR_CHUNK - 1) div SAR_CHUNK + 1"

lemmas sar_sizes = SAR_HDR_BYTES_def SAR_CHUNK_def SAR_MAX_FILE_def SAR_MAX_FRAGS_def

definition SAR_MAGIC :: bytes where "SAR_MAGIC = [0x53, 0x41, 0x52, 0x31]"

text \<open>The count is computed in \<^verbatim>\<open>uint32_t\<close> and returned as \<^verbatim>\<open>uint16_t\<close>.\<close>

definition sar_frag_count :: "u32 \<Rightarrow> u16" where
  "sar_frag_count len = ucast ((len + 160 - 1) div 160)"

definition sar_is_fragment :: "bytes \<Rightarrow> bool" where
  "sar_is_fragment payload \<longleftrightarrow> SAR_HDR_BYTES \<le> length payload \<and> take 4 payload = SAR_MAGIC"

definition sar_off :: "u16 \<Rightarrow> u32" where
  "sar_off idx = ucast idx * 160"

text \<open>\<open>None\<close> is the result 0 (index out of range, or the output buffer is too small).\<close>

definition sar_build_fragment :: "bytes \<Rightarrow> u16 \<Rightarrow> u32 \<Rightarrow> u16 \<Rightarrow> nat \<Rightarrow> bytes option" where
  "sar_build_fragment blob xfer_id crc idx out_cap =
     (let len = of_nat (length blob) :: u32; count = sar_frag_count len in
      if count \<le> idx then None
      else
        let off = sar_off idx;
            chunk = (if len - off < 160 then ucast (len - off) else 160) :: u16
        in if out_cap < SAR_HDR_BYTES + unat chunk then None
           else Some (SAR_MAGIC @ put_u16 xfer_id @ put_u16 idx @ put_u16 count @ put_u32 len @ put_u32 crc
                      @ take (unat chunk) (drop (unat off) blob)))"

section \<open>Reassembler\<close>

record sar_reassembler =
  sr_active :: bool
  sr_xfer_id :: u16
  sr_frag_count :: u16
  sr_total_len :: u32
  sr_total_crc :: u32
  sr_got_count :: u16
  sr_got :: "bool list"
  sr_buf :: bytes

definition SarReassembler_init :: sar_reassembler where
  "SarReassembler_init = \<lparr>sr_active = False, sr_xfer_id = 0, sr_frag_count = 0, sr_total_len = 0,
     sr_total_crc = 0, sr_got_count = 0, sr_got = replicate SAR_MAX_FRAGS False, sr_buf = replicate SAR_MAX_FILE 0\<rparr>"

definition wr_bytes :: "bytes \<Rightarrow> nat \<Rightarrow> bytes \<Rightarrow> bytes option" where
  "wr_bytes buf off bs =
     (if off + length bs \<le> length buf then Some (take off buf @ bs @ drop (off + length bs) buf) else None)"

text \<open>The transfer the fragment belongs to, or \<open>None\<close> for a header that contradicts the one in flight.\<close>

definition sar_join :: "sar_reassembler \<Rightarrow> u16 \<Rightarrow> u16 \<Rightarrow> u32 \<Rightarrow> u32 \<Rightarrow> sar_reassembler option" where
  "sar_join r xfer count tlen tcrc =
     (if \<not> sr_active r \<or> xfer \<noteq> sr_xfer_id r then
        Some (r\<lparr>sr_active := True, sr_xfer_id := xfer, sr_frag_count := count, sr_total_len := tlen,
                sr_total_crc := tcrc, sr_got_count := 0, sr_got := replicate SAR_MAX_FRAGS False\<rparr>)
      else if count \<noteq> sr_frag_count r \<or> tlen \<noteq> sr_total_len r \<or> tcrc \<noteq> sr_total_crc r then None
      else Some r)"

definition sar_mark :: "sar_reassembler \<Rightarrow> nat \<Rightarrow> sar_reassembler" where
  "sar_mark r idx =
     (if \<not> sr_got r ! idx
      then r\<lparr>sr_got := (sr_got r)[idx := True], sr_got_count := sr_got_count r + 1\<rparr> else r)"

text \<open>The checks on a header (untrusted radio input): counts and lengths in range, and the fragment
  count and the chunk size exactly what the blob length implies.\<close>

definition sar_expect :: "u16 \<Rightarrow> u16 \<Rightarrow> u32 \<Rightarrow> u16" where
  "sar_expect idx count tlen = (if idx = count - 1 then ucast (tlen - sar_off idx) else 160)"

definition sar_hdr_ok :: "u16 \<Rightarrow> u16 \<Rightarrow> u32 \<Rightarrow> u16 \<Rightarrow> bool" where
  "sar_hdr_ok idx count tlen chunk \<longleftrightarrow>
     \<not> (count = 0 \<or> SAR_MAX_FRAGS < unat count \<or> 8192 < tlen \<or> count \<le> idx)
     \<and> count = sar_frag_count tlen \<and> chunk = sar_expect idx count tlen"

definition sar_add :: "bytes \<Rightarrow> sar_reassembler \<Rightarrow> (bool \<times> sar_reassembler) option" where
  "sar_add payload r =
     (if \<not> sar_is_fragment payload then Some (False, r)
      else do {
        xfer \<leftarrow> rd16 payload 4;
        idx \<leftarrow> rd16 payload 6;
        count \<leftarrow> rd16 payload 8;
        tlen \<leftarrow> rd32 payload 10;
        tcrc \<leftarrow> rd32 payload 14;
        let chunk = (of_nat (length payload - SAR_HDR_BYTES) :: u16);
        if \<not> sar_hdr_ok idx count tlen chunk then Some (False, r)
        else case sar_join r xfer count tlen tcrc of
          None \<Rightarrow> Some (False, r)
        | Some r' \<Rightarrow>
            if SAR_MAX_FILE < unat (sar_off idx) + unat chunk then Some (False, r')
            else do {
              data \<leftarrow> rdn payload SAR_HDR_BYTES (unat chunk);
              buf \<leftarrow> wr_bytes (sr_buf r') (unat (sar_off idx)) data;
              if unat idx < length (sr_got r')
              then Some (True, sar_mark (r'\<lparr>sr_buf := buf\<rparr>) (unat idx))
              else None } })"

definition sar_missing :: "sar_reassembler \<Rightarrow> nat \<Rightarrow> u16 list" where
  "sar_missing r cap =
     (if \<not> sr_active r then []
      else take cap (map of_nat (filter (\<lambda>i. \<not> sr_got r ! i) [0..<unat (sr_frag_count r)])))"

definition sar_complete :: "sar_reassembler \<Rightarrow> bool" where
  "sar_complete r \<longleftrightarrow> sr_active r \<and> sr_got_count r = sr_frag_count r"

definition sar_verify :: "sar_reassembler \<Rightarrow> bool" where
  "sar_verify r \<longleftrightarrow> sar_complete r \<and> sar_crc32 (take (unat (sr_total_len r)) (sr_buf r)) = sr_total_crc r"

definition sar_reset :: "sar_reassembler \<Rightarrow> sar_reassembler" where
  "sar_reset r = r\<lparr>sr_active := False, sr_got_count := 0\<rparr>"

section \<open>Missing-fragment requests and completion\<close>

definition SAR_NACK_HDR :: nat where "SAR_NACK_HDR = 8"
definition SAR_NMAGIC :: bytes where "SAR_NMAGIC = [0x53, 0x41, 0x52, 0x4E]"
definition SAR_DONE_BYTES :: nat where "SAR_DONE_BYTES = 6"
definition SAR_DMAGIC :: bytes where "SAR_DMAGIC = [0x53, 0x41, 0x52, 0x44]"

definition sar_is_nack :: "bytes \<Rightarrow> bool" where
  "sar_is_nack payload \<longleftrightarrow> SAR_NACK_HDR \<le> length payload \<and> take 4 payload = SAR_NMAGIC"

definition sar_build_nack :: "u16 \<Rightarrow> u16 list \<Rightarrow> nat \<Rightarrow> bytes option" where
  "sar_build_nack xfer_id missing out_cap =
     (if out_cap < SAR_NACK_HDR then None
      else
        let ms = take ((out_cap - SAR_NACK_HDR) div 2) missing
        in Some (SAR_NMAGIC @ put_u16 xfer_id @ put_u16 (of_nat (length ms)) @ concat (map put_u16 ms)))"

fun rd16s :: "nat \<Rightarrow> bytes \<Rightarrow> nat \<Rightarrow> u16 list option" where
  "rd16s 0 bs off = Some []"
| "rd16s (Suc n) bs off = do { v \<leftarrow> rd16 bs off; vs \<leftarrow> rd16s n bs (off + 2); Some (v # vs) }"

text \<open>\<open>Some None\<close>: not a NACK (result 0); otherwise the transfer id and the indices written to \<^verbatim>\<open>out\<close>.\<close>

definition sar_parse_nack :: "bytes \<Rightarrow> nat \<Rightarrow> (u16 \<times> u16 list) option option" where
  "sar_parse_nack payload cap =
     (if \<not> sar_is_nack payload then Some None
      else do {
        xfer \<leftarrow> rd16 payload 4;
        n16 \<leftarrow> rd16 payload 6;
        let n = unat n16;
        let n = (if length payload < SAR_NACK_HDR + n * 2 then (length payload - SAR_NACK_HDR) div 2 else n);
        let n = (if cap < n then cap else n);
        ms \<leftarrow> rd16s n payload SAR_NACK_HDR;
        Some (Some (xfer, ms)) })"

definition sar_is_done :: "bytes \<Rightarrow> bool" where
  "sar_is_done payload \<longleftrightarrow> SAR_DONE_BYTES \<le> length payload \<and> take 4 payload = SAR_DMAGIC"

definition sar_build_done :: "u16 \<Rightarrow> nat \<Rightarrow> bytes option" where
  "sar_build_done xfer_id out_cap =
     (if out_cap < SAR_DONE_BYTES then None else Some (SAR_DMAGIC @ put_u16 xfer_id))"

definition sar_parse_done :: "bytes \<Rightarrow> u16 option" where
  "sar_parse_done payload = (if \<not> sar_is_done payload then Some 0xFFFF else rd16 payload 4)"

section \<open>Arithmetic of fragments\<close>

text \<open>In numbers: fragment \<open>i\<close> of a blob of \<open>T\<close> bytes.\<close>

definition frag_total :: "nat \<Rightarrow> nat" where
  "frag_total T = (T + 159) div 160"

definition frag_len :: "nat \<Rightarrow> nat \<Rightarrow> nat" where
  "frag_len T i = min 160 (T - i * 160)"

lemma frag_bounds: "i < frag_total T \<Longrightarrow> i * 160 < T \<and> i * 160 + frag_len T i \<le> T \<and> 0 < frag_len T i"
  unfolding frag_total_def frag_len_def by (simp add: min_def) linarith

lemma frag_last: "i < frag_total T \<Longrightarrow> frag_len T i = (if Suc i = frag_total T then T - i * 160 else 160)"
  unfolding frag_total_def frag_len_def by (simp add: min_def) linarith

lemma frag_total_bound: "T \<le> 8192 \<Longrightarrow> frag_total T \<le> 52"
  unfolding frag_total_def by simp

lemma frag_cover: "j < T \<Longrightarrow> \<exists>i<frag_total T. i * 160 \<le> j \<and> j < i * 160 + frag_len T i"
proof -
  assume "j < T"
  moreover have "j div 160 * 160 \<le> j" "j < j div 160 * 160 + 160" by simp_all
  ultimately show ?thesis unfolding frag_total_def frag_len_def
    by (intro exI [of _ "j div 160"]) (auto simp: min_def)
qed

lemma unat_sar_off: "unat (sar_off idx) = unat idx * 160"
proof -
  have "unat idx < 65536" using unsigned_less [of idx] by simp
  moreover from this have "unat (ucast idx :: u32) = unat idx"
    by (simp add: unsigned_ucast_eq take_bit_nat_eq_self)
  ultimately show ?thesis by (simp add: sar_off_def unat_word_ariths)
qed

lemma unat_sar_frag_count: "unat t \<le> 8192 \<Longrightarrow> unat (sar_frag_count t) = frag_total (unat t)"
proof -
  assume t: "unat t \<le> 8192"
  have e: "t + 160 - 1 = t + 159" by simp
  have u: "unat (t + 159) = unat t + 159" using t by (simp add: unat_word_ariths)
  have "unat ((t + 160 - 1) div 160) = unat (t + 159) div unat (160 :: u32)" unfolding e by (rule unat_div)
  then have "unat ((t + 160 - 1) div 160) = frag_total (unat t)" unfolding u frag_total_def by simp
  then show ?thesis using frag_total_bound [OF t]
    by (simp add: sar_frag_count_def unsigned_ucast_eq take_bit_nat_eq_self)
qed

lemma unat_le_8192: "\<not> 8192 < (t :: u32) \<longleftrightarrow> unat t \<le> 8192"
  by (simp add: word_less_nat_alt not_less)

lemma sar_hdr_okD:
  assumes "sar_hdr_ok idx count tlen chunk"
  shows "unat tlen \<le> 8192" "unat count = frag_total (unat tlen)" "unat idx < frag_total (unat tlen)"
    "unat chunk = frag_len (unat tlen) (unat idx)"
proof -
  note h = assms [unfolded sar_hdr_ok_def]
  show T: "unat tlen \<le> 8192" using h unat_le_8192 by blast
  show N: "unat count = frag_total (unat tlen)" using h unat_sar_frag_count [OF T] by metis
  have "\<not> count \<le> idx" using h by blast
  then show I: "unat idx < frag_total (unat tlen)" using N by (simp add: word_le_nat_alt)
  have last: "idx = count - 1 \<longleftrightarrow> Suc (unat idx) = unat count"
  proof -
    have "count \<noteq> 0" using h by blast
    then have "unat (count - 1) = unat count - 1" by (rule unat_minus_one)
    moreover have "idx = count - 1 \<longleftrightarrow> unat idx = unat (count - 1)" by (simp add: word_unat_eq_iff)
    ultimately show ?thesis using I N by auto
  qed
  have "unat (tlen - sar_off idx) = unat tlen - unat idx * 160"
    using frag_bounds [OF I] by (simp add: unat_sub_if_size unat_sar_off)
  then have "unat (ucast (tlen - sar_off idx) :: u16) = unat tlen - unat idx * 160"
    using T by (simp add: unsigned_ucast_eq take_bit_nat_eq_self)
  then show "unat chunk = frag_len (unat tlen) (unat idx)"
    using h frag_last [OF I] last N by (simp add: sar_expect_def)
qed

section \<open>The reassembler's invariant\<close>

definition sar_got_set :: "sar_reassembler \<Rightarrow> nat set" where
  "sar_got_set r = {i. i < unat (sr_frag_count r) \<and> sr_got r ! i}"

definition sar_inv :: "sar_reassembler \<Rightarrow> bool" where
  "sar_inv r \<longleftrightarrow> length (sr_got r) = SAR_MAX_FRAGS \<and> length (sr_buf r) = SAR_MAX_FILE
     \<and> (sr_active r \<longrightarrow> unat (sr_total_len r) \<le> 8192
          \<and> unat (sr_frag_count r) = frag_total (unat (sr_total_len r))
          \<and> 0 < unat (sr_frag_count r) \<and> unat (sr_got_count r) = card (sar_got_set r))"

lemma sar_inv_init: "sar_inv SarReassembler_init"
  by (simp add: sar_inv_def SarReassembler_init_def)

lemma finite_sar_got_set [simp]: "finite (sar_got_set r)"
  by (simp add: sar_got_set_def)

lemma wr_bytes_some: "off + length bs \<le> length buf \<Longrightarrow> \<exists>buf'. wr_bytes buf off bs = Some buf' \<and> length buf' = length buf"
  by (simp add: wr_bytes_def)

lemma sar_join_inv:
  assumes "sar_inv r" "sar_join r xfer count tlen tcrc = Some r'" "sar_hdr_ok idx count tlen chunk"
  shows "sar_inv r'" "sr_active r'" "sr_frag_count r' = count" "sr_total_len r' = tlen" "sr_total_crc r' = tcrc"
    "sr_xfer_id r' = xfer" "sr_buf r' = sr_buf r"
proof -
  note h = sar_hdr_okD [OF assms(3)]
  have "{i. i < unat count \<and> replicate SAR_MAX_FRAGS False ! i} = {}"
    using h frag_total_bound by (force simp: sar_sizes)
  with assms(2) h assms(1) show "sar_inv r'"
    by (auto simp: sar_join_def sar_inv_def sar_got_set_def split: if_splits)
qed (use assms(2) in \<open>auto simp: sar_join_def split: if_splits\<close>)

lemma sar_mark_inv:
  assumes "sar_inv r" "sr_active r" "i < unat (sr_frag_count r)"
  shows "sar_inv (sar_mark r i)" "sar_got_set (sar_mark r i) = insert i (sar_got_set r)"
    "sr_active (sar_mark r i)" "sr_frag_count (sar_mark r i) = sr_frag_count r"
    "sr_total_len (sar_mark r i) = sr_total_len r" "sr_total_crc (sar_mark r i) = sr_total_crc r"
    "sr_xfer_id (sar_mark r i) = sr_xfer_id r" "sr_buf (sar_mark r i) = sr_buf r"
proof -
  have len: "i < length (sr_got r)"
    using assms frag_total_bound [of "unat (sr_total_len r)"] by (simp add: sar_inv_def sar_sizes)
  show set: "sar_got_set (sar_mark r i) = insert i (sar_got_set r)"
    using assms(3) len by (auto simp: sar_got_set_def sar_mark_def nth_list_update)
  show "sar_inv (sar_mark r i)"
  proof (cases "sr_got r ! i")
    case True
    then show ?thesis using assms(1) by (simp add: sar_mark_def)
  next
    case False
    have sub: "sar_got_set r \<subseteq> {..<unat (sr_frag_count r)}" by (auto simp: sar_got_set_def)
    have c: "unat (sr_got_count r) = card (sar_got_set r)" "unat (sr_frag_count r) \<le> 52"
      using assms frag_total_bound [of "unat (sr_total_len r)"] by (simp_all add: sar_inv_def)
    moreover have "card (sar_got_set r) \<le> unat (sr_frag_count r)" using card_mono [OF _ sub] by simp
    ultimately have "unat (sr_got_count r + 1) = Suc (card (sar_got_set r))" by (simp add: unat_word_ariths)
    moreover have "i \<notin> sar_got_set r" using False by (simp add: sar_got_set_def)
    ultimately show ?thesis using assms set False by (simp add: sar_inv_def) (simp add: sar_mark_def)
  qed
qed (simp_all add: sar_mark_def assms)

definition put_at :: "bytes \<Rightarrow> nat \<Rightarrow> bytes \<Rightarrow> bytes" where
  "put_at buf off bs = take off buf @ bs @ drop (off + length bs) buf"

lemma wr_bytes_put: "off + length bs \<le> length buf \<Longrightarrow> wr_bytes buf off bs = Some (put_at buf off bs)"
  by (simp add: wr_bytes_def put_at_def)

lemma length_put_at [simp]: "off + length bs \<le> length buf \<Longrightarrow> length (put_at buf off bs) = length buf"
  by (simp add: put_at_def)

lemma nth_put_at:
  "off + length bs \<le> length buf \<Longrightarrow> m < length buf \<Longrightarrow>
     put_at buf off bs ! m = (if off \<le> m \<and> m < off + length bs then bs ! (m - off) else buf ! m)"
  by (auto simp: put_at_def nth_append)

lemma sar_frag_size: "sar_is_fragment p \<Longrightarrow> 18 \<le> length p"
  by (simp add: sar_is_fragment_def sar_sizes)

text \<open>What an accepted fragment does.\<close>

lemma sar_add_accept:
  assumes inv: "sar_inv r" and frag: "sar_is_fragment p"
    and rd: "rd16 p 4 = Some xfer" "rd16 p 6 = Some idx" "rd16 p 8 = Some count" "rd32 p 10 = Some tlen" "rd32 p 14 = Some tcrc"
    and hdr: "sar_hdr_ok idx count tlen (of_nat (length p - SAR_HDR_BYTES))"
    and join: "sar_join r xfer count tlen tcrc = Some r'"
  shows "sar_add p r = Some (True, sar_mark (r'\<lparr>sr_buf :=
      put_at (sr_buf r) (unat idx * 160) (take (frag_len (unat tlen) (unat idx)) (drop 18 p))\<rparr>) (unat idx))"
    and "frag_len (unat tlen) (unat idx) \<le> length p - 18"
proof -
  let ?I = "unat idx" and ?T = "unat tlen" and ?ch = "of_nat (length p - SAR_HDR_BYTES) :: u16"
  note h = sar_hdr_okD [OF hdr] and b = frag_bounds [OF sar_hdr_okD(3) [OF hdr]]
  note j = sar_join_inv [OF inv join hdr]
  have "unat ?ch \<le> length p - SAR_HDR_BYTES" by (simp add: unsigned_of_nat take_bit_nat_less_eq_self)
  then show len: "frag_len ?T ?I \<le> length p - 18" using h(4) by (simp add: sar_sizes)
  have fit: "\<not> SAR_MAX_FILE < unat (sar_off idx) + unat ?ch"
    using h b by (simp add: unat_sar_off sar_sizes)
  have data: "rdn p SAR_HDR_BYTES (unat ?ch) = Some (take (frag_len ?T ?I) (drop 18 p))"
    using len sar_frag_size [OF frag] h(4) by (simp add: rdn_def sar_sizes)
  have wr: "wr_bytes (sr_buf r') (unat (sar_off idx)) (take (frag_len ?T ?I) (drop 18 p))
      = Some (put_at (sr_buf r) (?I * 160) (take (frag_len ?T ?I) (drop 18 p)))"
    unfolding unat_sar_off j(7) using h b len inv by (intro wr_bytes_put) (simp add: sar_inv_def sar_sizes)
  have got: "?I < length (sr_got r')"
    using h(1,3) frag_total_bound [OF h(1)] j(1) by (simp add: sar_inv_def sar_sizes)
  show "sar_add p r = Some (True, sar_mark (r'\<lparr>sr_buf :=
      put_at (sr_buf r) (?I * 160) (take (frag_len ?T ?I) (drop 18 p))\<rparr>) ?I)"
    unfolding sar_add_def using frag fit hdr join by (simp add: rd Let_def data wr got)
qed

lemma sar_add_cases:
  assumes "sar_inv r"
  shows "sar_add p r = Some (False, r) \<or>
    (\<exists>xfer idx count tlen tcrc r'. sar_is_fragment p \<and> rd16 p 4 = Some xfer \<and> rd16 p 6 = Some idx
       \<and> rd16 p 8 = Some count \<and> rd32 p 10 = Some tlen \<and> rd32 p 14 = Some tcrc
       \<and> sar_hdr_ok idx count tlen (of_nat (length p - SAR_HDR_BYTES))
       \<and> sar_join r xfer count tlen tcrc = Some r')"
proof (cases "sar_is_fragment p")
  case False
  then show ?thesis by (simp add: sar_add_def)
next
  case True
  then have len: "18 \<le> length p" by (rule sar_frag_size)
  then obtain xfer idx count tlen tcrc where rd: "rd16 p 4 = Some xfer" "rd16 p 6 = Some idx"
      "rd16 p 8 = Some count" "rd32 p 10 = Some tlen" "rd32 p 14 = Some tcrc" by (auto simp: rd_safe)
  show ?thesis
  proof (cases "sar_hdr_ok idx count tlen (of_nat (length p - SAR_HDR_BYTES)) \<and> sar_join r xfer count tlen tcrc \<noteq> None")
    case True
    then show ?thesis using \<open>sar_is_fragment p\<close> rd by blast
  next
    case False
    then show ?thesis using \<open>sar_is_fragment p\<close> by (auto simp: sar_add_def rd Let_def)
  qed
qed

lemma sar_complete_set:
  assumes "sar_inv r" shows "sar_complete r \<longleftrightarrow> sr_active r \<and> sar_got_set r = {..<unat (sr_frag_count r)}"
proof (cases "sr_active r")
  case True
  then have "unat (sr_got_count r) = card (sar_got_set r)" using assms by (simp add: sar_inv_def)
  then have c: "sr_got_count r = sr_frag_count r \<longleftrightarrow> card (sar_got_set r) = card {..<unat (sr_frag_count r)}"
    by (metis card_lessThan word_unat_eq_iff)
  have "sar_got_set r \<subseteq> {..<unat (sr_frag_count r)}" by (auto simp: sar_got_set_def)
  then have "card (sar_got_set r) = card {..<unat (sr_frag_count r)} \<longleftrightarrow> sar_got_set r = {..<unat (sr_frag_count r)}"
    by (metis card_subset_eq finite_lessThan)
  with True c show ?thesis by (simp only: sar_complete_def simp_thms)
qed (simp add: sar_complete_def)

lemma sar_complete_iff:
  "sar_inv r \<Longrightarrow> sar_complete r \<longleftrightarrow> sr_active r \<and> (\<forall>i<unat (sr_frag_count r). sr_got r ! i)"
  by (auto simp: sar_complete_set sar_got_set_def)

lemma sar_add_keeps:
  assumes "sar_inv r"
  shows "\<exists>ok r'. sar_add p r = Some (ok, r') \<and> sar_inv r' \<and> (\<not> ok \<longrightarrow> r' = r)"
proof -
  from sar_add_cases [OF assms, of p] show ?thesis
  proof (elim disjE exE conjE)
    assume "sar_add p r = Some (False, r)"
    then show ?thesis using assms by blast
  next
    fix xfer idx count tlen tcrc r'
    assume a: "sar_is_fragment p" "rd16 p 4 = Some xfer" "rd16 p 6 = Some idx" "rd16 p 8 = Some count"
      "rd32 p 10 = Some tlen" "rd32 p 14 = Some tcrc"
      "sar_hdr_ok idx count tlen (of_nat (length p - SAR_HDR_BYTES))" "sar_join r xfer count tlen tcrc = Some r'"
    let ?buf = "put_at (sr_buf r) (unat idx * 160) (take (frag_len (unat tlen) (unat idx)) (drop 18 p))"
    note add = sar_add_accept [OF assms a] and j = sar_join_inv [OF assms a(8,7)]
    note h = sar_hdr_okD [OF a(7)]
    have "length ?buf = SAR_MAX_FILE"
      using assms frag_bounds [OF h(3)] h(1) add(2) by (simp add: sar_inv_def sar_sizes)
    then have "sar_inv (r'\<lparr>sr_buf := ?buf\<rparr>)" using j(1) by (auto simp: sar_inv_def sar_got_set_def)
    then have "sar_inv (sar_mark (r'\<lparr>sr_buf := ?buf\<rparr>) (unat idx))"
      using j h by (intro sar_mark_inv(1)) simp_all
    with add(1) show ?thesis by blast
  qed
qed

text \<open>
  The reassembler is safe on untrusted fragments: from any state it can reach, any payload is either
  refused, leaving the state untouched, or accepted, and in neither case is memory read or written
  outside the payload, the bitmap or the 8 KiB buffer. The fragment counter always equals the number of
  bits set in the bitmap, so a transfer is complete only when no fragment is missing.
\<close>

theorem sar_add_safe:
  assumes "sar_inv r"
  shows "\<exists>ok r'. sar_add p r = Some (ok, r') \<and> sar_inv r' \<and> (\<not> ok \<longrightarrow> r' = r)
    \<and> (sar_complete r' \<longleftrightarrow> sr_active r' \<and> (\<forall>i<unat (sr_frag_count r'). sr_got r' ! i))"
  using sar_add_keeps [OF assms, of p] sar_complete_iff by blast

definition sar_blob :: bytes where
  "sar_blob = replicate 160 0x41 @ [0x42, 0x43]"

theorem sar_add_safe_witness:
  "\<exists>ok r'. sar_add (the (sar_build_fragment sar_blob 7 0 1 255)) SarReassembler_init = Some (ok, r') \<and> sar_inv r'"
  using sar_add_safe [OF sar_inv_init, of "the (sar_build_fragment sar_blob 7 0 1 255)"] by blast

section \<open>Reassembly\<close>

lemma sar_build_fragment_some:
  assumes "length blob \<le> 8192" "i < frag_total (length blob)" "178 \<le> cap"
  shows "sar_build_fragment blob xfer crc (of_nat i) cap =
    Some (SAR_MAGIC @ put_u16 xfer @ put_u16 (of_nat i) @ put_u16 (of_nat (frag_total (length blob)))
      @ put_u32 (of_nat (length blob)) @ put_u32 crc @ take (frag_len (length blob) i) (drop (i * 160) blob))"
proof -
  let ?T = "length blob"
  have N: "frag_total ?T \<le> 52" using assms(1) by (rule frag_total_bound)
  have T: "unat (of_nat ?T :: u32) = ?T" using assms(1) by (simp add: unsigned_of_nat take_bit_nat_eq_self)
  have I: "unat (of_nat i :: u16) = i" using assms(2) N by (simp add: unsigned_of_nat take_bit_nat_eq_self)
  have cnt: "unat (sar_frag_count (of_nat ?T)) = frag_total ?T" using unat_sar_frag_count [of "of_nat ?T"] T assms(1) by simp
  then have cnt': "sar_frag_count (of_nat ?T) = of_nat (frag_total ?T)" by (metis of_nat_unat ucast_id)
  have off: "unat (sar_off (of_nat i)) = i * 160" by (simp add: unat_sar_off I)
  have b: "i * 160 < ?T" "frag_len ?T i \<le> 160" using frag_bounds [OF assms(2)] by (simp_all add: frag_len_def)
  have sub: "unat (of_nat ?T - sar_off (of_nat i) :: u32) = ?T - i * 160"
    using b by (simp add: unat_sub_if_size T off)
  have "unat (if of_nat ?T - sar_off (of_nat i) < (160 :: u32) then ucast (of_nat ?T - sar_off (of_nat i)) else 160 :: u16)
      = frag_len ?T i"
    using sub by (auto simp: word_less_nat_alt unsigned_ucast_eq take_bit_nat_eq_self frag_len_def min_def)
  moreover have "\<not> sar_frag_count (of_nat ?T) \<le> of_nat i" using assms(2) by (simp add: word_le_nat_alt cnt I)
  ultimately show ?thesis using assms(3) b off cnt' by (simp add: sar_build_fragment_def Let_def sar_sizes)
qed

definition sar_frag :: "bytes \<Rightarrow> u16 \<Rightarrow> u32 \<Rightarrow> nat \<Rightarrow> nat \<Rightarrow> bytes" where
  "sar_frag blob xfer crc cap i = the (sar_build_fragment blob xfer crc (of_nat i) cap)"

text \<open>What a receiver has of a transfer after the fragments \<open>S\<close>.\<close>

definition sar_holds :: "bytes \<Rightarrow> u16 \<Rightarrow> u32 \<Rightarrow> nat set \<Rightarrow> sar_reassembler \<Rightarrow> bool" where
  "sar_holds blob xfer crc S r \<longleftrightarrow> sar_inv r \<and> sr_active r \<and> sr_xfer_id r = xfer \<and> sr_total_crc r = crc
     \<and> sr_total_len r = of_nat (length blob) \<and> sr_frag_count r = of_nat (frag_total (length blob))
     \<and> sar_got_set r = S
     \<and> (\<forall>i\<in>S. \<forall>k<frag_len (length blob) i. sr_buf r ! (i * 160 + k) = blob ! (i * 160 + k))"

lemma frag_slots_disjoint: "i \<noteq> j \<Longrightarrow> k < frag_len T i \<Longrightarrow> \<not> (j * 160 \<le> i * 160 + k \<and> i * 160 + k < j * 160 + frag_len T j)"
  unfolding frag_len_def by (cases "i < j") auto

lemma sar_frag_parse:
  assumes "length blob \<le> 8192" "i < frag_total (length blob)" "178 \<le> cap"
    and p_def: "p = sar_frag blob xfer crc cap i"
  shows "sar_is_fragment p" "rd16 p 4 = Some xfer" "rd16 p 6 = Some (of_nat i)"
    "rd16 p 8 = Some (of_nat (frag_total (length blob)))" "rd32 p 10 = Some (of_nat (length blob))"
    "rd32 p 14 = Some crc" "length p = 18 + frag_len (length blob) i"
    "take (frag_len (length blob) i) (drop 18 p) = take (frag_len (length blob) i) (drop (i * 160) blob)"
    "sar_hdr_ok (of_nat i) (of_nat (frag_total (length blob))) (of_nat (length blob)) (of_nat (length p - SAR_HDR_BYTES))"
proof -
  let ?T = "length blob" and ?fl = "frag_len (length blob) i"
  have p: "p = SAR_MAGIC @ put_u16 xfer @ put_u16 (of_nat i) @ put_u16 (of_nat (frag_total ?T))
      @ put_u32 (of_nat ?T) @ put_u32 crc @ take ?fl (drop (i * 160) blob)"
    using sar_build_fragment_some [OF assms(1-3)] by (simp add: p_def sar_frag_def)
  have m: "length SAR_MAGIC = 4" by (simp add: SAR_MAGIC_def)
  note b = frag_bounds [OF assms(2)]
  have le: "?fl \<le> ?T - i * 160" by (simp add: frag_len_def)
  have N: "frag_total ?T \<le> 52" using assms(1) by (rule frag_total_bound)
  have T: "unat (of_nat ?T :: u32) = ?T" using assms(1) by (simp add: unsigned_of_nat take_bit_nat_eq_self)
  have u16: "unat (of_nat n :: u16) = n" if "n < 65536" for n
    using that by (simp add: unsigned_of_nat take_bit_nat_eq_self)
  show "sar_is_fragment p" "rd16 p 4 = Some xfer" "rd16 p 6 = Some (of_nat i)"
      "rd16 p 8 = Some (of_nat (frag_total ?T))" "rd32 p 10 = Some (of_nat ?T)" "rd32 p 14 = Some crc"
      and len: "length p = 18 + ?fl"
      and "take ?fl (drop 18 p) = take ?fl (drop (i * 160) blob)"
    using b le by (simp_all add: p sar_is_fragment_def sar_sizes m codec_simps min_absorb2)
  have cnt: "of_nat (frag_total ?T) = sar_frag_count (of_nat ?T)"
    using unat_sar_frag_count [of "of_nat ?T"] T assms(1) by (metis of_nat_unat ucast_id)
  have fl: "unat (of_nat ?fl :: u16) = ?fl" by (rule u16) (simp add: frag_len_def)
  have sub: "unat (of_nat ?T - sar_off (of_nat i) :: u32) = ?T - i * 160"
    using b assms(2) N u16 [of i] by (simp add: unat_sub_if_size T unat_sar_off)
  have uc: "ucast (of_nat ?T - sar_off (of_nat i) :: u32) = (of_nat (?T - i * 160) :: u16)"
    using sub by (metis of_nat_unat)
  have "(of_nat i :: u16) = of_nat (frag_total ?T) - 1 \<longleftrightarrow> Suc i = frag_total ?T"
  proof -
    have "(of_nat (frag_total ?T) :: u16) - 1 = of_nat (frag_total ?T - 1)" using assms(2) by (simp add: of_nat_diff)
    moreover have "(of_nat i :: u16) = of_nat (frag_total ?T - 1) \<longleftrightarrow> i = frag_total ?T - 1"
      using u16 [of i] u16 [of "frag_total ?T - 1"] assms(2) N by fastforce
    ultimately show ?thesis using assms(2) by auto
  qed
  then have "of_nat ?fl = sar_expect (of_nat i) (of_nat (frag_total ?T)) (of_nat ?T)"
    using frag_last [OF assms(2)] uc by (simp add: sar_expect_def)
  then show "sar_hdr_ok (of_nat i) (of_nat (frag_total ?T)) (of_nat ?T) (of_nat (length p - SAR_HDR_BYTES))"
    using assms(1,2) N T cnt u16 [of i] u16 [of "frag_total ?T"]
    by (auto simp: sar_hdr_ok_def len sar_sizes word_le_nat_alt word_less_nat_alt word_unat_eq_iff)
qed

lemma sar_step:
  assumes blob: "length blob \<le> 8192" "178 \<le> cap" "i < frag_total (length blob)"
    and pre: "sar_holds blob xfer crc S r \<or> S = {} \<and> sar_inv r \<and> (\<not> sr_active r \<or> sr_xfer_id r \<noteq> xfer)"
  shows "\<exists>r'. sar_add (sar_frag blob xfer crc cap i) r = Some (True, r') \<and> sar_holds blob xfer crc (insert i S) r'"
proof -
  let ?T = "length blob" and ?p = "sar_frag blob xfer crc cap i"
  note pp = sar_frag_parse [OF blob(1,3,2) refl, of xfer crc]
  have inv: "sar_inv r" using pre by (auto simp: sar_holds_def)
  obtain r' where join: "sar_join r xfer (of_nat (frag_total ?T)) (of_nat ?T) crc = Some r'"
      and S: "sar_got_set r' = S"
  proof (cases "sar_holds blob xfer crc S r")
    case True
    then show ?thesis using that [of r] by (simp add: sar_holds_def sar_join_def)
  next
    case False
    with pre have n: "S = {}" "\<not> sr_active r \<or> sr_xfer_id r \<noteq> xfer" by auto
    have "{k. k < frag_total ?T \<and> replicate SAR_MAX_FRAGS False ! k} = {}"
      using frag_total_bound [OF blob(1)] by (force simp: sar_sizes)
    moreover have "unat (of_nat (frag_total ?T) :: u16) = frag_total ?T"
      using frag_total_bound [OF blob(1)] by (simp add: unsigned_of_nat take_bit_nat_eq_self)
    ultimately show ?thesis using n that by (auto simp: sar_join_def sar_got_set_def)
  qed
  note j = sar_join_inv [OF inv join pp(9)]
  have u: "unat (of_nat ?T :: u32) = ?T" "unat (of_nat i :: u16) = i" "unat (of_nat (frag_total ?T) :: u16) = frag_total ?T"
    using blob frag_total_bound [OF blob(1)] by (simp_all add: unsigned_of_nat take_bit_nat_eq_self)
  let ?d = "take (frag_len ?T i) (drop (i * 160) blob)"
  let ?r = "r'\<lparr>sr_buf := put_at (sr_buf r) (i * 160) ?d\<rparr>"
  have add: "sar_add ?p r = Some (True, sar_mark ?r i)"
    using sar_add_accept(1) [OF inv pp(1-6,9) join] by (simp add: u pp(8))
  note b = frag_bounds [OF blob(3)]
  have dl: "length ?d = frag_len ?T i" using b by (simp add: frag_len_def)
  have bl: "length (sr_buf r) = 8192" using inv by (simp add: sar_inv_def sar_sizes)
  have fit: "i * 160 + length ?d \<le> length (sr_buf r)" using b bl blob dl by simp
  have "sar_inv ?r" using j(1) fit bl by (auto simp: sar_inv_def sar_got_set_def sar_sizes)
  note mk = sar_mark_inv [OF this, of i]
  have got: "sar_got_set ?r = S" using S by (simp add: sar_got_set_def)
  have buf: "put_at (sr_buf r) (i * 160) ?d ! (m * 160 + k) = blob ! (m * 160 + k)"
    if "m \<in> insert i S" "k < frag_len ?T m" for m k
  proof (cases "m = i")
    case True
    have "m * 160 + k < length (sr_buf r)" using True that(2) b bl blob by simp
    then show ?thesis using True that(2) b fit dl by (simp add: nth_put_at)
  next
    case False
    then have "m \<in> S" using that(1) by simp
    then have h: "sar_holds blob xfer crc S r" "m < frag_total ?T"
      using pre by (auto simp: sar_holds_def sar_got_set_def u)
    have "m * 160 + k < length (sr_buf r)" using frag_bounds [OF h(2)] that(2) bl blob by simp
    moreover have "sr_buf r ! (m * 160 + k) = blob ! (m * 160 + k)"
      using h(1) \<open>m \<in> S\<close> that(2) by (simp add: sar_holds_def)
    moreover have "\<not> (i * 160 \<le> m * 160 + k \<and> m * 160 + k < i * 160 + length ?d)"
      using frag_slots_disjoint [OF False that(2)] unfolding dl .
    ultimately show ?thesis unfolding nth_put_at [OF fit \<open>m * 160 + k < length (sr_buf r)\<close>] by (simp only: if_False)
  qed
  have "sar_holds blob xfer crc (insert i S) (sar_mark ?r i)"
    unfolding sar_holds_def using mk j got buf blob(3) u by auto
  with add show ?thesis by blast
qed

fun sar_feed :: "bytes list \<Rightarrow> sar_reassembler \<Rightarrow> sar_reassembler option" where
  "sar_feed [] r = Some r"
| "sar_feed (p # ps) r = do { (ok, r') \<leftarrow> sar_add p r; sar_feed ps r' }"

lemma sar_feed_holds:
  assumes "length blob \<le> 8192" "178 \<le> cap"
  shows "set is \<subseteq> {..<frag_total (length blob)} \<Longrightarrow> sar_holds blob xfer crc S r \<Longrightarrow>
    \<exists>r'. sar_feed (map (sar_frag blob xfer crc cap) is) r = Some r' \<and> sar_holds blob xfer crc (S \<union> set is) r'"
proof (induction "is" arbitrary: S r)
  case Nil
  then show ?case by simp
next
  case (Cons i "is")
  then have i: "i < frag_total (length blob)" by simp
  obtain r' where r': "sar_add (sar_frag blob xfer crc cap i) r = Some (True, r')" "sar_holds blob xfer crc (insert i S) r'"
    using sar_step [OF assms i] Cons.prems(2) by blast
  from Cons.IH [OF _ r'(2)] Cons.prems(1) r'(1) show ?case by simp
qed

lemma sar_holds_all:
  assumes "length blob \<le> 8192" "sar_holds blob xfer crc S r"
  shows "sar_complete r \<longleftrightarrow> S = {..<frag_total (length blob)}"
    "sar_complete r \<Longrightarrow> take (unat (sr_total_len r)) (sr_buf r) = blob"
    "sar_missing r SAR_MAX_FRAGS = map of_nat (filter (\<lambda>i. i \<notin> S) [0..<frag_total (length blob)])"
proof -
  let ?T = "length blob"
  have h: "sar_inv r" "sr_active r" "sr_total_len r = of_nat ?T" "sr_frag_count r = of_nat (frag_total ?T)"
    "sar_got_set r = S" "\<forall>i\<in>S. \<forall>k<frag_len ?T i. sr_buf r ! (i * 160 + k) = blob ! (i * 160 + k)"
    using assms(2) by (simp_all add: sar_holds_def)
  have u: "unat (of_nat ?T :: u32) = ?T" "unat (of_nat (frag_total ?T) :: u16) = frag_total ?T"
    using assms(1) frag_total_bound [OF assms(1)] by (simp_all add: unsigned_of_nat take_bit_nat_eq_self)
  show c: "sar_complete r \<longleftrightarrow> S = {..<frag_total ?T}" using sar_complete_set [OF h(1)] h u by simp
  show "take (unat (sr_total_len r)) (sr_buf r) = blob" if "sar_complete r"
  proof (rule nth_equalityI)
    show "length (take (unat (sr_total_len r)) (sr_buf r)) = ?T"
      using h(1,3) u assms(1) by (simp add: sar_inv_def sar_sizes)
    fix j assume "j < length (take (unat (sr_total_len r)) (sr_buf r))"
    then have j: "j < ?T" by (simp add: h(3) u)
    then obtain i where "i < frag_total ?T" "i * 160 \<le> j" "j < i * 160 + frag_len ?T i" using frag_cover by blast
    moreover from this have "j - i * 160 < frag_len ?T i" by linarith
    ultimately have "sr_buf r ! (i * 160 + (j - i * 160)) = blob ! (i * 160 + (j - i * 160))"
      using h(6) c that by blast
    then show "take (unat (sr_total_len r)) (sr_buf r) ! j = blob ! j" using \<open>i * 160 \<le> j\<close> j by (simp add: h(3) u)
  qed
  have "filter (\<lambda>i. \<not> sr_got r ! i) [0..<frag_total ?T] = filter (\<lambda>i. i \<notin> S) [0..<frag_total ?T]"
    using h(4,5) u by (intro filter_cong) (auto simp: sar_got_set_def)
  moreover have "length (filter P [0..<frag_total ?T]) \<le> SAR_MAX_FRAGS" for P
    using frag_total_bound [OF assms(1)] length_filter_le [of P "[0..<frag_total ?T]"] by (simp add: sar_sizes)
  ultimately show "sar_missing r SAR_MAX_FRAGS = map of_nat (filter (\<lambda>i. i \<notin> S) [0..<frag_total ?T])"
    using h(2,4) u by (simp add: sar_missing_def)
qed

text \<open>
  C6. Reassembly is correct in any order, with any repetition. A blob of 1 to 8192 bytes is cut into
  fragments; whatever fragments arrive, in whatever order and however often (the reassembler being idle or
  in another transfer before), all are accepted, the missing list names exactly the fragments that have not
  arrived, and the transfer is complete exactly when all have. Then the buffer holds the blob and the CRC
  check passes.
\<close>

theorem sar_reassembles:
  assumes "length blob \<le> SAR_MAX_FILE" and "178 \<le> cap"
    and "sar_inv r" and "\<not> sr_active r \<or> sr_xfer_id r \<noteq> xfer"
    and "is \<noteq> []" and "set is \<subseteq> {..<unat (sar_frag_count (of_nat (length blob)))}"
  shows "\<exists>r'. sar_feed (map (\<lambda>i. the (sar_build_fragment blob xfer (sar_crc32 blob) (of_nat i) cap)) is) r = Some r'
    \<and> sar_missing r' SAR_MAX_FRAGS =
        map of_nat (filter (\<lambda>i. i \<notin> set is) [0..<unat (sar_frag_count (of_nat (length blob)))])
    \<and> (sar_complete r' \<longleftrightarrow> set is = {..<unat (sar_frag_count (of_nat (length blob)))})
    \<and> (sar_complete r' \<longrightarrow> sar_verify r' \<and> take (unat (sr_total_len r')) (sr_buf r') = blob)"
proof -
  have T: "length blob \<le> 8192" using assms(1) by (simp add: sar_sizes)
  then have "unat (of_nat (length blob) :: u32) = length blob" by (simp add: unsigned_of_nat take_bit_nat_eq_self)
  then have N: "unat (sar_frag_count (of_nat (length blob))) = frag_total (length blob)"
    using unat_sar_frag_count [of "of_nat (length blob)"] T by simp
  obtain i js where isc: "is = i # js" using assms(5) by (cases "is") auto
  with assms(6) N have i: "i < frag_total (length blob)" and js: "set js \<subseteq> {..<frag_total (length blob)}" by auto
  let ?F = "sar_frag blob xfer (sar_crc32 blob) cap"
  obtain r1 where r1: "sar_add (?F i) r = Some (True, r1)" "sar_holds blob xfer (sar_crc32 blob) {i} r1"
    using sar_step [OF T assms(2) i, of xfer "sar_crc32 blob" "{}" r] assms(3,4) by auto
  obtain r' where r': "sar_feed (map ?F js) r1 = Some r'" "sar_holds blob xfer (sar_crc32 blob) ({i} \<union> set js) r'"
    using sar_feed_holds [OF T assms(2) js r1(2)] by blast
  have "sar_feed (map ?F is) r = Some r'" using r1(1) r'(1) by (simp add: isc)
  moreover have h: "sar_holds blob xfer (sar_crc32 blob) (set is) r'" using r'(2) by (simp add: isc)
  note all = sar_holds_all [OF T h]
  moreover have "sar_verify r'" if "sar_complete r'"
    using all(2) [OF that] that h by (simp add: sar_verify_def sar_holds_def)
  ultimately show ?thesis unfolding N sar_frag_def by auto
qed

theorem sar_reassembles_witness:
  "\<exists>r'. sar_feed (map (\<lambda>i. the (sar_build_fragment sar_blob 7 (sar_crc32 sar_blob) (of_nat i) 255)) [1, 0, 1])
       SarReassembler_init = Some r' \<and> sar_complete r' \<and> take (unat (sr_total_len r')) (sr_buf r') = sar_blob"
proof -
  have n: "unat (sar_frag_count (of_nat (length sar_blob))) = 2" by code_simp
  have pre: "length sar_blob \<le> SAR_MAX_FILE" "(178 :: nat) \<le> 255"
    "\<not> sr_active SarReassembler_init \<or> sr_xfer_id SarReassembler_init \<noteq> 7" "[1, 0, 1 :: nat] \<noteq> []"
    by (simp_all add: sar_blob_def sar_sizes SarReassembler_init_def)
  have set: "set [1, 0, 1] = {..<2 :: nat}" by auto
  then have sub: "set [1, 0, 1] \<subseteq> {..<unat (sar_frag_count (of_nat (length sar_blob)))}" unfolding n by simp
  from sar_reassembles [OF pre(1,2) sar_inv_init pre(3,4) sub] set show ?thesis unfolding n by blast
qed

section \<open>NACK and DONE messages\<close>

lemma rd16s_at: "length pre = off \<Longrightarrow> rd16s (length vs) (pre @ concat (map put_u16 vs) @ suf) off = Some vs"
proof (induction vs arbitrary: pre off)
  case Nil
  then show ?case by simp
next
  case (Cons v vs)
  have "rd16s (length vs) ((pre @ put_u16 v) @ concat (map put_u16 vs) @ suf) (off + 2) = Some vs"
    using Cons.prems by (intro Cons.IH) simp
  with Cons.prems show ?case by (simp add: codec_simps)
qed

lemma rd16s_safe: "off + 2 * n \<le> length bs \<Longrightarrow> \<exists>vs. rd16s n bs off = Some vs \<and> length vs = n"
proof (induction n arbitrary: off)
  case 0
  then show ?case by simp
next
  case (Suc n)
  then obtain vs where "rd16s n bs (off + 2) = Some vs" "length vs = n" by force
  with Suc.prems show ?case by (simp add: rd_safe)
qed

lemma rd16s_take:
  "rd16s n bs off = Some vs \<Longrightarrow> k \<le> n \<Longrightarrow> rd16s k bs off = Some (take k vs)"
proof (induction n arbitrary: off vs k)
  case 0
  then show ?case by simp
next
  case (Suc n)
  then obtain v ws where v: "rd16 bs off = Some v" "rd16s n bs (off + 2) = Some ws" "vs = v # ws"
    by (auto simp: bind_eq_Some_conv)
  show ?case
  proof (cases k)
    case 0
    then show ?thesis by simp
  next
    case (Suc k')
    with v Suc.IH [OF v(2), of k'] Suc.prems show ?thesis by simp
  qed
qed

lemma length_concat_map_const: "(\<And>x. length (f x) = k) \<Longrightarrow> length (concat (map f xs)) = k * length xs"
  by (induction xs) auto

lemma sar_parse_nack_total: "sar_parse_nack p cap \<noteq> None"
proof (cases "sar_is_nack p")
  case True
  then have len: "8 \<le> length p" by (simp add: sar_is_nack_def SAR_NACK_HDR_def)
  then obtain xfer n16 where rd: "rd16 p 4 = Some xfer" "rd16 p 6 = Some n16" by (auto simp: rd_safe)
  let ?n = "if length p < SAR_NACK_HDR + unat n16 * 2 then (length p - SAR_NACK_HDR) div 2 else unat n16"
  let ?k = "if cap < ?n then cap else ?n"
  have "8 + 2 * ?k \<le> length p" using len by (auto simp: SAR_NACK_HDR_def)
  then obtain vs where "rd16s ?k p 8 = Some vs" using rd16s_safe by blast
  then have "rd16s ?k p SAR_NACK_HDR = Some vs" by (simp add: SAR_NACK_HDR_def)
  with True rd show ?thesis unfolding sar_parse_nack_def by (simp add: Let_def split del: if_split)
qed (simp add: sar_parse_nack_def)

lemma rd16s_length: "rd16s n bs off = Some vs \<Longrightarrow> length vs = n"
  by (induction n arbitrary: off vs) (auto simp: bind_eq_Some_conv)

lemma sar_parse_nack_le: "sar_parse_nack p cap = Some (Some (xfer, vs)) \<Longrightarrow> length vs \<le> cap"
  by (auto simp: sar_parse_nack_def bind_eq_Some_conv Let_def dest!: rd16s_length split: if_splits)

lemma sar_parse_nack_eq:
  assumes "sar_is_nack p" "rd16 p 4 = Some xfer" "rd16 p 6 = Some n16" "unat n16 = n" "8 + n * 2 \<le> length p"
    "rd16s n p 8 = Some vs"
  shows "sar_parse_nack p cap = Some (Some (xfer, take cap vs))"
proof -
  have len: "length vs = n" using rd16s_safe [of 8 n p] assms(5,6) by auto
  show ?thesis
  proof (cases "cap < n")
    case True
    with rd16s_take [OF assms(6), of cap] assms show ?thesis
      by (simp add: sar_parse_nack_def SAR_NACK_HDR_def Let_def)
  next
    case False
    with len assms show ?thesis by (simp add: sar_parse_nack_def SAR_NACK_HDR_def Let_def)
  qed
qed

text \<open>
  The control messages of a transfer survive the wire, trailing bytes included: a NACK built into a
  buffer of \<open>out_cap\<close> bytes fits it and is parsed back as the transfer id and the missing indices, cut to
  what the buffer and the reader's array hold; a DONE is parsed back as its transfer id; and no message is
  of two kinds. No payload makes the NACK parser read outside it.
\<close>

lemma sar_control_roundtrip:
  assumes "length ms < 65536"
  shows "(sar_build_nack xfer ms out_cap = Some nack \<longrightarrow> length nack \<le> out_cap
      \<and> sar_parse_nack (nack @ tail) cap = Some (Some (xfer, take cap (take ((out_cap - 8) div 2) ms)))
      \<and> \<not> sar_is_done (nack @ tail) \<and> \<not> sar_is_fragment (nack @ tail))
    \<and> (sar_build_done xfer out_cap = Some done \<longrightarrow> length done = 6 \<and> sar_parse_done (done @ tail) = Some xfer
      \<and> \<not> sar_is_nack (done @ tail) \<and> \<not> sar_is_fragment (done @ tail))
    \<and> sar_parse_nack p cap \<noteq> None"
proof (intro conjI impI sar_parse_nack_total)
  let ?ms = "take ((out_cap - 8) div 2) ms"
  assume "sar_build_nack xfer ms out_cap = Some nack"
  then have cap8: "8 \<le> out_cap" and n: "nack = SAR_NMAGIC @ put_u16 xfer @ put_u16 (of_nat (length ?ms)) @ concat (map put_u16 ?ms)"
    by (auto simp: sar_build_nack_def SAR_NACK_HDR_def Let_def split: if_splits)
  have len: "length nack = 8 + 2 * length ?ms"
    by (simp add: n SAR_NMAGIC_def length_concat_map_const [of put_u16 2])
  then show "length nack \<le> out_cap" using cap8 by simp
  have u: "unat (of_nat (length ?ms) :: u16) = length ?ms" using assms by (simp add: unsigned_of_nat take_bit_nat_eq_self)
  have pre: "length (SAR_NMAGIC @ put_u16 xfer @ put_u16 (of_nat (length ?ms))) = 8" by (simp add: SAR_NMAGIC_def)
  have "rd16s (length ?ms) ((SAR_NMAGIC @ put_u16 xfer @ put_u16 (of_nat (length ?ms))) @ concat (map put_u16 ?ms) @ tail) 8
      = Some ?ms" by (rule rd16s_at [OF pre])
  then have r: "rd16s (length ?ms) (nack @ tail) 8 = Some ?ms" by (simp add: n)
  have k: "take 4 (nack @ tail) = SAR_NMAGIC" by (simp add: n SAR_NMAGIC_def)
  then have "sar_is_nack (nack @ tail)" using len by (simp add: sar_is_nack_def SAR_NACK_HDR_def)
  moreover have "rd16 (nack @ tail) 4 = Some xfer" "rd16 (nack @ tail) 6 = Some (of_nat (length ?ms))"
    by (simp_all add: n SAR_NMAGIC_def codec_simps)
  moreover have "8 + length ?ms * 2 \<le> length (nack @ tail)" using len by simp
  ultimately show "sar_parse_nack (nack @ tail) cap = Some (Some (xfer, take cap ?ms))"
    by (intro sar_parse_nack_eq [OF _ _ _ u _ r])
  show "\<not> sar_is_done (nack @ tail)" "\<not> sar_is_fragment (nack @ tail)"
    using k by (simp_all add: sar_is_done_def sar_is_fragment_def SAR_NMAGIC_def SAR_DMAGIC_def SAR_MAGIC_def)
next
  assume "sar_build_done xfer out_cap = Some done"
  then have d: "done = SAR_DMAGIC @ put_u16 xfer" by (simp add: sar_build_done_def split: if_splits)
  then show "length done = 6" by (simp add: SAR_DMAGIC_def)
  have "take 4 (done @ tail) = SAR_DMAGIC" by (simp add: d SAR_DMAGIC_def)
  then show "sar_parse_done (done @ tail) = Some xfer" "\<not> sar_is_nack (done @ tail)" "\<not> sar_is_fragment (done @ tail)"
    by (simp_all add: d sar_parse_done_def sar_is_done_def sar_is_nack_def sar_is_fragment_def SAR_DMAGIC_def
        SAR_NMAGIC_def SAR_MAGIC_def SAR_DONE_BYTES_def codec_simps)
qed

section \<open>The checksum\<close>

lemma xor_cancel: "(a :: u32) XOR c = b XOR c \<longleftrightarrow> a = b"
proof
  assume "a XOR c = b XOR c"
  then have "(a XOR c) XOR c = (b XOR c) XOR c" by simp
  then show "a = b" by (simp add: xor.assoc)
qed simp

lemma crc_bit_cases: "crc_bit c = (if bit c 0 then drop_bit 1 c XOR 0xEDB88320 else drop_bit 1 c)"
proof -
  have "c AND 1 = (if bit c 0 then 1 else 0)" by (simp add: and_one_eq mod_2_eq_odd bit_0)
  then show ?thesis by (simp add: crc_bit_def)
qed

lemma crc_bit_inj: "crc_bit a = crc_bit b \<Longrightarrow> a = b"
proof (rule bit_word_eqI)
  assume e: "crc_bit a = crc_bit b"
  have "bit (0xEDB88320 :: u32) 31" by code_simp
  then have low: "bit (crc_bit c) 31 \<longleftrightarrow> bit c 0" for c
    using bit_imp_le_length [of c 32] by (auto simp: crc_bit_cases bit_xor_iff bit_drop_bit_eq)
  then have eq0: "bit a 0 = bit b 0" using e by metis
  then have "drop_bit 1 a = drop_bit 1 b"
    using e by (auto simp: crc_bit_cases xor_cancel split: if_splits)
  then have "bit a (Suc n) = bit b (Suc n)" for n by (metis bit_drop_bit_eq comp_apply plus_1_eq_Suc)
  then show "bit a n = bit b n" for n using eq0 by (cases n) auto
qed

lemma crc_bits_inj: "(crc_bit ^^ k) a = (crc_bit ^^ k) b \<Longrightarrow> a = b"
  by (induction k) (auto dest: crc_bit_inj)

lemma crc_byte_inj: "crc_byte a x = crc_byte b x \<longleftrightarrow> a = b"
  using crc_bits_inj [of 8 "a XOR ucast x" "b XOR ucast x"] by (auto simp: crc_byte_def xor_cancel)

lemma crc_byte_neq: "x \<noteq> y \<Longrightarrow> crc_byte a x \<noteq> crc_byte a y"
proof
  assume "x \<noteq> y" "crc_byte a x = crc_byte a y"
  then have "a XOR ucast x = a XOR ucast y" unfolding crc_byte_def using crc_bits_inj by blast
  then have "(ucast x :: u32) = ucast y" by (simp add: xor.commute [of a] xor_cancel)
  moreover have "unat (ucast z :: u32) = unat z" for z :: u8
  proof -
    have "unat z < 256" using unsigned_less [of z] by simp
    then show ?thesis by (simp add: unsigned_ucast_eq take_bit_nat_eq_self)
  qed
  ultimately show False using \<open>x \<noteq> y\<close> by (metis word_unat_eq_iff)
qed

lemma crc_fold_inj: "foldl crc_byte a xs = foldl crc_byte b xs \<longleftrightarrow> a = b"
  by (induction xs arbitrary: a b) (simp_all add: crc_byte_inj)

text \<open>The nine steps of the published check value.\<close>

lemma crc_check_steps:
  "crc_byte 0xFFFFFFFF 0x31 = 0x7C231048"
  "crc_byte 0x7C231048 0x32 = 0xB0ACBB32"
  "crc_byte 0xB0ACBB32 0x33 = 0x77B79C2D"
  "crc_byte 0x77B79C2D 0x34 = 0x641C1F5C"
  "crc_byte 0x641C1F5C 0x35 = 0x340AC5E3"
  "crc_byte 0x340AC5E3 0x36 = 0xF68D2C9E"
  "crc_byte 0xF68D2C9E 0x37 = 0xAFFC9660"
  "crc_byte 0xAFFC9660 0x38 = 0x651F2550"
  "crc_byte 0x651F2550 0x39 = 0x340BC6D9"
  by code_simp+

text \<open>
  The checksum detects every error confined to one byte: changing one byte of a message, at any
  position and however long the message, changes its CRC-32, so \<^verbatim>\<open>verify\<close> rejects it. The model agrees
  with the published check value of CRC-32 (that of zlib): the checksum of \<open>123456789\<close> is
  \<open>0xCBF43926\<close>.
\<close>

theorem crc_detects_byte_error:
  assumes "x \<noteq> y"
  shows "sar_crc32 (xs @ x # ys) \<noteq> sar_crc32 (xs @ y # ys)
    \<and> sar_crc32 [0x31, 0x32, 0x33, 0x34, 0x35, 0x36, 0x37, 0x38, 0x39] = 0xCBF43926"
proof
  show "sar_crc32 (xs @ x # ys) \<noteq> sar_crc32 (xs @ y # ys)"
    using crc_byte_neq [OF assms] by (simp add: sar_crc32_def crc_fold_inj)
  show "sar_crc32 [0x31, 0x32, 0x33, 0x34, 0x35, 0x36, 0x37, 0x38, 0x39] = 0xCBF43926"
    by (simp add: sar_crc32_def crc_check_steps)
qed

theorem crc_detects_byte_error_witness: "sar_crc32 [1, 2, 3] \<noteq> sar_crc32 [1, 7, 3]"
proof -
  have "(2 :: u8) \<noteq> 7" by simp
  from crc_detects_byte_error [OF this, of "[1]" "[3]"] show ?thesis by simp
qed

end
