(* ===== verification/Node_Table.thy ===== *)
theory Node_Table
  imports Mesh_Types Slot_Table
begin

text \<open>
  \<^verbatim>\<open>lib/mesh/node_table.h/.cpp\<close>: the directory of interned node ids. 64 slots hold full ids; the rest of
  the firmware refers to them by a two-byte handle of slot index and generation. A cold slot is reused
  under pressure, with its generation bumped, so that old handles stop resolving.

  The flag byte (\<^verbatim>\<open>F_USED\<close>, \<^verbatim>\<open>F_VERIFIED\<close>, \<^verbatim>\<open>F_PINNED\<close>) is three booleans. The hash that derives an id from
  a public key is the parameter \<open>blake2b16\<close>.
\<close>

section \<open>State\<close>

definition NODE_TABLE_CAP :: nat where "NODE_TABLE_CAP = 64"

definition nid_from_pubkey :: "(bytes \<Rightarrow> bytes) \<Rightarrow> bytes \<Rightarrow> node_id" where
  "nid_from_pubkey blake2b16 pubkey = nid_read (blake2b16 pubkey)"

record nslot =
  ns_id :: node_id
  ns_last_ms :: u32
  ns_used :: bool
  ns_verified :: bool
  ns_pinned :: bool
  ns_gen :: u8
  ns_pub :: bytes

record node_table =
  nd_slots :: "nslot list"
  nd_last_evicted :: bool

definition Nslot_init :: nslot where
  "Nslot_init = \<lparr>ns_id = nid_zero, ns_last_ms = 0, ns_used = False, ns_verified = False, ns_pinned = False,
     ns_gen = 0, ns_pub = replicate 32 0\<rparr>"

definition NodeTable_init :: node_table where
  "NodeTable_init = \<lparr>nd_slots = replicate NODE_TABLE_CAP Nslot_init, nd_last_evicted = False\<rparr>"

section \<open>Operations\<close>

definition nd_find :: "node_table \<Rightarrow> node_id \<Rightarrow> nat option" where
  "nd_find t i = slot_find ns_used ns_id i (nd_slots t)"

definition lru_older :: "nslot \<Rightarrow> nslot \<Rightarrow> bool" where
  "lru_older a b \<longleftrightarrow> before32 (ns_last_ms a) (ns_last_ms b)"

definition free_or_evict :: "node_table \<Rightarrow> nat option \<times> node_table" where
  "free_or_evict t =
     (case find_idx (\<lambda>s. \<not> ns_used s) (nd_slots t) of
        Some i \<Rightarrow> (Some i, t)
      | None \<Rightarrow>
          (case best_idx (\<lambda>s. \<not> ns_pinned s) lru_older (nd_slots t) of
             None \<Rightarrow> (None, t)
           | Some v \<Rightarrow> (Some v, t\<lparr>nd_slots := upd_at v
                (\<lambda>s. s\<lparr>ns_gen := ns_gen s + 1, ns_used := False, ns_verified := False, ns_pinned := False\<rparr>) (nd_slots t),
                nd_last_evicted := True\<rparr>)))"

definition nd_touch :: "node_table \<Rightarrow> nat \<Rightarrow> u32 \<Rightarrow> node_ref \<times> node_table" where
  "nd_touch t i now =
     (\<lparr>r_idx = of_nat i, r_gen = ns_gen (nd_slots t ! i)\<rparr>,
      t\<lparr>nd_slots := upd_at i (\<lambda>s. s\<lparr>ns_last_ms := now\<rparr>) (nd_slots t)\<rparr>)"

definition nd_fill :: "node_table \<Rightarrow> nat \<Rightarrow> node_id \<Rightarrow> node_table" where
  "nd_fill t i nid = t\<lparr>nd_slots := upd_at i
     (\<lambda>s. s\<lparr>ns_id := nid, ns_used := True, ns_verified := False, ns_pinned := False\<rparr>) (nd_slots t)\<rparr>"

definition intern :: "node_table \<Rightarrow> node_id \<Rightarrow> u32 \<Rightarrow> node_ref \<times> node_table" where
  "intern t nid now =
     (let t = t\<lparr>nd_last_evicted := False\<rparr> in
      case nd_find t nid of
        Some i \<Rightarrow> nd_touch t i now
      | None \<Rightarrow>
          (case free_or_evict t of
             (None, t) \<Rightarrow> (NODE_REF_NONE, t)
           | (Some i, t) \<Rightarrow> nd_touch (nd_fill t i nid) i now))"

text \<open>The slot a handle refers to, if its index is in range, the slot is used and the generation matches.\<close>

definition nd_slot :: "node_table \<Rightarrow> node_ref \<Rightarrow> nslot option" where
  "nd_slot t r =
     (if NODE_TABLE_CAP \<le> unat (r_idx r) then None
      else let s = nd_slots t ! unat (r_idx r) in
        if \<not> ns_used s \<or> ns_gen s \<noteq> r_gen r then None else Some s)"

definition resolve :: "node_table \<Rightarrow> node_ref \<Rightarrow> node_id option" where
  "resolve t r = map_option ns_id (nd_slot t r)"

definition nd_same :: "node_ref \<Rightarrow> node_ref \<Rightarrow> bool" where
  "nd_same a b \<longleftrightarrow> \<not> ref_is_none a \<and> a = b"

definition verified :: "node_table \<Rightarrow> node_ref \<Rightarrow> bool" where
  "verified t r \<longleftrightarrow> (case nd_slot t r of None \<Rightarrow> False | Some s \<Rightarrow> ns_verified s)"

definition mark_verified :: "node_table \<Rightarrow> node_ref \<Rightarrow> bytes \<Rightarrow> node_table" where
  "mark_verified t r pub = (case nd_slot t r of
     None \<Rightarrow> t
   | Some s \<Rightarrow> t\<lparr>nd_slots := upd_at (unat (r_idx r)) (\<lambda>s. s\<lparr>ns_verified := True, ns_pub := pub\<rparr>) (nd_slots t)\<rparr>)"

text \<open>The bindings the callback is called with, in order.\<close>

definition for_each_verified :: "node_table \<Rightarrow> (node_id \<times> bytes) list" where
  "for_each_verified t = map (\<lambda>s. (ns_id s, ns_pub s)) (filter (\<lambda>s. ns_used s \<and> ns_verified s) (nd_slots t))"

definition pin :: "node_table \<Rightarrow> node_ref \<Rightarrow> bool \<Rightarrow> node_table" where
  "pin t r on = (case nd_slot t r of
     None \<Rightarrow> t
   | Some s \<Rightarrow> t\<lparr>nd_slots := upd_at (unat (r_idx r)) (\<lambda>s. s\<lparr>ns_pinned := on\<rparr>) (nd_slots t)\<rparr>)"

section \<open>Invariant\<close>

interpretation nds: slot_table ns_used ns_id "\<lambda>s. s\<lparr>ns_used := False\<rparr>"
  by unfold_locales simp

definition nd_inv :: "node_table \<Rightarrow> bool" where
  "nd_inv t \<longleftrightarrow> length (nd_slots t) = NODE_TABLE_CAP \<and> slots_distinct ns_used ns_id (nd_slots t)"

lemma nd_inv_init: "nd_inv NodeTable_init"
  by (simp add: nd_inv_def NodeTable_init_def Nslot_init_def nds.distinct_replicate)

text \<open>What \<^verbatim>\<open>intern\<close> does to the slots: it touches a known id, fills a free slot, or reuses an unpinned one with
  the next generation; or it fails because every slot is used and pinned.\<close>

definition nd_occupy :: "node_id \<Rightarrow> u32 \<Rightarrow> u8 \<Rightarrow> nslot \<Rightarrow> nslot" where
  "nd_occupy nid now g s = s\<lparr>ns_gen := g, ns_id := nid, ns_used := True, ns_verified := False,
     ns_pinned := False, ns_last_ms := now\<rparr>"

lemma intern_cases:
  assumes "nd_inv t"
  obtains (known) i where "slot_find ns_used ns_id nid (nd_slots t) = Some i"
      "intern t nid now = (\<lparr>r_idx = of_nat i, r_gen = ns_gen (nd_slots t ! i)\<rparr>,
         t\<lparr>nd_last_evicted := False, nd_slots := (nd_slots t)[i := (nd_slots t ! i)\<lparr>ns_last_ms := now\<rparr>]\<rparr>)"
  | (fresh) i where "slot_find ns_used ns_id nid (nd_slots t) = None" "i < length (nd_slots t)" "\<not> ns_used (nd_slots t ! i)"
      "intern t nid now = (\<lparr>r_idx = of_nat i, r_gen = ns_gen (nd_slots t ! i)\<rparr>,
         t\<lparr>nd_last_evicted := False, nd_slots := (nd_slots t)[i := nd_occupy nid now (ns_gen (nd_slots t ! i)) (nd_slots t ! i)]\<rparr>)"
  | (evicted) i where "slot_find ns_used ns_id nid (nd_slots t) = None" "\<forall>s\<in>set (nd_slots t). ns_used s"
      "best_idx (\<lambda>s. \<not> ns_pinned s) lru_older (nd_slots t) = Some i" "i < length (nd_slots t)" "\<not> ns_pinned (nd_slots t ! i)"
      "intern t nid now = (\<lparr>r_idx = of_nat i, r_gen = ns_gen (nd_slots t ! i) + 1\<rparr>,
         t\<lparr>nd_slots := (nd_slots t)[i := nd_occupy nid now (ns_gen (nd_slots t ! i) + 1) (nd_slots t ! i)], nd_last_evicted := True\<rparr>)"
  | (saturated) "slot_find ns_used ns_id nid (nd_slots t) = None" "\<forall>s\<in>set (nd_slots t). ns_used s \<and> ns_pinned s"
      "intern t nid now = (NODE_REF_NONE, t\<lparr>nd_last_evicted := False\<rparr>)"
proof -
  show thesis
  proof (cases "slot_find ns_used ns_id nid (nd_slots t)")
    case (Some i)
    then have "i < length (nd_slots t)" using nds.find_SomeD by blast
    with Some show thesis by (intro known [of i]) (simp_all add: intern_def nd_find_def nd_touch_def upd_at_def)
  next
    case none: None
    show thesis
    proof (cases "find_idx (\<lambda>s. \<not> ns_used s) (nd_slots t)")
      case (Some i)
      note lt = find_idx_lt [OF Some]
      show thesis using none Some lt find_idx_sat [OF Some]
        by (intro fresh [of i])
          (simp_all add: intern_def nd_find_def free_or_evict_def nd_fill_def nd_touch_def upd_at_def nd_occupy_def)
    next
      case all: None
      then have used: "\<forall>s\<in>set (nd_slots t). ns_used s" by (simp add: find_idx_None_iff)
      show thesis
      proof (cases "best_idx (\<lambda>s. \<not> ns_pinned s) lru_older (nd_slots t)")
        case None
        moreover from this have "\<forall>s\<in>set (nd_slots t). ns_pinned s" by (simp add: best_idx_None)
        ultimately show thesis using none all used
          by (intro saturated) (simp_all add: intern_def nd_find_def free_or_evict_def)
      next
        case (Some i)
        with best_idx_Some [OF Some] show thesis using none all used
          by (intro evicted [of i])
            (simp_all add: intern_def nd_find_def free_or_evict_def nd_fill_def nd_touch_def upd_at_def nd_occupy_def)
      qed
    qed
  qed
qed

lemma nd_slot_idx: "nd_inv t \<Longrightarrow> i < NODE_TABLE_CAP \<Longrightarrow>
  nd_slot t \<lparr>r_idx = of_nat i, r_gen = g\<rparr> = (if ns_used (nd_slots t ! i) \<and> ns_gen (nd_slots t ! i) = g then Some (nd_slots t ! i) else None)"
proof -
  assume "i < NODE_TABLE_CAP"
  then have "unat (of_nat i :: u8) = i" by (simp add: NODE_TABLE_CAP_def unsigned_of_nat take_bit_nat_eq_self)
  with \<open>i < NODE_TABLE_CAP\<close> show ?thesis by (simp add: nd_slot_def Let_def)
qed

lemma nd_inv_upd:
  assumes "nd_inv t" and "i < NODE_TABLE_CAP" and "ns_used s" and "ns_id s = nid"
    and "slot_find ns_used ns_id nid (nd_slots t) = None \<or> slot_find ns_used ns_id nid (nd_slots t) = Some i"
  shows "nd_inv (t\<lparr>nd_last_evicted := e, nd_slots := (nd_slots t)[i := s]\<rparr>)"
  using assms nds.find_SomeD [of nid "nd_slots t" i]
  by (auto simp: nd_inv_def intro: nds.distinct_claim nds.distinct_refresh)

lemma nd_inv_intern [inv_intros]: "nd_inv t \<Longrightarrow> nd_inv (snd (intern t nid now))"
proof -
  assume inv: "nd_inv t"
  note len = inv [unfolded nd_inv_def, THEN conjunct1]
  from inv show ?thesis
  proof (cases rule: intern_cases [where nid = nid and now = now])
    case (known i)
    then show ?thesis using nd_inv_upd [OF inv, of i _ nid False] len nds.find_SomeD [OF known(1)] by simp
  next
    case (fresh i)
    then show ?thesis using nd_inv_upd [OF inv, of i _ nid False] len by (simp add: nd_occupy_def)
  next
    case (evicted i)
    then show ?thesis using nd_inv_upd [OF inv, of i "nd_occupy nid now (ns_gen (nd_slots t ! i) + 1) (nd_slots t ! i)" nid True] len
      by (simp add: nd_occupy_def nd_inv_def)
  next
    case saturated
    then show ?thesis using inv by (simp add: nd_inv_def)
  qed
qed

lemma nd_slotD:
  "nd_slot t r = Some s \<Longrightarrow> unat (r_idx r) < NODE_TABLE_CAP \<and> s = nd_slots t ! unat (r_idx r) \<and> ns_used s \<and> ns_gen s = r_gen r"
  by (auto simp: nd_slot_def Let_def split: if_splits)

text \<open>An update of one live slot that keeps its id and liveness.\<close>

lemma nd_inv_modify:
  assumes "nd_inv t" "nd_slot t r = Some s" "\<And>s. ns_used (f s) = ns_used s" "\<And>s. ns_id (f s) = ns_id s"
  shows "nd_inv (t\<lparr>nd_slots := upd_at (unat (r_idx r)) f (nd_slots t)\<rparr>)"
  using assms nd_slotD [OF assms(2)]
  by (auto simp: nd_inv_def upd_at_def intro!: nds.distinct_refresh)

lemma nd_inv_mark_verified [inv_intros]: "nd_inv t \<Longrightarrow> nd_inv (mark_verified t r pub)"
  by (auto simp: mark_verified_def intro: nd_inv_modify split: option.splits)

lemma nd_inv_pin [inv_intros]: "nd_inv t \<Longrightarrow> nd_inv (pin t r on)"
  by (auto simp: pin_def intro: nd_inv_modify split: option.splits)

section \<open>Interning\<close>

lemma handle_idx:
  assumes "i < NODE_TABLE_CAP"
  shows "unat (of_nat i :: u8) = i" "\<not> ref_is_none \<lparr>r_idx = of_nat i, r_gen = g\<rparr>"
proof -
  show u: "unat (of_nat i :: u8) = i" using assms by (simp add: NODE_TABLE_CAP_def unsigned_of_nat take_bit_nat_eq_self)
  have "of_nat i \<noteq> (0xFF :: u8)"
  proof
    assume "of_nat i = (0xFF :: u8)"
    with u have "i = 255" by simp
    with assms show False by (simp add: NODE_TABLE_CAP_def)
  qed
  then show "\<not> ref_is_none \<lparr>r_idx = of_nat i, r_gen = g\<rparr>" by (simp add: ref_is_none_def NODE_REF_NONE_def)
qed

text \<open>Handles after one slot has been rewritten.\<close>

lemma resolve_update:
  assumes "nd_inv t" and "i < NODE_TABLE_CAP" and "ns_used s"
  shows "resolve (t\<lparr>nd_last_evicted := e, nd_slots := (nd_slots t)[i := s]\<rparr>) \<lparr>r_idx = of_nat i, r_gen = ns_gen s\<rparr> = Some (ns_id s)"
    and "resolve (t\<lparr>nd_last_evicted := e, nd_slots := (nd_slots t)[i := s]\<rparr>) q =
      (if unat (r_idx q) \<noteq> i then resolve t q else if ns_gen s = r_gen q then Some (ns_id s) else None)"
  using assms handle_idx(1) [OF assms(2)] by (auto simp: nd_inv_def resolve_def nd_slot_def Let_def)

lemma resolve_at:
  "i < NODE_TABLE_CAP \<Longrightarrow> unat (r_idx q) = i \<Longrightarrow>
     resolve t q = (if ns_used (nd_slots t ! i) \<and> ns_gen (nd_slots t ! i) = r_gen q then Some (ns_id (nd_slots t ! i)) else None)"
  by (auto simp: resolve_def nd_slot_def Let_def)

lemma intern_outcome:
  assumes "nd_inv t" and "intern t nid now = (r, t')"
  shows "nd_inv t'
    \<and> (ref_is_none r \<longleftrightarrow> nd_find t nid = None \<and> (\<forall>s\<in>set (nd_slots t). ns_used s \<and> ns_pinned s))
    \<and> (\<not> ref_is_none r \<longrightarrow> resolve t' r = Some nid)
    \<and> (resolve t q = Some j \<longrightarrow> resolve t' q = Some j \<or>
         resolve t' q = None \<and> nd_last_evicted t' \<and> \<not> ns_pinned (nd_slots t ! unat (r_idx q)))"
proof -
  note len = assms(1) [unfolded nd_inv_def, THEN conjunct1]
  have inv': "nd_inv t'" using nd_inv_intern [OF assms(1), of nid now] assms(2) by simp
  from assms(1) show ?thesis
  proof (cases rule: intern_cases [where nid = nid and now = now])
    case (known i)
    note f = nds.find_SomeD [OF known(1)]
    then have i: "i < NODE_TABLE_CAP" using len by simp
    have r: "r = \<lparr>r_idx = of_nat i, r_gen = ns_gen (nd_slots t ! i)\<rparr>"
      and t': "t' = t\<lparr>nd_last_evicted := False, nd_slots := (nd_slots t)[i := (nd_slots t ! i)\<lparr>ns_last_ms := now\<rparr>]\<rparr>"
      using known(2) assms(2) by simp_all
    show ?thesis
      using resolve_update [OF assms(1) i, of "(nd_slots t ! i)\<lparr>ns_last_ms := now\<rparr>" False] handle_idx(2) [OF i]
        resolve_at [OF i, of q t] f known(1) inv'
      by (auto simp: r t' nd_find_def)
  next
    case (fresh i)
    then have i: "i < NODE_TABLE_CAP" using len by simp
    let ?s = "nd_occupy nid now (ns_gen (nd_slots t ! i)) (nd_slots t ! i)"
    have r: "r = \<lparr>r_idx = of_nat i, r_gen = ns_gen ?s\<rparr>"
      and t': "t' = t\<lparr>nd_last_evicted := False, nd_slots := (nd_slots t)[i := ?s]\<rparr>"
      using fresh(4) assms(2) by (simp_all add: nd_occupy_def)
    have "\<not> (\<forall>s\<in>set (nd_slots t). ns_used s \<and> ns_pinned s)" using fresh(2,3) nth_mem by blast
    then show ?thesis
      using resolve_update [OF assms(1) i, of ?s False] handle_idx(2) [OF i] resolve_at [OF i, of q t] fresh(3) inv'
      by (auto simp: r t' nd_occupy_def)
  next
    case (evicted i)
    then have i: "i < NODE_TABLE_CAP" using len by simp
    let ?s = "nd_occupy nid now (ns_gen (nd_slots t ! i) + 1) (nd_slots t ! i)"
    have r: "r = \<lparr>r_idx = of_nat i, r_gen = ns_gen ?s\<rparr>"
      and t': "t' = t\<lparr>nd_last_evicted := True, nd_slots := (nd_slots t)[i := ?s]\<rparr>"
      using evicted(6) assms(2) by (simp_all add: nd_occupy_def)
    have "\<not> (\<forall>s\<in>set (nd_slots t). ns_used s \<and> ns_pinned s)" using evicted(4,5) nth_mem by blast
    moreover have "g + 1 \<noteq> (g :: u8)" for g by simp
    ultimately show ?thesis
      using resolve_update [OF assms(1) i, of ?s True] handle_idx(2) [OF i] resolve_at [OF i, of q t] evicted(5) inv'
      by (auto simp: r t' nd_occupy_def split: if_splits)
  next
    case saturated
    then have "r = NODE_REF_NONE" "t' = t\<lparr>nd_last_evicted := False\<rparr>" using assms(2) by simp_all
    with saturated inv' show ?thesis
      by (simp add: ref_is_none_def nd_find_def resolve_def nd_slot_def)
  qed
qed

text \<open>
  Interning works: the handle returned for an id resolves to that id; \<^verbatim>\<open>intern\<close> fails only for an
  unknown id when all 64 slots are used and pinned; it never evicts a pinned entry, and every other
  handle that resolved before either still resolves to the same id or, when its slot was the one evicted,
  does not resolve at all.
\<close>

theorem intern_resolves:
  assumes "nd_inv t" and "intern t nid now = (r, t')"
  shows "nd_inv t'
    \<and> (ref_is_none r \<longleftrightarrow> nd_find t nid = None \<and> (\<forall>s\<in>set (nd_slots t). ns_used s \<and> ns_pinned s))
    \<and> (\<not> ref_is_none r \<longrightarrow> resolve t' r = Some nid)
    \<and> (resolve t q = Some j \<longrightarrow> resolve t' q = Some j \<or>
         resolve t' q = None \<and> nd_last_evicted t' \<and> \<not> ns_pinned (nd_slots t ! unat (r_idx q)))"
  using assms by (rule intern_outcome)

theorem intern_resolves_witness:
  "resolve (snd (intern NodeTable_init (nid_from_u32 5) 9)) (fst (intern NodeTable_init (nid_from_u32 5) 9)) = Some (nid_from_u32 5)"
proof -
  have "\<not> ref_is_none (fst (intern NodeTable_init (nid_from_u32 5) 9))" by code_simp
  with intern_resolves [OF nd_inv_init, of "nid_from_u32 5" 9] show ?thesis by (metis prod.collapse)
qed

section \<open>Stale handles\<close>

datatype nd_op = Op_intern node_id u32 | Op_pin node_ref bool | Op_mark node_ref bytes

fun nd_step :: "nd_op \<Rightarrow> node_table \<Rightarrow> node_table" where
  "nd_step (Op_intern nid now) t = snd (intern t nid now)"
| "nd_step (Op_pin r on) t = pin t r on"
| "nd_step (Op_mark r pub) t = mark_verified t r pub"

fun evictions :: "nd_op list \<Rightarrow> node_table \<Rightarrow> nat" where
  "evictions [] t = 0"
| "evictions (x # xs) t =
     (case x of Op_intern nid now \<Rightarrow> if nd_last_evicted (nd_step x t) then 1 else 0 | _ \<Rightarrow> 0)
     + evictions xs (nd_step x t)"

lemma nd_inv_step: "nd_inv t \<Longrightarrow> nd_inv (nd_step x t)"
  by (cases x) (simp_all add: inv_intros)

text \<open>One step leaves the occupant of a slot alone, unless it evicts it.\<close>

definition same_occupant :: "nslot \<Rightarrow> nslot \<Rightarrow> bool" where
  "same_occupant s s' \<longleftrightarrow> ns_gen s' = ns_gen s \<and> (ns_used s \<longrightarrow> ns_used s' \<and> ns_id s' = ns_id s)"

lemma same_occupant_refl [simp]: "same_occupant s s"
  by (simp add: same_occupant_def)

lemma same_occupant_trans: "same_occupant a b \<Longrightarrow> same_occupant b c \<Longrightarrow> same_occupant a c"
  by (simp add: same_occupant_def)

lemma modify_occupant:
  assumes "nd_inv t" "i < NODE_TABLE_CAP" "\<And>s. same_occupant s (f s)"
  shows "same_occupant (nd_slots t ! i) (upd_at k f (nd_slots t) ! i)"
  using assms by (simp add: nth_upd_at nd_inv_def)

lemma nd_step_slot:
  assumes "nd_inv t" and "i < NODE_TABLE_CAP"
  shows "same_occupant (nd_slots t ! i) (nd_slots (nd_step x t) ! i) \<or>
    evictions [x] t = 1 \<and> ns_gen (nd_slots (nd_step x t) ! i) = ns_gen (nd_slots t ! i) + 1"
proof (cases x)
  case (Op_intern nid now)
  note len = assms(1) [unfolded nd_inv_def, THEN conjunct1]
  from assms(1) show ?thesis
  proof (cases rule: intern_cases [where nid = nid and now = now])
    case (known k)
    with Op_intern assms len show ?thesis by (cases "k = i") (auto simp: same_occupant_def)
  next
    case (fresh k)
    with Op_intern assms len show ?thesis by (auto simp: nth_list_update same_occupant_def nd_occupy_def)
  next
    case (evicted k)
    with Op_intern assms len show ?thesis by (auto simp: nth_list_update same_occupant_def nd_occupy_def)
  next
    case saturated
    with Op_intern show ?thesis by simp
  qed
next
  case (Op_pin r on)
  with modify_occupant [OF assms] show ?thesis
    by (auto simp: pin_def same_occupant_def split: option.splits)
next
  case (Op_mark r pub)
  with modify_occupant [OF assms] show ?thesis
    by (auto simp: mark_verified_def same_occupant_def split: option.splits)
qed

lemma nd_run_slot:
  "nd_inv t \<Longrightarrow> i < NODE_TABLE_CAP \<Longrightarrow>
     \<exists>k\<le>evictions xs t. ns_gen (nd_slots (fold nd_step xs t) ! i) = ns_gen (nd_slots t ! i) + of_nat k
       \<and> (k = 0 \<longrightarrow> same_occupant (nd_slots t ! i) (nd_slots (fold nd_step xs t) ! i))"
proof (induction xs arbitrary: t)
  case Nil
  then show ?case by simp
next
  case (Cons x xs)
  let ?t = "nd_step x t"
  obtain k where k: "k \<le> evictions xs ?t" "ns_gen (nd_slots (fold nd_step xs ?t) ! i) = ns_gen (nd_slots ?t ! i) + of_nat k"
      "k = 0 \<longrightarrow> same_occupant (nd_slots ?t ! i) (nd_slots (fold nd_step xs ?t) ! i)"
    using Cons.IH [OF nd_inv_step [OF Cons.prems(1)] Cons.prems(2)] by blast
  from nd_step_slot [OF Cons.prems, of x] show ?case
  proof
    assume o: "same_occupant (nd_slots t ! i) (nd_slots ?t ! i)"
    then have "ns_gen (nd_slots ?t ! i) = ns_gen (nd_slots t ! i)" by (simp add: same_occupant_def)
    with k o same_occupant_trans show ?thesis by (intro exI [of _ k]) auto
  next
    assume e: "evictions [x] t = 1 \<and> ns_gen (nd_slots ?t ! i) = ns_gen (nd_slots t ! i) + 1"
    then have "evictions (x # xs) t = Suc (evictions xs ?t)" by (cases x) auto
    with k e show ?thesis by (intro exI [of _ "Suc k"]) (auto simp: add.assoc add.commute)
  qed
qed

text \<open>
  C29. A stale handle never aliases to another node: after any sequence of operations, a handle that
  resolved to one id resolves to that id or not at all, as long as there were fewer than 256 evictions,
  the period of the one-byte generation.
\<close>

theorem stale_handle_detected:
  assumes "nd_inv t" and "resolve t r = Some nid" and "evictions ops t < 256"
    and "resolve (fold nd_step ops t) r = Some nid'"
  shows "nid' = nid"
proof -
  let ?i = "unat (r_idx r)"
  have i: "?i < NODE_TABLE_CAP" using assms(2) by (auto simp: resolve_def dest: nd_slotD)
  obtain k where k: "k \<le> evictions ops t" "ns_gen (nd_slots (fold nd_step ops t) ! ?i) = ns_gen (nd_slots t ! ?i) + of_nat k"
      "k = 0 \<longrightarrow> same_occupant (nd_slots t ! ?i) (nd_slots (fold nd_step ops t) ! ?i)"
    using nd_run_slot [OF assms(1) i] by blast
  have s: "ns_used (nd_slots t ! ?i)" "ns_gen (nd_slots t ! ?i) = r_gen r" "ns_id (nd_slots t ! ?i) = nid"
    "ns_gen (nd_slots (fold nd_step ops t) ! ?i) = r_gen r" "ns_id (nd_slots (fold nd_step ops t) ! ?i) = nid'"
    using assms(2,4) by (auto simp: resolve_at [OF i refl] split: if_splits)
  then have "(of_nat k :: u8) = 0" using k(2) by simp
  moreover have "unat (of_nat k :: u8) = k" using k(1) assms(3) by (simp add: unsigned_of_nat take_bit_nat_eq_self)
  ultimately have "k = 0" by simp
  with k(3) s show ?thesis by (simp add: same_occupant_def)
qed

theorem stale_handle_detected_witness:
  "resolve (fold nd_step [Op_intern (nid_from_u32 6) 10] (snd (intern NodeTable_init (nid_from_u32 5) 9)))
     \<lparr>r_idx = 0, r_gen = 0\<rparr> = Some (nid_from_u32 5)"
proof -
  let ?t = "snd (intern NodeTable_init (nid_from_u32 5) 9)" and ?ops = "[Op_intern (nid_from_u32 6) 10]"
  have inv: "nd_inv ?t" by (rule nd_inv_intern [OF nd_inv_init])
  have r: "resolve ?t \<lparr>r_idx = 0, r_gen = 0\<rparr> = Some (nid_from_u32 5)"
    and e: "evictions ?ops ?t < 256"
    and "resolve (fold nd_step ?ops ?t) \<lparr>r_idx = 0, r_gen = 0\<rparr> \<noteq> None" by code_simp+
  then obtain nid' where "resolve (fold nd_step ?ops ?t) \<lparr>r_idx = 0, r_gen = 0\<rparr> = Some nid'" by blast
  with stale_handle_detected [OF inv r e this] show ?thesis by simp
qed

section \<open>Eviction and verification\<close>

text \<open>Only the oldest unpinned slot is evicted, by the wrap-around clock.\<close>

lemma evicts_oldest:
  assumes "best_idx (\<lambda>s. \<not> ns_pinned s) lru_older (nd_slots t) = Some v"
    and "\<forall>s\<in>set (nd_slots t). unat (ns_last_ms s - base) < 2 ^ 31"
    and "j < length (nd_slots t)" and "\<not> ns_pinned (nd_slots t ! j)"
  shows "unat (ns_last_ms (nd_slots t ! v) - base) \<le> unat (ns_last_ms (nd_slots t ! j) - base)"
proof -
  have older: "lru_older a b \<longleftrightarrow> unat (ns_last_ms a - base) < unat (ns_last_ms b - base)"
    if "a \<in> set (nd_slots t)" "b \<in> set (nd_slots t)" for a b
    using before32_deadline [of "ns_last_ms b - base" "ns_last_ms a - base" base] assms(2) that
    by (simp add: lru_older_def)
  from best_idx_min [OF assms(1), of "\<lambda>s. unat (ns_last_ms s - base)", OF older assms(3,4)] show ?thesis .
qed

text \<open>Every verified entry is bound to its id by the hash of its key.\<close>

definition nd_bound :: "(bytes \<Rightarrow> bytes) \<Rightarrow> node_table \<Rightarrow> bool" where
  "nd_bound h t \<longleftrightarrow> (\<forall>s\<in>set (nd_slots t). ns_used s \<and> ns_verified s \<longrightarrow> nid_from_pubkey h (ns_pub s) = ns_id s)"

lemma nd_bound_init: "nd_bound h NodeTable_init"
  by (simp add: nd_bound_def NodeTable_init_def Nslot_init_def)

lemma nd_bound_intern [inv_intros]: "nd_inv t \<Longrightarrow> nd_bound h t \<Longrightarrow> nd_bound h (snd (intern t nid now))"
proof -
  assume inv: "nd_inv t" and b: "nd_bound h t"
  from inv show ?thesis
  proof (cases rule: intern_cases [where nid = nid and now = now])
    case (known i)
    note f = nds.find_SomeD [OF known(1)]
    have "nid_from_pubkey h (ns_pub (nd_slots t ! i)) = ns_id (nd_slots t ! i)" if "ns_verified (nd_slots t ! i)"
      using b f that nth_mem [of i "nd_slots t"] by (auto simp: nd_bound_def)
    with known b show ?thesis by (auto simp: nd_bound_def dest!: subsetD [OF set_update_subset_insert])
  next
    case (fresh i)
    with b show ?thesis by (auto simp: nd_bound_def nd_occupy_def dest!: subsetD [OF set_update_subset_insert])
  next
    case (evicted i)
    with b show ?thesis by (auto simp: nd_bound_def nd_occupy_def dest!: subsetD [OF set_update_subset_insert])
  next
    case saturated
    with b show ?thesis by (simp add: nd_bound_def)
  qed
qed

lemma nd_bound_pin [inv_intros]: "nd_inv t \<Longrightarrow> nd_bound h t \<Longrightarrow> nd_bound h (pin t r on)"
  by (auto simp: nd_bound_def pin_def upd_at_def dest!: subsetD [OF set_update_subset_insert] split: option.splits)

lemma nd_bound_mark [inv_intros]:
  assumes "nd_inv t" "nd_bound h t" "\<And>nid. resolve t r = Some nid \<Longrightarrow> nid_from_pubkey h pub = nid"
  shows "nd_bound h (mark_verified t r pub)"
proof (cases "nd_slot t r")
  case None
  with assms show ?thesis by (simp add: mark_verified_def)
next
  case (Some s)
  then have "nid_from_pubkey h pub = ns_id s" using assms(3) by (simp add: resolve_def)
  with nd_slotD [OF Some] Some assms(1,2) show ?thesis
    by (auto simp: nd_bound_def mark_verified_def upd_at_def nd_inv_def dest!: subsetD [OF set_update_subset_insert])
qed

lemma nd_bound_verified:
  "nd_bound h t \<Longrightarrow> (i, pk) \<in> set (for_each_verified t) \<Longrightarrow> i = nid_from_pubkey h pk"
  by (auto simp: nd_bound_def for_each_verified_def)

end
