(* ===== verification/Locator_Dir.thy ===== *)
theory Locator_Dir
  imports Mesh_Types Slot_Table Wire_Codec
begin

text \<open>
  \<^verbatim>\<open>lib/mesh/locator_dir.h/.cpp\<close>: the distributed directory from opaque identities to the node that serves
  them. Three wire messages (REGISTER, QUERY, REPLY), a cache of 32 bindings with lifetime and LRU
  eviction, and the table of in-flight resolutions.

  An id field of length at most sixteen is the byte list of that length.
\<close>

section \<open>Messages\<close>

definition LOC_ID_MAX :: nat where "LOC_ID_MAX = 16"
definition LOC_DIR_CAP :: nat where "LOC_DIR_CAP = 32"
definition LOC_MAX_PENDING :: nat where "LOC_MAX_PENDING = 8"

definition LOC_REGISTER :: u8 where "LOC_REGISTER = 1"
definition LOC_QUERY :: u8 where "LOC_QUERY = 2"
definition LOC_REPLY :: u8 where "LOC_REPLY = 3"

record loc_msg =
  lm_kind :: u8
  lm_qid :: u16
  lm_epoch :: u16
  lm_seq :: u16
  lm_ttl_s :: u16
  lm_loc :: node_id
  lm_id :: bytes

definition LocMsg_init :: loc_msg where
  "LocMsg_init = \<lparr>lm_kind = 0, lm_qid = 0, lm_epoch = 0, lm_seq = 0, lm_ttl_s = 0, lm_loc = nid_zero, lm_id = []\<rparr>"

definition loc_id_ok :: "bytes \<Rightarrow> bool" where
  "loc_id_ok i \<longleftrightarrow> \<not> (length i = 0 \<or> LOC_ID_MAX < length i)"

definition loc_build_register :: "u16 \<Rightarrow> u16 \<Rightarrow> u16 \<Rightarrow> bytes \<Rightarrow> nat \<Rightarrow> bytes option" where
  "loc_build_register epoch seq ttl_s i cap =
     (if \<not> loc_id_ok i then None
      else if cap < 1 + 2 + 2 + 2 + 1 + length i then None
      else Some ([LOC_REGISTER] @ put_u16 epoch @ put_u16 seq @ put_u16 ttl_s @ [of_nat (length i)] @ i))"

definition loc_build_query :: "u16 \<Rightarrow> bytes \<Rightarrow> nat \<Rightarrow> bytes option" where
  "loc_build_query qid i cap =
     (if \<not> loc_id_ok i then None
      else if cap < 1 + 2 + 1 + length i then None
      else Some ([LOC_QUERY] @ put_u16 qid @ [of_nat (length i)] @ i))"

definition loc_build_reply :: "u16 \<Rightarrow> u16 \<Rightarrow> u16 \<Rightarrow> u16 \<Rightarrow> node_id \<Rightarrow> bytes \<Rightarrow> nat \<Rightarrow> bytes option" where
  "loc_build_reply qid epoch seq ttl_s loc i cap =
     (if \<not> loc_id_ok i then None
      else if cap < 1 + 2 + 2 + 2 + 2 + 16 + 1 + length i then None
      else Some ([LOC_REPLY] @ put_u16 qid @ put_u16 epoch @ put_u16 seq @ put_u16 ttl_s @ nid_write loc
                 @ [of_nat (length i)] @ i))"

text \<open>\<^verbatim>\<open>read_id\<close>: the trailing length and id, which must use up the message.\<close>

definition read_id :: "bytes \<Rightarrow> nat \<Rightarrow> bytes option option" where
  "read_id msg p =
     (if length msg < p + 1 then Some None
      else do {
        il \<leftarrow> rd8 msg p;
        if il = 0 \<or> LOC_ID_MAX < unat il then Some None
        else if p + 1 + unat il \<noteq> length msg then Some None
        else do { i \<leftarrow> rdn msg (p + 1) (unat il); Some (Some i) } })"

definition with_id :: "loc_msg \<Rightarrow> bytes option option \<Rightarrow> loc_msg option option" where
  "with_id m r = map_option (map_option (\<lambda>i. m\<lparr>lm_id := i\<rparr>)) r"

definition loc_parse :: "bytes \<Rightarrow> loc_msg option option" where
  "loc_parse msg =
     (if length msg < 2 then Some None
      else do {
        kind \<leftarrow> rd8 msg 0;
        if kind = LOC_REGISTER then
          if length msg < 1 + 2 + 2 + 2 + 1 + 1 then Some None
          else do {
            epoch \<leftarrow> rd16 msg 1; seq \<leftarrow> rd16 msg 3; ttl_s \<leftarrow> rd16 msg 5;
            with_id (LocMsg_init\<lparr>lm_kind := kind, lm_epoch := epoch, lm_seq := seq, lm_ttl_s := ttl_s\<rparr>) (read_id msg 7) }
        else if kind = LOC_QUERY then
          if length msg < 1 + 2 + 1 + 1 then Some None
          else do {
            qid \<leftarrow> rd16 msg 1;
            with_id (LocMsg_init\<lparr>lm_kind := kind, lm_qid := qid\<rparr>) (read_id msg 3) }
        else if kind = LOC_REPLY then
          if length msg < 1 + 2 + 2 + 2 + 2 + 16 + 1 + 1 then Some None
          else do {
            qid \<leftarrow> rd16 msg 1; epoch \<leftarrow> rd16 msg 3; seq \<leftarrow> rd16 msg 5; ttl_s \<leftarrow> rd16 msg 7; loc \<leftarrow> rd_nid msg 9;
            with_id (LocMsg_init\<lparr>lm_kind := kind, lm_qid := qid, lm_epoch := epoch, lm_seq := seq,
              lm_ttl_s := ttl_s, lm_loc := loc\<rparr>) (read_id msg 25) }
        else Some None })"

text \<open>\<^verbatim>\<open>(int16_t)(a - b) > 0\<close>.\<close>

definition loc_seq_newer :: "u16 \<Rightarrow> u16 \<Rightarrow> bool" where
  "loc_seq_newer a b \<longleftrightarrow> 0 < sint (a - b)"

section \<open>The binding cache\<close>

record loc_binding =
  lb_loc :: node_id
  lb_epoch :: u16
  lb_seq :: u16
  lb_ttl_s :: u16

record loc_entry =
  le_id :: bytes
  le_used :: bool
  le_loc :: node_id
  le_epoch :: u16
  le_seq :: u16
  le_expiry_ms :: u32
  le_touched :: u32

record locator_dir =
  ld_e :: "loc_entry list"
  ld_clock :: u32

definition LocEntry_init :: loc_entry where
  "LocEntry_init = \<lparr>le_id = [], le_used = False, le_loc = nid_zero, le_epoch = 0, le_seq = 0, le_expiry_ms = 0, le_touched = 0\<rparr>"

definition LocatorDir_init :: locator_dir where
  "LocatorDir_init = \<lparr>ld_e = replicate LOC_DIR_CAP LocEntry_init, ld_clock = 0\<rparr>"

definition expired :: "loc_entry \<Rightarrow> u32 \<Rightarrow> bool" where
  "expired e now \<longleftrightarrow> \<not> before32 now (le_expiry_ms e)"

definition ld_find :: "locator_dir \<Rightarrow> bytes \<Rightarrow> nat option" where
  "ld_find d i = slot_find le_used le_id i (ld_e d)"

text \<open>The last slot of a scan that satisfies a condition.\<close>

definition find_last :: "('a \<Rightarrow> bool) \<Rightarrow> 'a list \<Rightarrow> nat option" where
  "find_last P xs = map_option (\<lambda>k. length xs - 1 - k) (find_idx P (rev xs))"

definition alloc_slot :: "locator_dir \<Rightarrow> u32 \<Rightarrow> nat option" where
  "alloc_slot d now =
     (case find_idx (\<lambda>e. \<not> le_used e) (ld_e d) of
        Some i \<Rightarrow> Some i
      | None \<Rightarrow>
          (case find_last (\<lambda>e. expired e now) (ld_e d) of
             Some i \<Rightarrow> Some i
           | None \<Rightarrow> best_idx (\<lambda>_. True) (\<lambda>a b. le_touched a < le_touched b) (ld_e d)))"

definition ttl_ms :: "u16 \<Rightarrow> u32" where
  "ttl_ms ttl_s = ucast ttl_s * 1000"

definition bind_entry :: "bytes \<Rightarrow> node_id \<Rightarrow> u16 \<Rightarrow> u16 \<Rightarrow> u16 \<Rightarrow> u32 \<Rightarrow> u32 \<Rightarrow> loc_entry" where
  "bind_entry i loc epoch seq ttl_s now stamp =
     \<lparr>le_id = i, le_used = True, le_loc = loc, le_epoch = epoch, le_seq = seq,
      le_expiry_ms = now + ttl_ms ttl_s, le_touched = stamp\<rparr>"

definition upsert :: "locator_dir \<Rightarrow> bytes \<Rightarrow> node_id \<Rightarrow> u16 \<Rightarrow> u16 \<Rightarrow> u16 \<Rightarrow> u32 \<Rightarrow> bool \<times> locator_dir" where
  "upsert d i loc epoch seq ttl_s now =
     (if \<not> loc_id_ok i then (False, d)
      else case ld_find d i of
        Some k \<Rightarrow>
          (let e = ld_e d ! k in
           if expired e now \<or> epoch = le_epoch e \<and> loc_seq_newer seq (le_seq e) \<or> epoch \<noteq> le_epoch e
           then (True, d\<lparr>ld_e := (ld_e d)[k := bind_entry (le_id e) loc epoch seq ttl_s now (ld_clock d + 1)],
                         ld_clock := ld_clock d + 1\<rparr>)
           else (False, d))
      | None \<Rightarrow>
          (case alloc_slot d now of
             None \<Rightarrow> (False, d)
           | Some k \<Rightarrow> (True, d\<lparr>ld_e := (ld_e d)[k := bind_entry i loc epoch seq ttl_s now (ld_clock d + 1)],
                               ld_clock := ld_clock d + 1\<rparr>)))"

definition ld_release :: "locator_dir \<Rightarrow> nat \<Rightarrow> locator_dir" where
  "ld_release d k = d\<lparr>ld_e := upd_at k (\<lambda>e. e\<lparr>le_used := False\<rparr>) (ld_e d)\<rparr>"

definition ld_touch :: "locator_dir \<Rightarrow> nat \<Rightarrow> locator_dir" where
  "ld_touch d k = d\<lparr>ld_e := upd_at k (\<lambda>e. e\<lparr>le_touched := ld_clock d + 1\<rparr>) (ld_e d), ld_clock := ld_clock d + 1\<rparr>"

definition loc_lookup :: "locator_dir \<Rightarrow> bytes \<Rightarrow> u32 \<Rightarrow> node_id option \<times> locator_dir" where
  "loc_lookup d i now =
     (case ld_find d i of
        None \<Rightarrow> (None, d)
      | Some k \<Rightarrow>
          if expired (ld_e d ! k) now then (None, ld_release d k)
          else (Some (le_loc (ld_e d ! k)), ld_touch d k))"

definition lookup_full :: "locator_dir \<Rightarrow> bytes \<Rightarrow> u32 \<Rightarrow> loc_binding option \<times> locator_dir" where
  "lookup_full d i now =
     (case ld_find d i of
        None \<Rightarrow> (None, d)
      | Some k \<Rightarrow>
          (let e = ld_e d ! k; rem_ms = le_expiry_ms e - now in
           if sint rem_ms \<le> 0 then (None, ld_release d k)
           else
             let s = rem_ms div 1000;
                 ttl = (if s = 0 then 1 else if 0xFFFF < s then 0xFFFF else ucast s)
             in (Some \<lparr>lb_loc = le_loc e, lb_epoch = le_epoch e, lb_seq = le_seq e, lb_ttl_s = ttl\<rparr>, ld_touch d k)))"

definition loc_remove :: "locator_dir \<Rightarrow> bytes \<Rightarrow> bool \<times> locator_dir" where
  "loc_remove d i = (case ld_find d i of None \<Rightarrow> (False, d) | Some k \<Rightarrow> (True, ld_release d k))"

definition loc_size :: "locator_dir \<Rightarrow> u32 \<Rightarrow> nat" where
  "loc_size d now = count_if (\<lambda>e. le_used e \<and> \<not> expired e now) (ld_e d)"

record loc_view =
  lv_id :: bytes
  lv_loc :: node_id
  lv_ttl_s :: u16

definition loc_snapshot :: "locator_dir \<Rightarrow> nat \<Rightarrow> u32 \<Rightarrow> loc_view list" where
  "loc_snapshot d cap now =
     map (\<lambda>e. let rem = le_expiry_ms e - now in
            \<lparr>lv_id = le_id e, lv_loc = le_loc e, lv_ttl_s = (if sint rem \<le> 0 then 0 else ucast (rem div 1000))\<rparr>)
       (take cap (filter (\<lambda>e. le_used e \<and> \<not> expired e now) (ld_e d)))"

section \<open>In-flight resolutions\<close>

record loc_pending =
  lp_used :: bool
  lp_id :: bytes
  lp_qid :: u16
  lp_deadline_ms :: u32

record locator_resolver =
  rv_p :: "loc_pending list"
  rv_next_qid :: u16

definition LocatorResolver_init :: locator_resolver where
  "LocatorResolver_init = \<lparr>rv_p = replicate LOC_MAX_PENDING \<lparr>lp_used = False, lp_id = [], lp_qid = 0, lp_deadline_ms = 0\<rparr>,
     rv_next_qid = 1\<rparr>"

definition lp_live :: "bytes \<Rightarrow> u32 \<Rightarrow> loc_pending \<Rightarrow> bool" where
  "lp_live i now p \<longleftrightarrow> lp_used p \<and> before32 now (lp_deadline_ms p) \<and> lp_id p = i"

definition rv_slot :: "locator_resolver \<Rightarrow> u32 \<Rightarrow> nat option" where
  "rv_slot v now =
     (case find_idx (\<lambda>p. \<not> lp_used p) (rv_p v) of
        Some k \<Rightarrow> Some k
      | None \<Rightarrow> find_last (\<lambda>p. \<not> before32 now (lp_deadline_ms p)) (rv_p v))"

text \<open>\<^verbatim>\<open>begin\<close>; the result 0 means that no resolution was started.\<close>

definition rv_begin :: "locator_resolver \<Rightarrow> bytes \<Rightarrow> u32 \<Rightarrow> u16 \<Rightarrow> u16 \<times> locator_resolver" where
  "rv_begin v i now timeout =
     (if \<not> loc_id_ok i then (0, v)
      else case find_idx (lp_live i now) (rv_p v) of
        Some k \<Rightarrow> (lp_qid (rv_p v ! k), v)
      | None \<Rightarrow>
          (case rv_slot v now of
             None \<Rightarrow> (0, v)
           | Some k \<Rightarrow>
               (let qid = rv_next_qid v; nq = qid + 1 in
                (qid, v\<lparr>rv_p := (rv_p v)[k := \<lparr>lp_used = True, lp_id = i, lp_qid = qid, lp_deadline_ms = now + ucast timeout\<rparr>],
                        rv_next_qid := (if nq = 0 then 1 else nq)\<rparr>))))"

definition rv_on_reply :: "locator_resolver \<Rightarrow> u16 \<Rightarrow> bool \<times> locator_resolver" where
  "rv_on_reply v qid =
     (case find_idx (\<lambda>p. lp_used p \<and> lp_qid p = qid) (rv_p v) of
        None \<Rightarrow> (False, v)
      | Some k \<Rightarrow> (True, v\<lparr>rv_p := upd_at k (\<lambda>p. p\<lparr>lp_used := False\<rparr>) (rv_p v)\<rparr>))"

definition rv_pending :: "locator_resolver \<Rightarrow> bytes \<Rightarrow> u32 \<Rightarrow> bool" where
  "rv_pending v i now \<longleftrightarrow> (\<exists>p\<in>set (rv_p v). lp_live i now p)"

definition rv_overdue :: "u32 \<Rightarrow> loc_pending \<Rightarrow> bool" where
  "rv_overdue now p \<longleftrightarrow> lp_used p \<and> \<not> before32 now (lp_deadline_ms p)"

definition rv_tick :: "locator_resolver \<Rightarrow> u32 \<Rightarrow> nat \<times> locator_resolver" where
  "rv_tick v now = (count_if (rv_overdue now) (rv_p v),
     v\<lparr>rv_p := map (\<lambda>p. if rv_overdue now p then p\<lparr>lp_used := False\<rparr> else p) (rv_p v)\<rparr>)"

section \<open>Codec lemmas\<close>

lemma read_id_at:
  assumes "loc_id_ok i" and "length pre = p"
  shows "read_id (pre @ of_nat (length i) # i @ tail) p = (if tail = [] then Some (Some i) else Some None)"
proof -
  have l: "0 < length i" "length i \<le> 16" using assms(1) by (auto simp: loc_id_ok_def LOC_ID_MAX_def)
  then have u: "unat (of_nat (length i) :: u8) = length i" by (simp add: unsigned_of_nat take_bit_nat_eq_self)
  then have "(of_nat (length i) :: u8) \<noteq> 0" using l by (metis less_numeral_extra(3) unsigned_0)
  moreover have "rd8 (pre @ of_nat (length i) # i @ tail) p = Some (of_nat (length i))" using assms(2) by (rule rd8_at)
  moreover have "rdn (pre @ of_nat (length i) # i) (p + 1) (length i) = Some i"
    using assms(2) by (simp add: rdn_def)
  ultimately show ?thesis using assms l u by (simp add: read_id_def LOC_ID_MAX_def)
qed

lemma read_id_total: "read_id msg p \<noteq> None"
proof (cases "length msg < p + 1")
  case False
  then have "rd8 msg p = Some (msg ! p)" by (simp add: rd_safe)
  then show ?thesis by (simp add: read_id_def rd_safe)
qed (simp add: read_id_def)

lemma with_id_simps [simp]:
  "with_id m (Some (Some i)) = Some (Some (m\<lparr>lm_id := i\<rparr>))" "with_id m (Some None) = Some None"
  by (simp_all add: with_id_def)

lemma with_id_total: "\<exists>y. with_id m (read_id msg p) = Some y"
  using read_id_total [of msg p] by (auto simp: with_id_def)

lemma loc_parse_total: "loc_parse msg \<noteq> None"
proof (cases "length msg < 2")
  case False
  then have "msg \<noteq> []" by auto
  then show ?thesis by (simp add: loc_parse_def rd_safe with_id_total)
qed (simp add: loc_parse_def)

lemmas loc_kinds = LOC_REGISTER_def LOC_QUERY_def LOC_REPLY_def

lemma loc_parse_register:
  assumes "loc_build_register epoch seq ttl_s i cap = Some bs"
  shows "loc_parse (bs @ tail) = Some (if tail = [] then Some (LocMsg_init\<lparr>lm_kind := LOC_REGISTER, lm_epoch := epoch,
      lm_seq := seq, lm_ttl_s := ttl_s, lm_id := i\<rparr>) else None)" "length bs \<le> cap"
proof -
  have ok: "loc_id_ok i" and bs: "bs = ([LOC_REGISTER] @ put_u16 epoch @ put_u16 seq @ put_u16 ttl_s) @ of_nat (length i) # i"
    and "length bs \<le> cap" using assms by (auto simp: loc_build_register_def split: if_splits)
  then show "length bs \<le> cap" by simp
  have "read_id (bs @ tail) 7 = (if tail = [] then Some (Some i) else Some None)"
    using read_id_at [OF ok, of "[LOC_REGISTER] @ put_u16 epoch @ put_u16 seq @ put_u16 ttl_s" 7 tail] by (simp add: bs)
  moreover have "rd8 (bs @ tail) 0 = Some LOC_REGISTER" "rd16 (bs @ tail) 1 = Some epoch" "rd16 (bs @ tail) 3 = Some seq"
    "rd16 (bs @ tail) 5 = Some ttl_s" by (simp_all add: bs codec_simps)
  moreover have "9 \<le> length bs" using ok by (cases i) (simp_all add: bs loc_id_ok_def)
  ultimately show "loc_parse (bs @ tail) = Some (if tail = [] then Some (LocMsg_init\<lparr>lm_kind := LOC_REGISTER, lm_epoch := epoch,
      lm_seq := seq, lm_ttl_s := ttl_s, lm_id := i\<rparr>) else None)" by (simp add: loc_parse_def del: One_nat_def)
qed

lemma loc_parse_query:
  assumes "loc_build_query qid i cap = Some bs"
  shows "loc_parse (bs @ tail) = Some (if tail = [] then Some (LocMsg_init\<lparr>lm_kind := LOC_QUERY, lm_qid := qid, lm_id := i\<rparr>) else None)"
    "length bs \<le> cap"
proof -
  have ok: "loc_id_ok i" and bs: "bs = ([LOC_QUERY] @ put_u16 qid) @ of_nat (length i) # i"
    and "length bs \<le> cap" using assms by (auto simp: loc_build_query_def split: if_splits)
  then show "length bs \<le> cap" by simp
  have "read_id (bs @ tail) 3 = (if tail = [] then Some (Some i) else Some None)"
    using read_id_at [OF ok, of "[LOC_QUERY] @ put_u16 qid" 3 tail] by (simp add: bs)
  moreover have "rd8 (bs @ tail) 0 = Some LOC_QUERY" "rd16 (bs @ tail) 1 = Some qid" by (simp_all add: bs codec_simps)
  moreover have "5 \<le> length bs" using ok by (cases i) (simp_all add: bs loc_id_ok_def)
  ultimately show "loc_parse (bs @ tail) = Some (if tail = [] then Some (LocMsg_init\<lparr>lm_kind := LOC_QUERY, lm_qid := qid, lm_id := i\<rparr>) else None)"
    by (simp add: loc_parse_def loc_kinds del: One_nat_def)
qed

lemma loc_parse_reply:
  assumes "loc_build_reply qid epoch seq ttl_s loc i cap = Some bs"
  shows "loc_parse (bs @ tail) = Some (if tail = [] then Some (LocMsg_init\<lparr>lm_kind := LOC_REPLY, lm_qid := qid,
      lm_epoch := epoch, lm_seq := seq, lm_ttl_s := ttl_s, lm_loc := loc, lm_id := i\<rparr>) else None)" "length bs \<le> cap"
proof -
  let ?pre = "[LOC_REPLY] @ put_u16 qid @ put_u16 epoch @ put_u16 seq @ put_u16 ttl_s @ nid_write loc"
  have ok: "loc_id_ok i" and bs: "bs = ?pre @ of_nat (length i) # i"
    and "length bs \<le> cap" using assms by (auto simp: loc_build_reply_def split: if_splits)
  then show "length bs \<le> cap" by simp
  have "read_id (bs @ tail) 25 = (if tail = [] then Some (Some i) else Some None)"
    using read_id_at [OF ok, of ?pre 25 tail] by (simp add: bs)
  moreover have "rd8 (bs @ tail) 0 = Some LOC_REPLY" "rd16 (bs @ tail) 1 = Some qid" "rd16 (bs @ tail) 3 = Some epoch"
    "rd16 (bs @ tail) 5 = Some seq" "rd16 (bs @ tail) 7 = Some ttl_s" "rd_nid (bs @ tail) 9 = Some loc"
    by (simp_all add: bs codec_simps)
  moreover have "27 \<le> length bs" using ok by (cases i) (simp_all add: bs loc_id_ok_def)
  ultimately show "loc_parse (bs @ tail) = Some (if tail = [] then Some (LocMsg_init\<lparr>lm_kind := LOC_REPLY, lm_qid := qid,
      lm_epoch := epoch, lm_seq := seq, lm_ttl_s := ttl_s, lm_loc := loc, lm_id := i\<rparr>) else None)"
    by (simp add: loc_parse_def loc_kinds del: One_nat_def)
qed

text \<open>The three builders as one encoder.\<close>

definition loc_enc :: "loc_msg \<Rightarrow> bytes" where
  "loc_enc m = the (
     if lm_kind m = LOC_REGISTER then loc_build_register (lm_epoch m) (lm_seq m) (lm_ttl_s m) (lm_id m) 255
     else if lm_kind m = LOC_QUERY then loc_build_query (lm_qid m) (lm_id m) 255
     else loc_build_reply (lm_qid m) (lm_epoch m) (lm_seq m) (lm_ttl_s m) (lm_loc m) (lm_id m) 255)"

definition loc_msg_ok :: "loc_msg \<Rightarrow> bool" where
  "loc_msg_ok m \<longleftrightarrow> loc_id_ok (lm_id m) \<and>
     (lm_kind m = LOC_REGISTER \<and> lm_qid m = 0 \<and> lm_loc m = nid_zero \<or>
      lm_kind m = LOC_QUERY \<and> lm_epoch m = 0 \<and> lm_seq m = 0 \<and> lm_ttl_s m = 0 \<and> lm_loc m = nid_zero \<or>
      lm_kind m = LOC_REPLY)"

lemma loc_parse_enc:
  assumes "loc_msg_ok m" shows "loc_parse (loc_enc m @ tail) = Some (if tail = [] then Some m else None)"
proof -
  have l: "length (lm_id m) \<le> 16" "loc_id_ok (lm_id m)" using assms by (auto simp: loc_msg_ok_def loc_id_ok_def LOC_ID_MAX_def)
  consider (reg) "lm_kind m = LOC_REGISTER" "lm_qid m = 0" "lm_loc m = nid_zero"
    | (query) "lm_kind m = LOC_QUERY" "lm_epoch m = 0" "lm_seq m = 0" "lm_ttl_s m = 0" "lm_loc m = nid_zero"
    | (reply) "lm_kind m = LOC_REPLY" using assms by (auto simp: loc_msg_ok_def)
  then show ?thesis
  proof cases
    case reg
    then have "loc_build_register (lm_epoch m) (lm_seq m) (lm_ttl_s m) (lm_id m) 255 = Some (loc_enc m)"
      using l by (simp add: loc_enc_def loc_build_register_def)
    from loc_parse_register(1) [OF this, of tail] reg show ?thesis by (cases m) (simp add: LocMsg_init_def)
  next
    case query
    then have "loc_build_query (lm_qid m) (lm_id m) 255 = Some (loc_enc m)"
      using l by (simp add: loc_enc_def loc_build_query_def loc_kinds)
    from loc_parse_query(1) [OF this, of tail] query show ?thesis by (cases m) (simp add: LocMsg_init_def)
  next
    case reply
    then have "loc_build_reply (lm_qid m) (lm_epoch m) (lm_seq m) (lm_ttl_s m) (lm_loc m) (lm_id m) 255 = Some (loc_enc m)"
      using l by (simp add: loc_enc_def loc_build_reply_def loc_kinds)
    from loc_parse_reply(1) [OF this, of tail] reply show ?thesis by (cases m) (simp add: LocMsg_init_def)
  qed
qed

interpretation locmsg: wire_codec loc_enc loc_parse "\<lambda>m. m" loc_msg_ok
  by unfold_locales (use loc_parse_total loc_parse_enc [of _ "[]"] in auto)

text \<open>
  Locator messages survive the wire and nothing else does: each of the three builders is inverted by
  the parser, a message with any byte appended is rejected, the parser never reads outside its buffer, and
  two messages with the same encoding are equal.
\<close>

theorem locator_codec:
  "(loc_build_register epoch seq ttl_s i cap = Some bs \<longrightarrow> length bs \<le> cap \<and>
      loc_parse bs = Some (Some (LocMsg_init\<lparr>lm_kind := LOC_REGISTER, lm_epoch := epoch, lm_seq := seq, lm_ttl_s := ttl_s, lm_id := i\<rparr>)))
   \<and> (loc_build_query qid i cap = Some bs \<longrightarrow> length bs \<le> cap \<and>
      loc_parse bs = Some (Some (LocMsg_init\<lparr>lm_kind := LOC_QUERY, lm_qid := qid, lm_id := i\<rparr>)))
   \<and> (loc_build_reply qid epoch seq ttl_s loc i cap = Some bs \<longrightarrow> length bs \<le> cap \<and>
      loc_parse bs = Some (Some (LocMsg_init\<lparr>lm_kind := LOC_REPLY, lm_qid := qid, lm_epoch := epoch, lm_seq := seq,
        lm_ttl_s := ttl_s, lm_loc := loc, lm_id := i\<rparr>)))
   \<and> (loc_msg_ok m \<longrightarrow> loc_parse (loc_enc m) = Some (Some m) \<and> loc_parse (loc_enc m @ x # xs) = Some None)
   \<and> (loc_msg_ok m \<and> loc_msg_ok m' \<and> loc_enc m = loc_enc m' \<longrightarrow> m = m')
   \<and> loc_parse msg \<noteq> None"
  using loc_parse_register(1) [of epoch seq ttl_s i cap bs "[]"] loc_parse_register(2) [of epoch seq ttl_s i cap bs]
    loc_parse_query(1) [of qid i cap bs "[]"] loc_parse_query(2) [of qid i cap bs]
    loc_parse_reply(1) [of qid epoch seq ttl_s loc i cap bs "[]"] loc_parse_reply(2) [of qid epoch seq ttl_s loc i cap bs]
    loc_parse_enc [of m "[]"] loc_parse_enc [of m "x # xs"] locmsg.enc_inj [of m m'] loc_parse_total [of msg]
  by simp

theorem locator_codec_witness:
  "loc_parse [1, 5, 0, 7, 0, 88, 2, 2, 0xAB, 0xCD] =
     Some (Some (LocMsg_init\<lparr>lm_kind := LOC_REGISTER, lm_epoch := 5, lm_seq := 7, lm_ttl_s := 600, lm_id := [0xAB, 0xCD]\<rparr>))"
proof -
  have "loc_build_register 5 7 600 [0xAB, 0xCD] 24 = Some [1, 5, 0, 7, 0, 88, 2, 2, 0xAB, 0xCD]" by code_simp
  with locator_codec [of 5 7 600 "[0xAB, 0xCD]" 24 "[1, 5, 0, 7, 0, 88, 2, 2, 0xAB, 0xCD]"] show ?thesis by blast
qed

section \<open>The cache as a map\<close>

interpretation locs: slot_table le_used le_id "\<lambda>e. e\<lparr>le_used := False\<rparr>"
  by unfold_locales simp

definition ld_inv :: "locator_dir \<Rightarrow> bool" where
  "ld_inv d \<longleftrightarrow> length (ld_e d) = LOC_DIR_CAP \<and> slots_distinct le_used le_id (ld_e d)"

definition ld_get :: "locator_dir \<Rightarrow> bytes \<Rightarrow> loc_entry option" where
  "ld_get d = slot_lookup le_used le_id (ld_e d)"

lemma ld_inv_init: "ld_inv LocatorDir_init"
  by (simp add: ld_inv_def LocatorDir_init_def LocEntry_init_def locs.distinct_replicate)

lemma find_last_Some: "find_last P xs = Some i \<Longrightarrow> i < length xs \<and> P (xs ! i)"
  using find_idx_lt [of P "rev xs"] find_idx_sat [of P "rev xs"]
  by (auto simp: find_last_def rev_nth)

lemma find_last_None: "find_last P xs = None \<longleftrightarrow> (\<forall>x\<in>set xs. \<not> P x)"
  by (simp add: find_last_def find_idx_None_iff)

lemma alloc_slot_Some:
  assumes "ld_inv d"
  shows "\<exists>k. alloc_slot d now = Some k \<and> k < length (ld_e d) \<and>
    (\<not> le_used (ld_e d ! k) \<or> expired (ld_e d ! k) now \<or>
     (\<forall>e\<in>set (ld_e d). le_used e \<and> \<not> expired e now) \<and> (\<forall>e\<in>set (ld_e d). unat (le_touched (ld_e d ! k)) \<le> unat (le_touched e)))"
proof (cases "find_idx (\<lambda>e. \<not> le_used e) (ld_e d)")
  case (Some i)
  then show ?thesis using find_idx_lt [OF Some] find_idx_sat [OF Some] by (simp add: alloc_slot_def)
next
  case used: None
  show ?thesis
  proof (cases "find_last (\<lambda>e. expired e now) (ld_e d)")
    case (Some i)
    then show ?thesis using used find_last_Some [OF Some] by (simp add: alloc_slot_def)
  next
    case live: None
    have "best_idx (\<lambda>_. True) (\<lambda>a b. le_touched a < le_touched b) (ld_e d) \<noteq> None"
      using assms by (auto simp: best_idx_None ld_inv_def LOC_DIR_CAP_def)
    then obtain k where k: "best_idx (\<lambda>_. True) (\<lambda>a b. le_touched a < le_touched b) (ld_e d) = Some k" by blast
    have "unat (le_touched (ld_e d ! k)) \<le> unat (le_touched e)" if "e \<in> set (ld_e d)" for e
    proof -
      obtain j where "j < length (ld_e d)" "e = ld_e d ! j" using \<open>e \<in> set (ld_e d)\<close> by (metis in_set_conv_nth)
      then show ?thesis
        using best_idx_min [OF k, of "\<lambda>e. unat (le_touched e)" j] by (simp add: word_less_nat_alt)
    qed
    moreover have "alloc_slot d now = Some k" using used live k by (simp add: alloc_slot_def)
    ultimately show ?thesis using used live best_idx_Some [OF k]
      by (intro exI [of _ k]) (simp add: find_idx_None_iff find_last_None)
  qed
qed

lemma ld_get_find: "ld_get d i = map_option (\<lambda>k. ld_e d ! k) (ld_find d i)"
  by (simp add: ld_get_def slot_lookup_def ld_find_def)

lemma bind_entry_simps [simp]:
  "le_used (bind_entry i loc ep sq ttl now c)" "le_id (bind_entry i loc ep sq ttl now c) = i"
  "le_loc (bind_entry i loc ep sq ttl now c) = loc" "le_expiry_ms (bind_entry i loc ep sq ttl now c) = now + ttl_ms ttl"
  by (simp_all add: bind_entry_def)

lemma unat_ttl_ms: "unat (ttl_ms ttl) = unat ttl * 1000"
proof -
  have "unat ttl < 65536" using unsigned_less [of ttl] by simp
  moreover from this have "unat (ucast ttl :: u32) = unat ttl" by (simp add: unsigned_ucast_eq take_bit_nat_eq_self)
  ultimately show ?thesis by (simp add: ttl_ms_def unat_word_ariths)
qed

lemma bind_entry_expired:
  "unat e < 2 ^ 31 \<Longrightarrow> expired (bind_entry i loc ep sq ttl now c) (now + e) \<longleftrightarrow> unat ttl * 1000 \<le> unat e"
proof -
  assume "unat e < 2 ^ 31"
  moreover have "unat ttl < 65536" using unsigned_less [of ttl] by simp
  then have "unat (ttl_ms ttl) < 2 ^ 31" by (simp add: unat_ttl_ms)
  ultimately show ?thesis using before32_deadline [of "ttl_ms ttl" e now] by (auto simp: expired_def unat_ttl_ms)
qed

text \<open>The refusal of a stale registration.\<close>

definition ld_stale :: "locator_dir \<Rightarrow> bytes \<Rightarrow> u16 \<Rightarrow> u16 \<Rightarrow> u32 \<Rightarrow> bool" where
  "ld_stale d i epoch seq now \<longleftrightarrow>
     (\<exists>e. ld_get d i = Some e \<and> \<not> expired e now \<and> le_epoch e = epoch \<and> \<not> loc_seq_newer seq (le_seq e))"

lemma upsert_refused:
  assumes "ld_inv d"
  shows "fst (upsert d i loc ep sq ttl now) \<longleftrightarrow> loc_id_ok i \<and> \<not> ld_stale d i ep sq now"
    and "\<not> fst (upsert d i loc ep sq ttl now) \<Longrightarrow> snd (upsert d i loc ep sq ttl now) = d"
  using alloc_slot_Some [OF assms, of now]
  by (auto simp: upsert_def ld_stale_def ld_get_find Let_def split: option.splits if_splits)

lemma upsert_accepted:
  assumes inv: "ld_inv d" and ok: "fst (upsert d i loc ep sq ttl now)"
  shows "ld_inv (snd (upsert d i loc ep sq ttl now))"
    and "ld_get (snd (upsert d i loc ep sq ttl now)) i = Some (bind_entry i loc ep sq ttl now (ld_clock d + 1))"
    and "j \<noteq> i \<Longrightarrow> ld_get (snd (upsert d i loc ep sq ttl now)) j = ld_get d j \<or>
      ld_get (snd (upsert d i loc ep sq ttl now)) j = None \<and>
        ((\<exists>e. ld_get d j = Some e \<and> expired e now) \<or>
         (\<forall>e\<in>set (ld_e d). le_used e \<and> \<not> expired e now \<and> (\<exists>v. ld_get d j = Some v \<and> unat (le_touched v) \<le> unat (le_touched e))))"
proof -
  let ?b = "bind_entry i loc ep sq ttl now (ld_clock d + 1)"
  note len = inv [unfolded ld_inv_def, THEN conjunct1] and dist = inv [unfolded ld_inv_def, THEN conjunct2]
  have "ld_inv (snd (upsert d i loc ep sq ttl now)) \<and>
    ld_get (snd (upsert d i loc ep sq ttl now)) i = Some ?b \<and>
    (j \<noteq> i \<longrightarrow> ld_get (snd (upsert d i loc ep sq ttl now)) j = ld_get d j \<or>
      ld_get (snd (upsert d i loc ep sq ttl now)) j = None \<and>
        ((\<exists>e. ld_get d j = Some e \<and> expired e now) \<or>
         (\<forall>e\<in>set (ld_e d). le_used e \<and> \<not> expired e now \<and> (\<exists>v. ld_get d j = Some v \<and> unat (le_touched v) \<le> unat (le_touched e)))))"
  proof (cases "slot_find le_used le_id i (ld_e d)")
    case (Some k)
    note f = locs.find_SomeD [OF Some]
    have d': "snd (upsert d i loc ep sq ttl now) = d\<lparr>ld_e := (ld_e d)[k := ?b], ld_clock := ld_clock d + 1\<rparr>"
      using ok Some f by (auto simp: upsert_def ld_find_def Let_def split: if_splits)
    have "slots_distinct le_used le_id ((ld_e d)[k := ?b])" using f dist by (intro locs.distinct_refresh) simp_all
    then show ?thesis using locs.lookup_refresh [OF dist Some, of ?b] len by (simp add: d' ld_inv_def ld_get_def)
  next
    case None
    obtain k where k: "alloc_slot d now = Some k" "k < length (ld_e d)"
        and c: "\<not> le_used (ld_e d ! k) \<or> expired (ld_e d ! k) now \<or>
     (\<forall>e\<in>set (ld_e d). le_used e \<and> \<not> expired e now) \<and> (\<forall>e\<in>set (ld_e d). unat (le_touched (ld_e d ! k)) \<le> unat (le_touched e))"
      using alloc_slot_Some [OF inv] by blast
    have d': "snd (upsert d i loc ep sq ttl now) = d\<lparr>ld_e := (ld_e d)[k := ?b], ld_clock := ld_clock d + 1\<rparr>"
      using ok None k by (simp add: upsert_def ld_find_def split: if_splits)
    have dist': "slots_distinct le_used le_id ((ld_e d)[k := ?b])" using None dist by (intro locs.distinct_claim) simp_all
    have get: "slot_lookup le_used le_id ((ld_e d)[k := ?b]) = (if le_used (ld_e d ! k)
        then (slot_lookup le_used le_id (ld_e d))(le_id (ld_e d ! k) := None, i \<mapsto> ?b)
        else (slot_lookup le_used le_id (ld_e d))(i \<mapsto> ?b))"
      using locs.lookup_claim [OF dist, of ?b k] None k by simp
    have old: "ld_get d (le_id (ld_e d ! k)) = Some (ld_e d ! k)" if "le_used (ld_e d ! k)"
      using locs.lookup_in_set [OF dist nth_mem [OF k(2)] that] by (simp add: ld_get_def)
    show ?thesis using get dist' len old c by (auto simp: d' ld_inv_def ld_get_def)
  qed
  then show "ld_inv (snd (upsert d i loc ep sq ttl now))"
    and "ld_get (snd (upsert d i loc ep sq ttl now)) i = Some ?b"
    and "j \<noteq> i \<Longrightarrow> ld_get (snd (upsert d i loc ep sq ttl now)) j = ld_get d j \<or>
      ld_get (snd (upsert d i loc ep sq ttl now)) j = None \<and>
        ((\<exists>e. ld_get d j = Some e \<and> expired e now) \<or>
         (\<forall>e\<in>set (ld_e d). le_used e \<and> \<not> expired e now \<and> (\<exists>v. ld_get d j = Some v \<and> unat (le_touched v) \<le> unat (le_touched e))))"
    by blast+
qed

lemma ld_inv_upsert [inv_intros]: "ld_inv d \<Longrightarrow> ld_inv (snd (upsert d i loc ep sq ttl now))"
  using upsert_refused(2) upsert_accepted(1) by metis

lemma ld_inv_at:
  assumes "ld_inv d" "ld_find d i = Some k"
  shows "ld_inv (ld_release d k)" "ld_inv (ld_touch d k)"
  using assms locs.find_SomeD [of i "ld_e d" k]
  by (auto simp: ld_inv_def ld_find_def ld_release_def ld_touch_def upd_at_def intro!: locs.distinct_refresh)

lemma ld_inv_lookup [inv_intros]:
  "ld_inv d \<Longrightarrow> ld_inv (snd (loc_lookup d i now))" "ld_inv d \<Longrightarrow> ld_inv (snd (lookup_full d i now))"
  by (auto simp: loc_lookup_def lookup_full_def Let_def ld_inv_at split: option.splits)

lemma loc_lookup_get:
  "fst (loc_lookup d i now) = (case ld_get d i of None \<Rightarrow> None | Some e \<Rightarrow> if expired e now then None else Some (le_loc e))"
  by (simp add: loc_lookup_def ld_get_find split: option.splits)

text \<open>
  C30. The directory answers with the newest registration: an upsert is refused, changing nothing, exactly
  for an id of bad length or when an unexpired binding of the same boot epoch has the same or a newer
  sequence number. An accepted one is what every lookup returns from then on, until exactly its lifetime
  has passed (wherever the clock wraps). Another id loses its binding only if that was expired, or if all
  32 bindings were live and it was the least recently used.
\<close>

theorem locator_binding:
  assumes "ld_inv d" and "upsert d i loc epoch seq ttl_s now = (ok, d')" and "unat e < 2 ^ 31"
  shows "(ok \<longleftrightarrow> loc_id_ok i \<and> \<not> ld_stale d i epoch seq now) \<and> ld_inv d' \<and> (\<not> ok \<longrightarrow> d' = d)
    \<and> (ok \<longrightarrow> fst (loc_lookup d' i (now + e)) = (if unat e < unat ttl_s * 1000 then Some loc else None))
    \<and> (ok \<and> j \<noteq> i \<and> ld_get d j = Some b \<and> ld_get d' j \<noteq> Some b \<longrightarrow>
         expired b now \<or> (\<forall>x\<in>set (ld_e d). le_used x \<and> \<not> expired x now \<and> unat (le_touched b) \<le> unat (le_touched x)))"
proof -
  have fs: "ok = fst (upsert d i loc epoch seq ttl_s now)" "d' = snd (upsert d i loc epoch seq ttl_s now)" using assms(2) by simp_all
  show ?thesis
  proof (cases ok)
    case False
    moreover have "d' = d" "\<not> (loc_id_ok i \<and> \<not> ld_stale d i epoch seq now)"
      using False upsert_refused [OF assms(1), of i loc epoch seq ttl_s now] unfolding fs by blast+
    ultimately show ?thesis using assms(1) by blast
  next
    case True
    note a = upsert_accepted [OF assms(1) True [unfolded fs], folded fs]
    have "fst (loc_lookup d' i (now + e)) = (if unat e < unat ttl_s * 1000 then Some loc else None)"
      using a(2) bind_entry_expired [OF assms(3)] by (simp add: loc_lookup_get)
    moreover have "expired b now \<or> (\<forall>x\<in>set (ld_e d). le_used x \<and> \<not> expired x now \<and> unat (le_touched b) \<le> unat (le_touched x))"
      if "j \<noteq> i" "ld_get d j = Some b" "ld_get d' j \<noteq> Some b" using a(3) [OF that(1)] that(2,3) by auto
    ultimately show ?thesis using True a(1) upsert_refused(1) [OF assms(1), of i loc epoch seq ttl_s now] fs by simp
  qed
qed

theorem locator_binding_witness:
  "fst (loc_lookup (snd (upsert LocatorDir_init [1, 2] (nid_from_u32 9) 3 4 600 0xFFFFFF00)) [1, 2] (0xFFFFFF00 + 1000))
     = Some (nid_from_u32 9)"
proof -
  let ?u = "upsert LocatorDir_init [1, 2] (nid_from_u32 9) 3 4 600 0xFFFFFF00"
  have "fst ?u" by code_simp
  moreover have "unat (1000 :: u32) < 2 ^ 31" "unat (1000 :: u32) < unat (600 :: u16) * 1000" by simp_all
  ultimately show ?thesis
    using locator_binding [OF ld_inv_init prod.collapse [symmetric, of ?u], of 1000] by simp
qed

section \<open>Resolutions\<close>

definition rv_inv :: "locator_resolver \<Rightarrow> bool" where
  "rv_inv v \<longleftrightarrow> length (rv_p v) = LOC_MAX_PENDING \<and> rv_next_qid v \<noteq> 0 \<and> (\<forall>p\<in>set (rv_p v). lp_used p \<longrightarrow> lp_qid p \<noteq> 0)"

lemma rv_inv_init: "rv_inv LocatorResolver_init"
  by (simp add: rv_inv_def LocatorResolver_init_def)

lemma rv_inv_on_reply [inv_intros]: "rv_inv v \<Longrightarrow> rv_inv (snd (rv_on_reply v q))"
  by (auto simp: rv_inv_def rv_on_reply_def dest!: subsetD [OF set_upd_at_subset] split: option.splits)

lemma rv_inv_tick [inv_intros]: "rv_inv v \<Longrightarrow> rv_inv (snd (rv_tick v now))"
  by (auto simp: rv_inv_def rv_tick_def)

lemma rv_slot_None: "rv_slot v now = None \<longleftrightarrow> (\<forall>p\<in>set (rv_p v). lp_used p \<and> before32 now (lp_deadline_ms p))"
  by (auto simp: rv_slot_def find_idx_None_iff find_last_None split: option.splits)
    (metis find_idx_None_iff option.distinct(1))+

lemma rv_slot_Some: "rv_slot v now = Some k \<Longrightarrow> k < length (rv_p v)"
  by (auto simp: rv_slot_def dest: find_idx_lt find_last_Some split: option.splits)

lemma lp_live_begin:
  fixes timeout :: u16
  assumes "unat e < unat timeout"
  shows "lp_live i (now + e) \<lparr>lp_used = True, lp_id = i, lp_qid = q, lp_deadline_ms = now + ucast timeout\<rparr>"
proof -
  have t: "unat timeout < 65536" using unsigned_less [of timeout] by simp
  then have u: "unat (ucast timeout :: u32) = unat timeout" by (simp add: unsigned_ucast_eq take_bit_nat_eq_self)
  show ?thesis using before32_deadline [of "ucast timeout" e now] assms t u by (simp add: lp_live_def)
qed

lemma rv_inv_begin [inv_intros]: "rv_inv v \<Longrightarrow> rv_inv (snd (rv_begin v i now t))"
  by (auto simp: rv_inv_def rv_begin_def Let_def dest!: subsetD [OF set_update_subset_insert] split: option.splits)

lemma rv_begin_pending: "loc_id_ok i \<Longrightarrow> find_idx (lp_live i now) (rv_p v) = Some k \<Longrightarrow> rv_begin v i now t = (lp_qid (rv_p v ! k), v)"
  by (simp add: rv_begin_def)

text \<open>
  One query per identity in flight: a resolution starts (with a nonzero query id) unless the id is
  malformed or eight unexpired resolutions of other ids are under way. While it is pending, asking again
  returns a pending query id and changes nothing; it stays pending until its
  timeout, and a REPLY with its query id is matched.
\<close>

theorem resolver_single_flight:
  assumes "rv_inv v" and "rv_begin v i now timeout = (qid, v')"
  shows "rv_inv v'
    \<and> (qid = 0 \<longleftrightarrow> \<not> loc_id_ok i \<or> \<not> rv_pending v i now \<and> (\<forall>p\<in>set (rv_p v). lp_used p \<and> before32 now (lp_deadline_ms p)))
    \<and> (qid = 0 \<or> rv_pending v i now \<longrightarrow> v' = v)
    \<and> (qid \<noteq> 0 \<longrightarrow> (\<exists>p\<in>set (rv_p v'). lp_used p \<and> lp_qid p = qid) \<and> fst (rv_on_reply v' qid))
    \<and> (qid \<noteq> 0 \<and> \<not> rv_pending v i now \<and> unat e < unat timeout \<longrightarrow>
         rv_pending v' i (now + e) \<and> snd (rv_begin v' i (now + e) timeout') = v')"
proof -
  have live: "rv_pending v i now \<longleftrightarrow> find_idx (lp_live i now) (rv_p v) \<noteq> None" for v now
    by (simp add: rv_pending_def find_idx_None_iff)
  have reply: "fst (rv_on_reply w q) \<longleftrightarrow> (\<exists>p\<in>set (rv_p w). lp_used p \<and> lp_qid p = q)" for w q
    using find_idx_None_iff [of "\<lambda>p. lp_used p \<and> lp_qid p = q" "rv_p w"] by (auto simp: rv_on_reply_def split: option.splits)
  consider (bad) "\<not> loc_id_ok i" | (dup) k where "loc_id_ok i" "find_idx (lp_live i now) (rv_p v) = Some k"
    | (full) "loc_id_ok i" "find_idx (lp_live i now) (rv_p v) = None" "rv_slot v now = None"
    | (new) k where "loc_id_ok i" "find_idx (lp_live i now) (rv_p v) = None" "rv_slot v now = Some k"
    by (metis option.exhaust)
  then show ?thesis
  proof cases
    case bad
    with assms show ?thesis by (auto simp: rv_begin_def)
  next
    case (dup k)
    note m = nth_mem [OF find_idx_lt [OF dup(2)]] and sat = find_idx_sat [OF dup(2)]
    have "qid = lp_qid (rv_p v ! k)" "v' = v" using assms(2) dup by (auto simp: rv_begin_def)
    moreover have "lp_used (rv_p v ! k)" "lp_qid (rv_p v ! k) \<noteq> 0" using m sat assms(1) by (auto simp: lp_live_def rv_inv_def)
    ultimately show ?thesis using assms(1) dup m live [of v now] reply by auto
  next
    case full
    with assms live [of v now] show ?thesis by (auto simp: rv_begin_def rv_slot_None)
  next
    case (new k)
    let ?p = "\<lparr>lp_used = True, lp_id = i, lp_qid = rv_next_qid v, lp_deadline_ms = now + ucast timeout\<rparr>"
    have q: "qid = rv_next_qid v" and v': "rv_p v' = (rv_p v)[k := ?p]" "rv_next_qid v' \<noteq> 0"
      using assms(2) new by (auto simp: rv_begin_def Let_def split: if_splits)
    have p: "?p \<in> set (rv_p v')" using rv_slot_Some [OF new(3)] v'(1) by (simp add: set_update_memI)
    have inv: "rv_inv v'" using assms(1) v' by (auto simp: rv_inv_def dest!: subsetD [OF set_update_subset_insert])
    have "rv_pending v' i (now + e)" if "unat e < unat timeout"
      using p lp_live_begin [OF that] unfolding rv_pending_def by blast
    moreover have "snd (rv_begin v' i n t) = v'" if "rv_pending v' i n" for n t
      using that live [of v' n] new(1) by (auto simp: rv_begin_def)
    moreover have "\<not> (\<forall>p\<in>set (rv_p v). lp_used p \<and> before32 now (lp_deadline_ms p))" using new(3) rv_slot_None [of v now] by simp
    moreover have "\<not> rv_pending v i now" using new(2) live [of v now] by simp
    moreover have "\<exists>p\<in>set (rv_p v'). lp_used p \<and> lp_qid p = qid" using p q by (intro bexI [of _ ?p]) simp_all
    moreover have "qid \<noteq> 0" using assms(1) q by (simp add: rv_inv_def)
    ultimately show ?thesis using inv new(1) reply by blast
  qed
qed

theorem resolver_single_flight_witness:
  "fst (rv_begin LocatorResolver_init [1, 2] 5 8000) = 1
   \<and> rv_pending (snd (rv_begin LocatorResolver_init [1, 2] 5 8000)) [1, 2] (5 + 7000)"
proof -
  let ?b = "rv_begin LocatorResolver_init [1, 2] 5 8000"
  have "fst ?b = 1" "\<not> rv_pending LocatorResolver_init [1, 2] 5" by code_simp+
  moreover have "unat (7000 :: u32) < unat (8000 :: u16)" by simp
  ultimately show ?thesis
    using resolver_single_flight [OF rv_inv_init prod.collapse [symmetric, of ?b], of 7000] by simp
qed

end
