(* ===== verification/Kiss.thy ===== *)
theory Kiss
  imports Prelude
begin

text \<open>
  \<^verbatim>\<open>lib/mesh/kiss.h\<close>: KISS framing on the USB console. Frames are delimited by FEND bytes; the two special
  bytes are escaped inside. The encoder writes into a bounded buffer, the decoder is fed byte by byte.

  The decoder's buffer with its fill count is the byte list \<open>kd_buf\<close>; \<^verbatim>\<open>feed\<close> returns the frame that
  \<^verbatim>\<open>frame()/len()\<close> expose when it reports one.
\<close>

definition KISS_FEND :: u8 where "KISS_FEND = 0xC0"
definition KISS_FESC :: u8 where "KISS_FESC = 0xDB"
definition KISS_TFEND :: u8 where "KISS_TFEND = 0xDC"
definition KISS_TFESC :: u8 where "KISS_TFESC = 0xDD"
definition KISS_CMD_DATA :: u8 where "KISS_CMD_DATA = 0x00"
definition KISS_CMD_RETURN :: u8 where "KISS_CMD_RETURN = 0xFF"
definition KISS_MAX_FRAME :: nat where "KISS_MAX_FRAME = 1 + 800"

lemmas kiss_bytes = KISS_FEND_def KISS_FESC_def KISS_TFEND_def KISS_TFESC_def

section \<open>Encoder\<close>

text \<open>The loop over command and payload, from output position \<open>n\<close>; every guard keeps one byte for the
  closing FEND.\<close>

fun kiss_body :: "nat \<Rightarrow> nat \<Rightarrow> bytes \<Rightarrow> bytes option" where
  "kiss_body cap n [] = Some []"
| "kiss_body cap n (b # bs) =
     (if b = KISS_FEND then
        if cap < n + 3 then None
        else map_option (\<lambda>out. KISS_FESC # KISS_TFEND # out) (kiss_body cap (n + 2) bs)
      else if b = KISS_FESC then
        if cap < n + 3 then None
        else map_option (\<lambda>out. KISS_FESC # KISS_TFESC # out) (kiss_body cap (n + 2) bs)
      else
        if cap < n + 2 then None
        else map_option (\<lambda>out. b # out) (kiss_body cap (n + 1) bs))"

definition kiss_encode :: "u8 \<Rightarrow> bytes \<Rightarrow> nat \<Rightarrow> bytes option" where
  "kiss_encode cmd payload cap =
     (if cap < 4 then None
      else map_option (\<lambda>out. KISS_FEND # out @ [KISS_FEND]) (kiss_body cap 1 (cmd # payload)))"

section \<open>Decoder\<close>

record kiss_decoder =
  kd_buf :: bytes
  kd_in :: bool
  kd_esc :: bool

definition KissDecoder_init :: kiss_decoder where
  "KissDecoder_init = \<lparr>kd_buf = [], kd_in = False, kd_esc = False\<rparr>"

definition kiss_store :: "u8 \<Rightarrow> kiss_decoder \<Rightarrow> kiss_decoder" where
  "kiss_store v d =
     (if length (kd_buf d) < KISS_MAX_FRAME then d\<lparr>kd_buf := kd_buf d @ [v]\<rparr>
      else d\<lparr>kd_in := False, kd_buf := []\<rparr>)"

definition kiss_feed :: "u8 \<Rightarrow> kiss_decoder \<Rightarrow> bytes option \<times> kiss_decoder" where
  "kiss_feed b d =
     (if b = KISS_FEND then
        if kd_in d \<and> kd_buf d \<noteq> [] then (Some (kd_buf d), \<lparr>kd_buf = [], kd_in = False, kd_esc = False\<rparr>)
        else (None, \<lparr>kd_buf = [], kd_in = True, kd_esc = False\<rparr>)
      else if \<not> kd_in d then (None, d)
      else if kd_esc d then
        (None, kiss_store (if b = KISS_TFEND then KISS_FEND else if b = KISS_TFESC then KISS_FESC else b) (d\<lparr>kd_esc := False\<rparr>))
      else if b = KISS_FESC then (None, d\<lparr>kd_esc := True\<rparr>)
      else (None, kiss_store b d))"

text \<open>The frames a stream of bytes produces, and the decoder afterwards.\<close>

fun kiss_stream :: "bytes \<Rightarrow> kiss_decoder \<Rightarrow> bytes list \<times> kiss_decoder" where
  "kiss_stream [] d = ([], d)"
| "kiss_stream (b # bs) d =
     (let (f, d1) = kiss_feed b d; (fs, d2) = kiss_stream bs d1
      in ((case f of None \<Rightarrow> fs | Some x \<Rightarrow> x # fs), d2))"

section \<open>Encoder lemmas\<close>

fun kiss_esc :: "bytes \<Rightarrow> bytes" where
  "kiss_esc [] = []"
| "kiss_esc (b # bs) =
     (if b = KISS_FEND then KISS_FESC # KISS_TFEND # kiss_esc bs
      else if b = KISS_FESC then KISS_FESC # KISS_TFESC # kiss_esc bs
      else b # kiss_esc bs)"

lemma kiss_body_esc:
  "kiss_body cap n bs = (if bs = [] \<or> n + length (kiss_esc bs) + 1 \<le> cap then Some (kiss_esc bs) else None)"
proof (induction bs arbitrary: n)
  case Nil
  then show ?case by simp
next
  case (Cons b bs)
  then show ?case by (cases bs) (auto simp: Cons.IH)
qed

lemma kiss_esc_no_fend: "KISS_FEND \<notin> set (kiss_esc bs)"
  by (induction bs) (auto simp: kiss_bytes)

lemma kiss_encode_Some:
  "kiss_encode cmd pl cap = Some bs \<longleftrightarrow>
     4 \<le> cap \<and> length bs \<le> cap \<and> bs = KISS_FEND # kiss_esc (cmd # pl) @ [KISS_FEND]"
  by (auto simp: kiss_encode_def kiss_body_esc simp del: kiss_esc.simps kiss_body.simps split: if_splits)

section \<open>Decoder lemmas\<close>

definition kd_inv :: "kiss_decoder \<Rightarrow> bool" where
  "kd_inv d \<longleftrightarrow> length (kd_buf d) \<le> KISS_MAX_FRAME"

lemma kd_inv_feed: "kd_inv d \<Longrightarrow> kd_inv (snd (kiss_feed b d)) \<and> (\<forall>f. fst (kiss_feed b d) = Some f \<longrightarrow> length f \<le> KISS_MAX_FRAME)"
  by (auto simp: kd_inv_def kiss_feed_def kiss_store_def split: if_splits)

lemma kiss_stream_append:
  "kiss_stream (xs @ ys) d = (let (fs, d1) = kiss_stream xs d; (gs, d2) = kiss_stream ys d1 in (fs @ gs, d2))"
  by (induction xs arbitrary: d) (auto simp: split_beta Let_def split: option.splits)

lemma kiss_stream_esc:
  "kd_in d \<Longrightarrow> \<not> kd_esc d \<Longrightarrow> length (kd_buf d) + length bs \<le> KISS_MAX_FRAME \<Longrightarrow>
     kiss_stream (kiss_esc bs) d = ([], d\<lparr>kd_buf := kd_buf d @ bs\<rparr>)"
proof (induction bs arbitrary: d)
  case Nil
  then show ?case by simp
next
  case (Cons b bs)
  let ?d = "d\<lparr>kd_buf := kd_buf d @ [b]\<rparr>"
  have "kiss_stream (kiss_esc bs) ?d = ([], d\<lparr>kd_buf := kd_buf d @ b # bs\<rparr>)"
    using Cons.IH [of ?d] Cons.prems by simp
  with Cons.prems show ?case
    by (cases d) (auto simp: kiss_feed_def kiss_store_def kiss_bytes)
qed

text \<open>An oversize frame leaves the decoder between frames.\<close>

lemma kiss_stream_skip: "\<not> kd_in d \<Longrightarrow> KISS_FEND \<notin> set bs \<Longrightarrow> kiss_stream bs d = ([], d)"
  by (induction bs) (auto simp: kiss_feed_def)

lemma kiss_stream_frame:
  assumes "\<not> kd_in d \<or> kd_buf d = []" and "length fr \<le> KISS_MAX_FRAME" and "fr \<noteq> []"
  shows "kiss_stream (KISS_FEND # kiss_esc fr @ [KISS_FEND]) d = ([fr], KissDecoder_init)"
proof -
  let ?o = "\<lparr>kd_buf = [], kd_in = True, kd_esc = False\<rparr>"
  have "kiss_feed KISS_FEND d = (None, ?o)" using assms(1) by (auto simp: kiss_feed_def)
  moreover have "kiss_stream (kiss_esc fr) ?o = ([], ?o\<lparr>kd_buf := fr\<rparr>)"
    using kiss_stream_esc [of ?o fr] assms(2) by simp
  ultimately show ?thesis using assms(3)
    by (simp add: kiss_stream_append) (simp add: kiss_feed_def KissDecoder_init_def)
qed

lemma kiss_stream_overflow:
  "kd_in d \<Longrightarrow> \<not> kd_esc d \<Longrightarrow> length (kd_buf d) \<le> KISS_MAX_FRAME \<Longrightarrow> KISS_MAX_FRAME < length (kd_buf d) + length bs \<Longrightarrow>
     kiss_stream (kiss_esc bs) d = ([], KissDecoder_init)"
proof (induction bs arbitrary: d)
  case Nil
  then show ?case by simp
next
  case (Cons b bs)
  show ?case
  proof (cases "length (kd_buf d) < KISS_MAX_FRAME")
    case True
    let ?d = "d\<lparr>kd_buf := kd_buf d @ [b]\<rparr>"
    have "kiss_stream (kiss_esc bs) ?d = ([], KissDecoder_init)" using Cons.IH [of ?d] Cons.prems True by simp
    with Cons.prems True show ?thesis by (cases d) (auto simp: kiss_feed_def kiss_store_def kiss_bytes)
  next
    case False
    have "kiss_stream (kiss_esc bs) KissDecoder_init = ([], KissDecoder_init)"
      using kiss_stream_skip [OF _ kiss_esc_no_fend] by (simp add: KissDecoder_init_def)
    with Cons.prems False show ?thesis
      by (cases d) (auto simp: kiss_feed_def kiss_store_def KissDecoder_init_def kiss_bytes)
  qed
qed

definition kiss_opened :: kiss_decoder where
  "kiss_opened = \<lparr>kd_buf = [], kd_in = True, kd_esc = False\<rparr>"

lemma kiss_stream_oversize:
  assumes "\<not> kd_in d \<or> kd_buf d = []" and "KISS_MAX_FRAME < length fr"
  shows "kiss_stream (KISS_FEND # kiss_esc fr @ [KISS_FEND]) d = ([], kiss_opened)"
proof -
  have "kiss_feed KISS_FEND d = (None, kiss_opened)" using assms(1) by (auto simp: kiss_feed_def kiss_opened_def)
  moreover have "kiss_stream (kiss_esc fr) kiss_opened = ([], KissDecoder_init)"
    using kiss_stream_overflow [of kiss_opened fr] assms(2) by (simp add: kiss_opened_def)
  ultimately show ?thesis by (simp add: kiss_stream_append) (simp add: kiss_feed_def kiss_opened_def KissDecoder_init_def)
qed

text \<open>Plain text inside an open frame is stored as it is.\<close>

lemma kiss_esc_plain: "KISS_FEND \<notin> set t \<Longrightarrow> KISS_FESC \<notin> set t \<Longrightarrow> kiss_esc t = t"
  by (induction t) auto

text \<open>
  C31. Encoder and decoder are inverse on streams: any sequence of frames of at most 801 bytes (commands and
  payloads of any byte values), with console text free of FEND bytes anywhere between them, decodes to
  exactly those frames in order. An encoding never exceeds the buffer, and the decoder never stores more
  than its buffer holds, whatever it is fed.
\<close>

theorem kiss_stream_roundtrip:
  assumes "\<forall>(tx, cmd, pl, bs)\<in>set items. KISS_FEND \<notin> set tx \<and> length pl \<le> 800 \<and> kiss_encode cmd pl cap = Some bs"
  shows "kiss_stream (concat (map (\<lambda>(tx, cmd, pl, bs). tx @ bs) items)) KissDecoder_init
      = (map (\<lambda>(tx, cmd, pl, bs). cmd # pl) items, KissDecoder_init)
    \<and> (\<forall>(tx, cmd, pl, bs)\<in>set items. length bs \<le> cap)
    \<and> (kd_inv d \<longrightarrow> kd_inv (snd (kiss_feed b d)))"
proof (intro conjI)
  show "kiss_stream (concat (map (\<lambda>(tx, cmd, pl, bs). tx @ bs) items)) KissDecoder_init
      = (map (\<lambda>(tx, cmd, pl, bs). cmd # pl) items, KissDecoder_init)"
    using assms
  proof (induction items)
    case Nil
    then show ?case by simp
  next
    case (Cons x items)
    obtain tx cmd pl bs where x: "x = (tx, cmd, pl, bs)" by (cases x)
    have h: "KISS_FEND \<notin> set tx" "length pl \<le> 800" "bs = KISS_FEND # kiss_esc (cmd # pl) @ [KISS_FEND]"
      using Cons.prems by (auto simp: x kiss_encode_Some)
    have "kiss_stream tx KissDecoder_init = ([], KissDecoder_init)"
      using kiss_stream_skip h(1) by (simp add: KissDecoder_init_def)
    moreover have "kiss_stream bs KissDecoder_init = ([cmd # pl], KissDecoder_init)"
      unfolding h(3) using h(2) by (intro kiss_stream_frame) (simp_all add: KissDecoder_init_def KISS_MAX_FRAME_def)
    ultimately show ?case using Cons by (simp add: x kiss_stream_append)
  qed
  show "\<forall>(tx, cmd, pl, bs)\<in>set items. length bs \<le> cap" using assms by (auto simp: kiss_encode_Some)
  show "kd_inv d \<longrightarrow> kd_inv (snd (kiss_feed b d))" using kd_inv_feed by blast
qed

theorem kiss_stream_roundtrip_witness:
  "kiss_stream ([0x68, 0x69] @ the (kiss_encode 0xC0 [0xDB, 7] 64)) KissDecoder_init = ([[0xC0, 0xDB, 7]], KissDecoder_init)"
proof -
  have "kiss_encode 0xC0 [0xDB, 7] 64 = Some (the (kiss_encode 0xC0 [0xDB, 7] 64))" by code_simp
  with kiss_stream_roundtrip [of "[([0x68, 0x69], 0xC0, [0xDB, 7], the (kiss_encode 0xC0 [0xDB, 7] 64))]" 64]
  show ?thesis by (simp add: kiss_bytes)
qed

text \<open>
  Oversize frames: a frame above 801 bytes is dropped and a frame that follows it directly is decoded.
  But its closing FEND has already been taken for an opening one, so console text between the two is
  delivered as a frame of its own and the genuine frame after it is lost.
\<close>

theorem kiss_oversize_resync:
  assumes "800 < length big" and "length pl \<le> 800"
    and "tx \<noteq> []" and "length tx \<le> KISS_MAX_FRAME" and "KISS_FEND \<notin> set tx" and "KISS_FESC \<notin> set tx"
    and "kiss_encode c big cap = Some b1" and "kiss_encode cmd pl cap = Some b2"
  shows "fst (kiss_stream (b1 @ b2) KissDecoder_init) = [cmd # pl]
    \<and> fst (kiss_stream (b1 @ tx @ b2) KissDecoder_init) = [tx]"
proof -
  have b1: "kiss_stream b1 KissDecoder_init = ([], kiss_opened)"
    using assms(1,7) kiss_stream_oversize [of KissDecoder_init "c # big"]
    by (simp add: kiss_encode_Some KissDecoder_init_def KISS_MAX_FRAME_def)
  have b2: "b2 = KISS_FEND # kiss_esc (cmd # pl) @ [KISS_FEND]" using assms(8) by (simp add: kiss_encode_Some)
  have "kiss_stream b2 kiss_opened = ([cmd # pl], KissDecoder_init)"
    unfolding b2 using assms(2) by (intro kiss_stream_frame) (simp_all add: kiss_opened_def KISS_MAX_FRAME_def)
  moreover have "kiss_stream tx kiss_opened = ([], kiss_opened\<lparr>kd_buf := tx\<rparr>)"
    using kiss_stream_esc [of kiss_opened tx] kiss_esc_plain [OF assms(5,6)] assms(4) by (simp add: kiss_opened_def)
  moreover have "fst (kiss_stream b2 (kiss_opened\<lparr>kd_buf := tx\<rparr>)) = [tx]"
  proof -
    have "kiss_feed KISS_FEND (kiss_opened\<lparr>kd_buf := tx\<rparr>) = (Some tx, KissDecoder_init)"
      using assms(3) by (simp add: kiss_feed_def kiss_opened_def KissDecoder_init_def)
    moreover have "kiss_stream (kiss_esc (cmd # pl)) KissDecoder_init = ([], KissDecoder_init)"
      using kiss_stream_skip [OF _ kiss_esc_no_fend] by (simp add: KissDecoder_init_def del: kiss_esc.simps)
    ultimately show ?thesis unfolding b2
      by (simp add: kiss_stream_append del: kiss_esc.simps) (simp add: kiss_feed_def KissDecoder_init_def)
  qed
  ultimately show ?thesis by (simp add: kiss_stream_append b1 split_beta)
qed

theorem kiss_oversize_resync_witness:
  "fst (kiss_stream (the (kiss_encode 0 (replicate 801 7) 900) @ [0x68] @ the (kiss_encode 0 [9] 900)) KissDecoder_init) = [[0x68]]"
proof -
  have e: "kiss_encode 0 (replicate n 7) 900 = Some (the (kiss_encode 0 (replicate n 7) 900))" if "n \<le> 801" for n
  proof -
    have "kiss_esc (replicate m 7) = replicate m 7" for m by (rule kiss_esc_plain) (auto simp: kiss_bytes)
    with that show ?thesis by (auto simp: kiss_encode_def kiss_body_esc kiss_bytes)
  qed
  have "kiss_encode 0 [9] 900 = Some (the (kiss_encode 0 [9] 900))" by code_simp
  from kiss_oversize_resync [OF _ _ _ _ _ _ e [of 801] this, of "[0x68]"] show ?thesis
    by (simp add: KISS_MAX_FRAME_def kiss_bytes)
qed

end
