(* ===== verification/Lru_Cache.thy ===== *)
theory Lru_Cache
  imports Slot_Table
begin

text \<open>
  The small report caches of the firmware (battery reports, last announces): an entry for a known key is
  replaced, a new key takes a free slot, and when there is none the stalest entry, by the wrap-around
  millisecond clock, makes room. The locale \<open>lru_cache\<close> extends the slot tables by the time stamp and gives
  the map law of an insertion once for all of them.
\<close>

definition cache_idx :: "('e \<Rightarrow> bool) \<Rightarrow> ('e \<Rightarrow> 'k) \<Rightarrow> ('e \<Rightarrow> u32) \<Rightarrow> 'k \<Rightarrow> 'e list \<Rightarrow> nat option" where
  "cache_idx used key ms k xs =
     (case slot_find used key k xs of
        Some i \<Rightarrow> Some i
      | None \<Rightarrow>
          (case find_idx (\<lambda>e. \<not> used e) xs of
             Some i \<Rightarrow> Some i
           | None \<Rightarrow> best_idx (\<lambda>_. True) (\<lambda>a b. before32 (ms a) (ms b)) xs))"

definition cache_put :: "('e \<Rightarrow> bool) \<Rightarrow> ('e \<Rightarrow> 'k) \<Rightarrow> ('e \<Rightarrow> u32) \<Rightarrow> 'e \<Rightarrow> 'e list \<Rightarrow> 'e list" where
  "cache_put used key ms e xs = (case cache_idx used key ms (key e) xs of None \<Rightarrow> xs | Some i \<Rightarrow> xs[i := e])"

locale lru_cache = slot_table used key clear
  for used :: "'e \<Rightarrow> bool" and key :: "'e \<Rightarrow> 'k" and clear :: "'e \<Rightarrow> 'e" +
  fixes ms :: "'e \<Rightarrow> u32"
begin

lemma length_put: "length (cache_put used key ms e xs) = length xs"
  by (simp add: cache_put_def split: option.splits)

lemma put_cases:
  assumes "xs \<noteq> []"
  obtains (known) i where "slot_find used key (key e) xs = Some i" "cache_put used key ms e xs = xs[i := e]"
  | (free) i where "slot_find used key (key e) xs = None" "i < length xs" "\<not> used (xs ! i)" "cache_put used key ms e xs = xs[i := e]"
  | (evict) i where "slot_find used key (key e) xs = None" "\<forall>x\<in>set xs. used x"
      "best_idx (\<lambda>_. True) (\<lambda>a b. before32 (ms a) (ms b)) xs = Some i" "i < length xs" "cache_put used key ms e xs = xs[i := e]"
proof (cases "slot_find used key (key e) xs")
  case (Some i)
  then show thesis by (intro known) (simp_all add: cache_put_def cache_idx_def)
next
  case none: None
  show thesis
  proof (cases "find_idx (\<lambda>e. \<not> used e) xs")
    case (Some i)
    then show thesis using none find_idx_lt [OF Some] find_idx_sat [OF Some]
      by (intro free [of i]) (simp_all add: cache_put_def cache_idx_def)
  next
    case all: None
    have "best_idx (\<lambda>_. True) (\<lambda>a b. before32 (ms a) (ms b)) xs \<noteq> None" using assms by (cases xs) (auto simp: best_idx_None)
    then obtain i where i: "best_idx (\<lambda>_. True) (\<lambda>a b. before32 (ms a) (ms b)) xs = Some i" by blast
    moreover have "\<forall>x\<in>set xs. used x" using all by (simp add: find_idx_None_iff)
    ultimately show thesis using none all best_idx_Some [OF i]
      by (intro evict [of i]) (simp_all add: cache_put_def cache_idx_def)
  qed
qed

lemma distinct_put:
  assumes "slots_distinct used key xs" "xs \<noteq> []" "used e"
  shows "slots_distinct used key (cache_put used key ms e xs)"
  using assms(2)
proof (cases rule: put_cases [where e = e])
  case (known i)
  then show ?thesis using find_SomeD [OF known(1)] assms by (auto intro: distinct_refresh)
qed (use assms in \<open>auto intro: distinct_claim\<close>)

text \<open>The inserted entry is found; another one is unaffected, unless every slot was live and it was the
  stalest.\<close>

lemma lookup_put:
  assumes "slots_distinct used key xs" "xs \<noteq> []" "used e"
  shows "slot_lookup used key (cache_put used key ms e xs) (key e) = Some e"
    and "k \<noteq> key e \<Longrightarrow> slot_lookup used key xs k = Some x \<Longrightarrow>
      slot_lookup used key (cache_put used key ms e xs) k \<noteq> Some x \<Longrightarrow>
      (\<forall>y\<in>set xs. used y) \<and> (\<exists>i. best_idx (\<lambda>_. True) (\<lambda>a b. before32 (ms a) (ms b)) xs = Some i \<and> x = xs ! i)"
proof -
  have "slot_lookup used key (cache_put used key ms e xs) (key e) = Some e \<and>
    (k \<noteq> key e \<and> slot_lookup used key xs k = Some x \<and> slot_lookup used key (cache_put used key ms e xs) k \<noteq> Some x \<longrightarrow>
      (\<forall>y\<in>set xs. used y) \<and> (\<exists>i. best_idx (\<lambda>_. True) (\<lambda>a b. before32 (ms a) (ms b)) xs = Some i \<and> x = xs ! i))"
    using assms(2)
  proof (cases rule: put_cases [where e = e])
    case (known i)
    then show ?thesis using lookup_refresh [OF assms(1) known(1) assms(3)] by simp
  next
    case (free i)
    then show ?thesis using lookup_claim [OF assms(1) free(1,2) assms(3)] by simp
  next
    case (evict i)
    have u: "used (xs ! i)" using evict(2,4) by simp
    have "slot_lookup used key xs (key (xs ! i)) = Some (xs ! i)"
      using lookup_in_set [OF assms(1) nth_mem [OF evict(4)] u] .
    then show ?thesis using lookup_claim [OF assms(1) evict(1,4) assms(3)] u evict(2,3,5) by auto
  qed
  then show "slot_lookup used key (cache_put used key ms e xs) (key e) = Some e"
    and "k \<noteq> key e \<Longrightarrow> slot_lookup used key xs k = Some x \<Longrightarrow>
      slot_lookup used key (cache_put used key ms e xs) k \<noteq> Some x \<Longrightarrow>
      (\<forall>y\<in>set xs. used y) \<and> (\<exists>i. best_idx (\<lambda>_. True) (\<lambda>a b. before32 (ms a) (ms b)) xs = Some i \<and> x = xs ! i)"
    by blast+
qed

text \<open>While no more keys than slots are in play, nothing is ever evicted: the cache is exactly the map that
  keeps the last entry of every key.\<close>

lemma put_within_capacity:
  assumes "slots_distinct used key xs" "used e" and "card (insert (key e) (key ` {x \<in> set xs. used x})) \<le> length xs"
  shows "slot_lookup used key (cache_put used key ms e xs) = (slot_lookup used key xs)(key e \<mapsto> e)"
proof -
  have "xs \<noteq> []" using assms(3) by (auto simp: card_insert_if)
  then show ?thesis
  proof (cases rule: put_cases [where e = e])
    case (known i)
    then show ?thesis using lookup_refresh [OF assms(1) known(1) assms(2)] by simp
  next
    case (free i)
    then show ?thesis using lookup_claim [OF assms(1) free(1,2) assms(2)] by simp
  next
    case (evict i)
    have "{x \<in> set xs. used x} = set xs" "filter used xs = xs" using evict(2) by (auto simp: filter_id_conv)
    moreover have "distinct (map key xs)" using assms(1) calculation(2) by (simp add: slots_distinct_def)
    then have "card (set (map key xs)) = length xs" using distinct_card by fastforce
    moreover have "key e \<notin> key ` set xs" using find_NoneD [OF evict(1)] evict(2) by (metis imageE in_set_conv_nth)
    ultimately show ?thesis using assms(3) by simp
  qed
qed

lemma run_within_capacity:
  assumes "\<not> used z" "\<forall>e\<in>set es. used e" "card (key ` set es) \<le> n" "0 < n"
  shows "slots_distinct used key (foldl (\<lambda>xs e. cache_put used key ms e xs) (replicate n z) es)"
    and "slot_lookup used key (foldl (\<lambda>xs e. cache_put used key ms e xs) (replicate n z) es)
      = map_of (rev (map (\<lambda>e. (key e, e)) es))"
proof -
  let ?run = "foldl (\<lambda>xs e. cache_put used key ms e xs) (replicate n z)"
  have len: "length (?run es) = n" for es by (induction es rule: rev_induct) (simp_all add: length_put)
  have "slots_distinct used key (?run es) \<and> slot_lookup used key (?run es) = map_of (rev (map (\<lambda>e. (key e, e)) es))"
    using assms(2,3)
  proof (induction es rule: rev_induct)
    case Nil
    have "slot_find used key k (replicate n z) = None" for k using assms(1) by (simp add: slot_find_def find_idx_None_iff)
    then have "slot_lookup used key (replicate n z) = Map.empty" by (auto simp: slot_lookup_def)
    then show ?case using assms(1) by (simp add: distinct_replicate)
  next
    case (snoc e es)
    have "card (key ` set es) \<le> card (key ` set (es @ [e]))" by (intro card_mono) auto
    then have IH: "slots_distinct used key (?run es)" "slot_lookup used key (?run es) = map_of (rev (map (\<lambda>e. (key e, e)) es))"
      using snoc by auto
    have "key ` {x \<in> set (?run es). used x} \<subseteq> key ` set es"
    proof
      fix k assume "k \<in> key ` {x \<in> set (?run es). used x}"
      then obtain x where "slot_lookup used key (?run es) k = Some x" using lookup_in_set [OF IH(1)] by auto
      then show "k \<in> key ` set es" unfolding IH(2) by (auto dest!: map_of_SomeD)
    qed
    then have "card (insert (key e) (key ` {x \<in> set (?run es). used x})) \<le> card (key ` set (es @ [e]))"
      by (intro card_mono) auto
    then have cap: "card (insert (key e) (key ` {x \<in> set (?run es). used x})) \<le> length (?run es)" using snoc.prems(2) len [of es] by simp
    have ne: "?run es \<noteq> []" using len [of es] assms(4) by auto
    show ?case using put_within_capacity [OF IH(1) _ cap] distinct_put [OF IH(1) ne] snoc.prems(1) IH(2) by simp
  qed
  then show "slots_distinct used key (?run es)" and "slot_lookup used key (?run es) = map_of (rev (map (\<lambda>e. (key e, e)) es))" by auto
qed

end

end
