(* ===== verification/Telemetry.thy ===== *)
theory Telemetry
  imports Mesh_Types Lru_Cache Wire_Codec
begin

text \<open>
  \<^verbatim>\<open>lib/mesh/telemetry.h/.cpp\<close>: battery floods, status queries and replies, and the cache of the last
  battery report per node.

  The signed fields (\<^verbatim>\<open>int8_t\<close>, \<^verbatim>\<open>int16_t\<close>) are words of that width, read with \<open>sint\<close>. A C string is the
  list of its bytes before the terminating NUL; the fixed text arrays of a parsed message hold the bytes
  that were copied.
\<close>

section \<open>Messages\<close>

definition TELEM_BATT :: u8 where "TELEM_BATT = 1"
definition TELEM_QUERY :: u8 where "TELEM_QUERY = 2"
definition TELEM_REPLY :: u8 where "TELEM_REPLY = 3"

lemmas telem_kinds = TELEM_BATT_def TELEM_QUERY_def TELEM_REPLY_def

definition TELEM_FW_MAX :: nat where "TELEM_FW_MAX = 12"
definition TELEM_NAME_MAX :: nat where "TELEM_NAME_MAX = 20"
definition TELEM_NBR_MAX :: nat where "TELEM_NBR_MAX = 16"
definition TELEM_CACHE_CAP :: nat where "TELEM_CACHE_CAP = 16"

lemmas telem_sizes = TELEM_FW_MAX_def TELEM_NAME_MAX_def TELEM_NBR_MAX_def

definition TELEM_FLAG_MOBILE :: u8 where "TELEM_FLAG_MOBILE = 0x01"
definition TELEM_FLAG_BLE :: u8 where "TELEM_FLAG_BLE = 0x02"

record telem_nbr =
  tn_id :: node_id
  tn_q_rx :: u8
  tn_q_tx :: u8
  tn_snr :: u8
  tn_rssi :: u16

record telem_msg =
  tm_kind :: u8
  tm_mv :: u16
  tm_pct_plus1 :: u8
  tm_target :: node_id
  tm_uptime_min :: u16
  tm_power_dbm :: u8
  tm_sf :: u8
  tm_flags :: u8
  tm_fw :: bytes
  tm_name :: bytes
  tm_nbrs :: "telem_nbr list"

definition TelemMsg_init :: telem_msg where
  "TelemMsg_init = \<lparr>tm_kind = 0, tm_mv = 0, tm_pct_plus1 = 0, tm_target = nid_zero, tm_uptime_min = 0,
     tm_power_dbm = 0, tm_sf = 0, tm_flags = 0, tm_fw = [], tm_name = [], tm_nbrs = []\<rparr>"

section \<open>Builders\<close>

definition telem_build_batt :: "u16 \<Rightarrow> u8 \<Rightarrow> nat \<Rightarrow> bytes option" where
  "telem_build_batt mv pct_plus1 cap =
     (if cap < 4 then None else Some ([TELEM_BATT] @ put_u16 mv @ [pct_plus1]))"

definition telem_build_query :: "node_id \<Rightarrow> nat \<Rightarrow> bytes option" where
  "telem_build_query target cap =
     (if cap < 17 \<or> is_zero target then None else Some ([TELEM_QUERY] @ nid_write target))"

text \<open>The bytes of a C string up to its NUL, at most \<open>n\<close>.\<close>

definition cstr :: "nat \<Rightarrow> bytes \<Rightarrow> bytes" where
  "cstr n s = take n (takeWhile (\<lambda>c. c \<noteq> 0) s)"

definition put_telem_nbr :: "telem_nbr \<Rightarrow> bytes" where
  "put_telem_nbr n = nid_write (tn_id n) @ [tn_q_rx n, tn_q_tx n, tn_snr n] @ put_u16 (tn_rssi n)"

definition telem_build_reply ::
  "u16 \<Rightarrow> u8 \<Rightarrow> u16 \<Rightarrow> u8 \<Rightarrow> u8 \<Rightarrow> u8 \<Rightarrow> bytes \<Rightarrow> bytes \<Rightarrow> telem_nbr list \<Rightarrow> nat \<Rightarrow> bytes option" where
  "telem_build_reply mv pct_plus1 uptime_min power_dbm sf flags fw name nbrs cap =
     (let fw = cstr TELEM_FW_MAX fw; name = cstr TELEM_NAME_MAX name; nbrs = take TELEM_NBR_MAX nbrs in
      if cap < 10 + length fw + 1 + length name + 1 + length nbrs * 21 then None
      else Some ([TELEM_REPLY] @ put_u16 mv @ [pct_plus1] @ put_u16 uptime_min @ [power_dbm, sf, flags]
                 @ [of_nat (length fw)] @ fw @ [of_nat (length name)] @ name
                 @ [of_nat (length nbrs)] @ concat (map put_telem_nbr nbrs)))"

section \<open>Parser\<close>

fun get_telem_nbrs :: "nat \<Rightarrow> bytes \<Rightarrow> nat \<Rightarrow> telem_nbr list option" where
  "get_telem_nbrs 0 msg p = Some []"
| "get_telem_nbrs (Suc n) msg p = do {
     i \<leftarrow> rd_nid msg p; rx \<leftarrow> rd8 msg (p + 16); tx \<leftarrow> rd8 msg (p + 17); snr \<leftarrow> rd8 msg (p + 18); rssi \<leftarrow> rd16 msg (p + 19);
     ns \<leftarrow> get_telem_nbrs n msg (p + 21);
     Some (\<lparr>tn_id = i, tn_q_rx = rx, tn_q_tx = tx, tn_snr = snr, tn_rssi = rssi\<rparr> # ns) }"

definition telem_parse_reply :: "bytes \<Rightarrow> telem_msg option option" where
  "telem_parse_reply msg =
     (if length msg < 11 then Some None
      else do {
        mv \<leftarrow> rd16 msg 1; pct \<leftarrow> rd8 msg 3; up \<leftarrow> rd16 msg 4; power \<leftarrow> rd8 msg 6; sf \<leftarrow> rd8 msg 7; flags \<leftarrow> rd8 msg 8;
        fl \<leftarrow> rd8 msg 9;
        let fw_len = unat fl;
        if TELEM_FW_MAX < fw_len \<or> length msg < 10 + fw_len + 1 then Some None
        else do {
          fw \<leftarrow> rdn msg 10 fw_len;
          nl \<leftarrow> rd8 msg (10 + fw_len);
          let name_len = unat nl;
          let p = 10 + fw_len + 1;
          if TELEM_NAME_MAX < name_len \<or> length msg < p + name_len + 1 then Some None
          else do {
            name \<leftarrow> rdn msg p name_len;
            nn \<leftarrow> rd8 msg (p + name_len);
            let n = unat nn;
            let p = p + name_len + 1;
            if TELEM_NBR_MAX < n \<or> length msg < p + n * 21 then Some None
            else do {
              nbrs \<leftarrow> get_telem_nbrs n msg p;
              Some (Some \<lparr>tm_kind = TELEM_REPLY, tm_mv = mv, tm_pct_plus1 = pct, tm_target = nid_zero, tm_uptime_min = up,
                tm_power_dbm = power, tm_sf = sf, tm_flags = flags, tm_fw = fw, tm_name = name, tm_nbrs = nbrs\<rparr>) } } } })"

definition telem_parse :: "bytes \<Rightarrow> telem_msg option option" where
  "telem_parse msg =
     (if length msg < 1 then Some None
      else do {
        kind \<leftarrow> rd8 msg 0;
        if kind = TELEM_BATT then
          if length msg < 4 then Some None
          else do { mv \<leftarrow> rd16 msg 1; pct \<leftarrow> rd8 msg 3;
                    Some (Some (TelemMsg_init\<lparr>tm_kind := kind, tm_mv := mv, tm_pct_plus1 := pct\<rparr>)) }
        else if kind = TELEM_QUERY then
          if length msg < 17 then Some None
          else do { t \<leftarrow> rd_nid msg 1;
                    Some (if is_zero t then None else Some (TelemMsg_init\<lparr>tm_kind := kind, tm_target := t\<rparr>)) }
        else if kind = TELEM_REPLY then telem_parse_reply msg
        else Some None })"

section \<open>Battery cache\<close>

record telem_entry =
  te_origin :: node_id
  te_mv :: u16
  te_pct_plus1 :: u8
  te_ms :: u32
  te_used :: bool

type_synonym telem_cache = "telem_entry list"

definition TelemCache_init :: telem_cache where
  "TelemCache_init = replicate TELEM_CACHE_CAP \<lparr>te_origin = nid_zero, te_mv = 0, te_pct_plus1 = 0, te_ms = 0, te_used = False\<rparr>"

definition telem_upsert :: "telem_cache \<Rightarrow> node_id \<Rightarrow> u16 \<Rightarrow> u8 \<Rightarrow> u32 \<Rightarrow> telem_cache" where
  "telem_upsert c origin mv pct_plus1 now =
     cache_put te_used te_origin te_ms \<lparr>te_origin = origin, te_mv = mv, te_pct_plus1 = pct_plus1, te_ms = now, te_used = True\<rparr> c"

record telem_view =
  tv_origin :: node_id
  tv_mv :: u16
  tv_pct_plus1 :: u8
  tv_age_ms :: u32

definition telem_snapshot :: "telem_cache \<Rightarrow> nat \<Rightarrow> u32 \<Rightarrow> telem_view list" where
  "telem_snapshot c cap now =
     map (\<lambda>e. \<lparr>tv_origin = te_origin e, tv_mv = te_mv e, tv_pct_plus1 = te_pct_plus1 e, tv_age_ms = now - te_ms e\<rparr>)
       (take cap (filter te_used c))"

section \<open>Codec lemmas\<close>

lemma length_put_telem_nbr [simp]: "length (put_telem_nbr n) = 21"
  by (simp add: put_telem_nbr_def)

lemma length_put_telem_nbrs [simp]: "length (concat (map put_telem_nbr ns)) = length ns * 21"
  by (induction ns) simp_all

lemma put_telem_nbr_fields:
  "put_telem_nbr \<lparr>tn_id = i, tn_q_rx = rx, tn_q_tx = tx, tn_snr = snr, tn_rssi = rssi\<rparr> =
     nid_write i @ rx # tx # snr # put_u16 rssi"
  by (simp add: put_telem_nbr_def)

lemma get_telem_nbrs_at:
  "length pre = p \<Longrightarrow> get_telem_nbrs (length ns) (pre @ concat (map put_telem_nbr ns) @ suf) p = Some ns"
proof (induction ns arbitrary: pre p)
  case Nil
  then show ?case by simp
next
  case (Cons n ns)
  have "get_telem_nbrs (length ns) ((pre @ put_telem_nbr n) @ concat (map put_telem_nbr ns) @ suf) (p + 21) = Some ns"
    using Cons.prems by (intro Cons.IH) simp
  with Cons.prems show ?case by (cases n) (simp add: put_telem_nbr_fields codec_simps)
qed

lemma get_telem_nbrs_safe: "p + n * 21 \<le> length msg \<Longrightarrow> \<exists>ns. get_telem_nbrs n msg p = Some ns \<and> length ns = n"
proof (induction n arbitrary: p)
  case 0
  then show ?case by simp
next
  case (Suc n)
  then obtain ns where "get_telem_nbrs n msg (p + 21) = Some ns" "length ns = n" by force
  with Suc.prems show ?case by (simp add: rd_safe)
qed

lemma telem_parse_reply_total: "telem_parse_reply msg \<noteq> None"
proof (cases "length msg < 11")
  case False
  define fl where "fl = unat (msg ! 9)"
  define nl where "nl = unat (msg ! (10 + fl))"
  define n where "n = unat (msg ! (10 + fl + 1 + nl))"
  have nb: "\<exists>ns. get_telem_nbrs n msg p = Some ns" if "p + n * 21 \<le> length msg" for p
    using get_telem_nbrs_safe that by blast
  have hd: "rd8 msg 9 = Some (msg ! 9)" using False by (simp add: rd_safe)
  show ?thesis
  proof (cases "TELEM_FW_MAX < fl \<or> length msg < 10 + fl + 1")
    case True
    then show ?thesis using False by (auto simp: telem_parse_reply_def rd_safe fl_def Let_def)
  next
    case fw: False
    show ?thesis
    proof (cases "TELEM_NAME_MAX < nl \<or> length msg < 10 + fl + 1 + nl + 1")
      case True
      then show ?thesis using False fw by (auto simp: telem_parse_reply_def rd_safe fl_def nl_def Let_def)
    next
      case nm: False
      obtain ns where "get_telem_nbrs n msg (10 + fl + 1 + nl + 1) = Some ns \<or> length msg < 10 + fl + 1 + nl + 1 + n * 21"
        using nb [of "10 + fl + 1 + nl + 1"] by force
      then show ?thesis using False fw nm
        by (auto simp: telem_parse_reply_def rd_safe fl_def nl_def n_def Let_def)
    qed
  qed
qed (simp add: telem_parse_reply_def)

lemma telem_parse_total: "telem_parse msg \<noteq> None"
proof (cases "msg = []")
  case False
  then show ?thesis using telem_parse_reply_total [of msg] by (auto simp: telem_parse_def rd_safe)
qed (simp add: telem_parse_def)

lemma cstr_bound: "length (cstr n s) \<le> n"
  by (simp add: cstr_def)

lemma telem_reply_parse:
  assumes "telem_build_reply mv pct up pw sf fl fw name nbrs cap = Some bs"
  shows "telem_parse (bs @ tail) = Some (Some \<lparr>tm_kind = TELEM_REPLY, tm_mv = mv, tm_pct_plus1 = pct, tm_target = nid_zero,
    tm_uptime_min = up, tm_power_dbm = pw, tm_sf = sf, tm_flags = fl, tm_fw = cstr 12 fw, tm_name = cstr 20 name,
    tm_nbrs = take 16 nbrs\<rparr>)"
    and "length bs = 12 + length (cstr 12 fw) + length (cstr 20 name) + length (take 16 nbrs) * 21" "length bs \<le> cap"
proof -
  let ?fw = "cstr 12 fw" and ?name = "cstr 20 name" and ?ns = "take 16 nbrs"
  have bs: "bs = [TELEM_REPLY] @ put_u16 mv @ [pct] @ put_u16 up @ [pw, sf, fl] @ [of_nat (length ?fw)] @ ?fw
      @ [of_nat (length ?name)] @ ?name @ [of_nat (length ?ns)] @ concat (map put_telem_nbr ?ns)"
    and cap: "10 + length ?fw + 1 + length ?name + 1 + length ?ns * 21 \<le> cap"
    using assms by (auto simp: telem_build_reply_def telem_sizes Let_def split: if_splits)
  show len: "length bs = 12 + length ?fw + length ?name + length ?ns * 21" by (simp add: bs)
  then show "length bs \<le> cap" using cap by simp
  have u: "unat (of_nat (length ?fw) :: u8) = length ?fw" "unat (of_nat (length ?name) :: u8) = length ?name"
    "unat (of_nat (length ?ns) :: u8) = length ?ns"
    using cstr_bound [of 12 fw] cstr_bound [of 20 name] by (simp_all add: unsigned_of_nat take_bit_nat_eq_self)
  let ?pre = "[TELEM_REPLY] @ put_u16 mv @ [pct] @ put_u16 up @ [pw, sf, fl] @ [of_nat (length ?fw)] @ ?fw
      @ [of_nat (length ?name)] @ ?name @ [of_nat (length ?ns)]"
  have "get_telem_nbrs (length ?ns) (?pre @ concat (map put_telem_nbr ?ns) @ tail) (10 + length ?fw + 1 + length ?name + 1) = Some ?ns"
    by (rule get_telem_nbrs_at) simp
  then have nb: "get_telem_nbrs (length ?ns) (bs @ tail) (10 + length ?fw + 1 + length ?name + 1) = Some ?ns" by (simp add: bs)
  have hd: "rd8 (bs @ tail) 0 = Some TELEM_REPLY" "rd16 (bs @ tail) 1 = Some mv" "rd8 (bs @ tail) 3 = Some pct"
    "rd16 (bs @ tail) 4 = Some up" "rd8 (bs @ tail) 6 = Some pw" "rd8 (bs @ tail) 7 = Some sf" "rd8 (bs @ tail) 8 = Some fl"
    "rd8 (bs @ tail) 9 = Some (of_nat (length ?fw))" "rdn (bs @ tail) 10 (length ?fw) = Some ?fw"
    "rd8 (bs @ tail) (10 + length ?fw) = Some (of_nat (length ?name))"
    "rdn (bs @ tail) (10 + length ?fw + 1) (length ?name) = Some ?name"
    "rd8 (bs @ tail) (10 + length ?fw + 1 + length ?name) = Some (of_nat (length ?ns))"
    by (simp_all add: bs codec_simps)
  have sz: "\<not> length (bs @ tail) < 11" "\<not> length (bs @ tail) < 1" "\<not> length (bs @ tail) < 10 + length ?fw + 1"
    "\<not> length (bs @ tail) < 10 + length ?fw + 1 + length ?name + 1"
    "\<not> length (bs @ tail) < 10 + length ?fw + 1 + length ?name + 1 + length ?ns * 21"
    "\<not> TELEM_FW_MAX < length ?fw" "\<not> TELEM_NAME_MAX < length ?name" "\<not> TELEM_NBR_MAX < length ?ns"
    using cstr_bound [of 12 fw] cstr_bound [of 20 name] by (simp_all add: len telem_sizes)
  have k: "TELEM_REPLY \<noteq> TELEM_BATT" "TELEM_REPLY \<noteq> TELEM_QUERY" by (simp_all add: telem_kinds)
  show "telem_parse (bs @ tail) = Some (Some \<lparr>tm_kind = TELEM_REPLY, tm_mv = mv, tm_pct_plus1 = pct, tm_target = nid_zero,
    tm_uptime_min = up, tm_power_dbm = pw, tm_sf = sf, tm_flags = fl, tm_fw = ?fw, tm_name = ?name, tm_nbrs = ?ns\<rparr>)"
    by (simp only: telem_parse_def telem_parse_reply_def hd u sz nb k Let_def bind.bind_lunit if_False if_True de_Morgan_disj simp_thms)
qed

section \<open>Codec contract\<close>

text \<open>The message on the wire, by kind, and what of it survives.\<close>

definition telem_enc :: "telem_msg \<Rightarrow> bytes" where
  "telem_enc m = the (if tm_kind m = TELEM_BATT then telem_build_batt (tm_mv m) (tm_pct_plus1 m) 65535
     else if tm_kind m = TELEM_QUERY then telem_build_query (tm_target m) 65535
     else telem_build_reply (tm_mv m) (tm_pct_plus1 m) (tm_uptime_min m) (tm_power_dbm m) (tm_sf m) (tm_flags m)
       (tm_fw m) (tm_name m) (tm_nbrs m) 65535)"

definition telem_norm :: "telem_msg \<Rightarrow> telem_msg" where
  "telem_norm m =
     (if tm_kind m = TELEM_BATT then TelemMsg_init\<lparr>tm_kind := TELEM_BATT, tm_mv := tm_mv m, tm_pct_plus1 := tm_pct_plus1 m\<rparr>
      else if tm_kind m = TELEM_QUERY then TelemMsg_init\<lparr>tm_kind := TELEM_QUERY, tm_target := tm_target m\<rparr>
      else m\<lparr>tm_target := nid_zero, tm_fw := cstr 12 (tm_fw m), tm_name := cstr 20 (tm_name m), tm_nbrs := take 16 (tm_nbrs m)\<rparr>)"

definition telem_ok :: "telem_msg \<Rightarrow> bool" where
  "telem_ok m \<longleftrightarrow> tm_kind m \<in> {TELEM_BATT, TELEM_QUERY, TELEM_REPLY} \<and> (tm_kind m = TELEM_QUERY \<longrightarrow> \<not> is_zero (tm_target m))"

lemma telem_batt_parse:
  "telem_build_batt mv pct cap = Some bs \<Longrightarrow>
     telem_parse (bs @ tail) = Some (Some (TelemMsg_init\<lparr>tm_kind := TELEM_BATT, tm_mv := mv, tm_pct_plus1 := pct\<rparr>)) \<and> length bs = 4"
  by (auto simp: telem_build_batt_def telem_parse_def codec_simps split: if_splits)

lemma telem_query_parse:
  "telem_build_query t cap = Some bs \<Longrightarrow>
     telem_parse (bs @ tail) = Some (Some (TelemMsg_init\<lparr>tm_kind := TELEM_QUERY, tm_target := t\<rparr>)) \<and> length bs = 17"
  by (auto simp: telem_build_query_def telem_parse_def telem_kinds codec_simps split: if_splits)

lemma telem_build_reply_fits:
  "12 + length (cstr 12 fw) + length (cstr 20 name) + length (take 16 nbrs) * 21 \<le> cap \<Longrightarrow>
     telem_build_reply mv pct up pw sf fl fw name nbrs cap \<noteq> None"
  by (simp add: telem_build_reply_def telem_sizes Let_def)

lemma telem_reply_max: "12 + length (cstr 12 fw) + length (cstr 20 name) + length (take 16 nbrs) * 21 \<le> 380"
  using cstr_bound [of 12 fw] cstr_bound [of 20 name] by simp

lemma telem_dec_enc:
  assumes "telem_ok m"
  shows "telem_parse (telem_enc m @ tail) = Some (Some (telem_norm m))"
proof -
  consider (batt) "tm_kind m = TELEM_BATT" | (query) "tm_kind m = TELEM_QUERY" "\<not> is_zero (tm_target m)"
    | (reply) "tm_kind m = TELEM_REPLY" using assms by (auto simp: telem_ok_def)
  then show ?thesis
  proof cases
    case batt
    obtain bs where bs: "telem_build_batt (tm_mv m) (tm_pct_plus1 m) 65535 = Some bs" by (simp add: telem_build_batt_def)
    show ?thesis using telem_batt_parse [OF bs, of tail] batt by (simp add: telem_enc_def telem_norm_def bs)
  next
    case query
    then have k: "tm_kind m \<noteq> TELEM_BATT" by (simp add: telem_kinds)
    obtain bs where bs: "telem_build_query (tm_target m) 65535 = Some bs" using query(2) by (simp add: telem_build_query_def)
    have q: "TELEM_QUERY \<noteq> TELEM_BATT" by (simp add: telem_kinds)
    show ?thesis using telem_query_parse [OF bs, of tail] query(1) q by (simp add: telem_enc_def telem_norm_def bs)
  next
    case reply
    then have k: "tm_kind m \<noteq> TELEM_BATT" "tm_kind m \<noteq> TELEM_QUERY" by (simp_all add: telem_kinds)
    obtain bs where bs: "telem_build_reply (tm_mv m) (tm_pct_plus1 m) (tm_uptime_min m) (tm_power_dbm m) (tm_sf m) (tm_flags m)
       (tm_fw m) (tm_name m) (tm_nbrs m) 65535 = Some bs"
      using telem_build_reply_fits telem_reply_max [of "tm_fw m" "tm_name m" "tm_nbrs m"] by force
    have "telem_norm m = \<lparr>tm_kind = TELEM_REPLY, tm_mv = tm_mv m, tm_pct_plus1 = tm_pct_plus1 m, tm_target = nid_zero,
        tm_uptime_min = tm_uptime_min m, tm_power_dbm = tm_power_dbm m, tm_sf = tm_sf m, tm_flags = tm_flags m,
        tm_fw = cstr 12 (tm_fw m), tm_name = cstr 20 (tm_name m), tm_nbrs = take 16 (tm_nbrs m)\<rparr>"
      using k reply by (simp add: telem_norm_def)
    then show ?thesis using telem_reply_parse(1) [OF bs] by (simp add: telem_enc_def k bs)
  qed
qed

interpretation tlm: wire_codec_tail telem_enc telem_parse telem_norm telem_ok
  by unfold_locales (simp_all add: telem_parse_total telem_dec_enc)

text \<open>Telemetry codec. The parser never reads outside the received payload, whatever its bytes. Every
  battery, query and reply message a builder emits parses back to the values it was built from, with the firmware
  string cut at 12, the name at 20 and the neighbour list at 16 entries, whatever follows it in the payload; and a
  reply never needs more than 380 bytes, the size of the reply buffer.\<close>

theorem telem_codec:
  "(telem_build_batt mv pct cap = Some bs \<longrightarrow>
      telem_parse (bs @ tail) = Some (Some (TelemMsg_init\<lparr>tm_kind := TELEM_BATT, tm_mv := mv, tm_pct_plus1 := pct\<rparr>)))
   \<and> (telem_build_query t cap = Some bs \<longrightarrow>
      telem_parse (bs @ tail) = Some (Some (TelemMsg_init\<lparr>tm_kind := TELEM_QUERY, tm_target := t\<rparr>)))
   \<and> (telem_build_reply mv pct up pw sf fl fw name nbrs cap = Some bs \<longrightarrow>
      telem_parse (bs @ tail) = Some (Some \<lparr>tm_kind = TELEM_REPLY, tm_mv = mv, tm_pct_plus1 = pct, tm_target = nid_zero,
        tm_uptime_min = up, tm_power_dbm = pw, tm_sf = sf, tm_flags = fl, tm_fw = cstr 12 fw, tm_name = cstr 20 name,
        tm_nbrs = take 16 nbrs\<rparr>) \<and> length bs \<le> 380)
   \<and> (380 \<le> cap \<longrightarrow> telem_build_reply mv pct up pw sf fl fw name nbrs cap \<noteq> None)
   \<and> (telem_ok m \<and> telem_ok m' \<and> telem_enc m @ t1 = telem_enc m' @ t2 \<longrightarrow> telem_norm m = telem_norm m')
   \<and> telem_parse msg \<noteq> None"
proof (intro conjI impI)
  show "telem_build_reply mv pct up pw sf fl fw name nbrs cap \<noteq> None" if "380 \<le> cap"
    using that telem_reply_max [of fw name nbrs] by (intro telem_build_reply_fits) (rule order_trans)
  show "length bs \<le> 380" if "telem_build_reply mv pct up pw sf fl fw name nbrs cap = Some bs"
    using telem_reply_max [of fw name nbrs] telem_reply_parse(2) [OF that] by simp
  show "telem_parse msg \<noteq> None" by (rule tlm.dec_total)
qed (use tlm.prefix_free in \<open>blast intro: telem_batt_parse [THEN conjunct1] telem_query_parse [THEN conjunct1] telem_reply_parse(1)\<close>)+

theorem telem_codec_witness:
  "telem_parse [3, 1] \<noteq> None \<and>
   telem_parse [1, 0x74, 0x0E, 81, 99] = Some (Some (TelemMsg_init\<lparr>tm_kind := TELEM_BATT, tm_mv := 3700, tm_pct_plus1 := 81\<rparr>))"
proof -
  have "telem_build_batt 3700 81 4 = Some [1, 0x74, 0x0E, 81]" by code_simp
  with telem_codec [of 3700 81 4 "[1, 0x74, 0x0E, 81]" "[99]"] telem_codec [of _ _ _ _ _ _ _ _ _ _ _ _ _ _ _ _ _ "[3, 1]"]
  show ?thesis by simp
qed

section \<open>The battery cache\<close>

interpretation tlc: lru_cache te_used te_origin "\<lambda>e. e\<lparr>te_used := False\<rparr>" te_ms
  by unfold_locales simp_all

text \<open>The reports of a node's lifetime, oldest first, and the entry each one leaves.\<close>

definition telem_entry_of :: "node_id \<times> u16 \<times> u8 \<times> u32 \<Rightarrow> telem_entry" where
  "telem_entry_of = (\<lambda>(origin, mv, pct, t). \<lparr>te_origin = origin, te_mv = mv, te_pct_plus1 = pct, te_ms = t, te_used = True\<rparr>)"

definition telem_run :: "(node_id \<times> u16 \<times> u8 \<times> u32) list \<Rightarrow> telem_cache" where
  "telem_run rs = foldl (\<lambda>c (origin, mv, pct, t). telem_upsert c origin mv pct t) TelemCache_init rs"

lemma telem_run_put: "telem_run rs =
    foldl (\<lambda>c e. cache_put te_used te_origin te_ms e c) TelemCache_init (map telem_entry_of rs)"
  by (simp add: telem_run_def foldl_map telem_upsert_def telem_entry_of_def case_prod_unfold)

lemma telem_run_inv: "slots_distinct te_used te_origin (telem_run rs) \<and> length (telem_run rs) = 16"
proof (induction rs rule: rev_induct)
  case Nil
  then show ?case by (simp add: telem_run_def TelemCache_init_def TELEM_CACHE_CAP_def tlc.distinct_replicate)
next
  case (snoc r rs)
  then have "telem_run rs \<noteq> []" by auto
  with snoc show ?case
    by (simp add: telem_run_def telem_upsert_def case_prod_unfold tlc.length_put tlc.distinct_put)
qed

text \<open>Battery cache. As long as at most 16 nodes report, the cache holds for every node exactly its last report.
  With more, the newest report is always there, and an insertion removes another node's report only when all 16
  slots are taken and that report is the one the wrap-around comparison finds stalest.\<close>

theorem telem_cache_latest:
  "(card (fst ` set rs) \<le> 16 \<longrightarrow>
      slot_lookup te_used te_origin (telem_run rs) = map_of (rev (map (\<lambda>r. (fst r, telem_entry_of r)) rs)))
   \<and> slot_lookup te_used te_origin (telem_run (rs @ [(origin, mv, pct, t)])) origin = Some (telem_entry_of (origin, mv, pct, t))
   \<and> (i \<noteq> origin \<and> slot_lookup te_used te_origin (telem_run rs) i = Some x
      \<and> slot_lookup te_used te_origin (telem_run (rs @ [(origin, mv, pct, t)])) i \<noteq> Some x \<longrightarrow>
      (\<forall>y\<in>set (telem_run rs). te_used y) \<and>
      (\<exists>k. best_idx (\<lambda>_. True) (\<lambda>a b. before32 (te_ms a) (te_ms b)) (telem_run rs) = Some k \<and> x = telem_run rs ! k))"
proof (intro conjI impI)
  let ?e = "telem_entry_of (origin, mv, pct, t)"
  have ok: "te_used (telem_entry_of r)" "te_origin (telem_entry_of r) = fst r" for r by (simp_all add: telem_entry_of_def case_prod_unfold)
  show "slot_lookup te_used te_origin (telem_run rs) = map_of (rev (map (\<lambda>r. (fst r, telem_entry_of r)) rs))"
    if "card (fst ` set rs) \<le> 16"
    using tlc.run_within_capacity(2) [of "\<lparr>te_origin = nid_zero, te_mv = 0, te_pct_plus1 = 0, te_ms = 0, te_used = False\<rparr>"
        "map telem_entry_of rs" 16] that
    by (simp add: telem_run_put TelemCache_init_def TELEM_CACHE_CAP_def ok image_image comp_def)
  have run: "telem_run (rs @ [(origin, mv, pct, t)]) = cache_put te_used te_origin te_ms ?e (telem_run rs)" by (simp add: telem_run_put)
  have ne: "telem_run rs \<noteq> []" using telem_run_inv [of rs] by auto
  note put = tlc.lookup_put [OF telem_run_inv [THEN conjunct1] ne ok(1) [of "(origin, mv, pct, t)"]]
  show "slot_lookup te_used te_origin (telem_run (rs @ [(origin, mv, pct, t)])) origin = Some ?e"
    using put(1) ok(2) [of "(origin, mv, pct, t)"] by (simp add: run)
  assume "i \<noteq> origin \<and> slot_lookup te_used te_origin (telem_run rs) i = Some x
      \<and> slot_lookup te_used te_origin (telem_run (rs @ [(origin, mv, pct, t)])) i \<noteq> Some x"
  then have "(\<forall>y\<in>set (telem_run rs). te_used y) \<and>
      (\<exists>k. best_idx (\<lambda>_. True) (\<lambda>a b. before32 (te_ms a) (te_ms b)) (telem_run rs) = Some k \<and> x = telem_run rs ! k)"
    using put(2) [of i x] ok(2) [of "(origin, mv, pct, t)"] by (simp add: run)
  then show "\<forall>y\<in>set (telem_run rs). te_used y"
    and "\<exists>k. best_idx (\<lambda>_. True) (\<lambda>a b. before32 (te_ms a) (te_ms b)) (telem_run rs) = Some k \<and> x = telem_run rs ! k"
    by blast+
qed

theorem telem_cache_latest_witness:
  "slot_lookup te_used te_origin (telem_run [(nid_from_u32 1, 3700, 81, 5), (nid_from_u32 2, 3600, 71, 6), (nid_from_u32 1, 3500, 61, 7)])
     (nid_from_u32 1) = Some (telem_entry_of (nid_from_u32 1, 3500, 61, 7))"
  using telem_cache_latest [of "[(nid_from_u32 1, 3700, 81, 5), (nid_from_u32 2, 3600, 71, 6), (nid_from_u32 1, 3500, 61, 7)]"]
  by (simp add: card_insert_if)

end
