(* ===== verification/Radio_Hal.thy ===== *)
theory Radio_Hal
  imports Prelude
begin

text \<open>
  \<^verbatim>\<open>src/radio_hal.cpp\<close>, \<^verbatim>\<open>include/radio_hal.h\<close>: the non-blocking radio driver with listen-before-talk. The chip
  behind RadioLib is a parameter: the record \<open>radio_env\<close> holds what its calls return during one operation, the
  clock and the random number. The interrupt is an event of its own; inside \<^verbatim>\<open>poll\<close> it may also fire between
  the re-scan and the test of the flag.

  \<^verbatim>\<open>poll\<close> returns the frame it received instead of calling \<^verbatim>\<open>on_rx_\<close>; whoever runs the callback on it calls
  \<^verbatim>\<open>arm_rx\<close> afterwards, as \<^verbatim>\<open>poll\<close> does.
\<close>

section \<open>State\<close>

definition RADIO_MAX_FRAME :: nat where "RADIO_MAX_FRAME = 255"
definition CAD_MAX_TRIES :: nat where "CAD_MAX_TRIES = 4"
definition LORA_MAX_TX_POWER_DBM :: u8 where "LORA_MAX_TX_POWER_DBM = 22"

record radio_cfg =
  rc_freq_hz :: u32
  rc_bw_hz :: u32
  rc_sf :: u8
  rc_cr :: u8
  rc_power_dbm :: u8
  rc_sync :: u8
  rc_preamble :: u16

datatype hal_state = RX | TX | CAD

record radio_hal =
  hs_state :: hal_state
  hs_pend :: bytes
  hs_cad_tries :: nat
  hs_next_cad_ms :: u32
  hs_cad_enabled :: bool
  hs_cad_busy_count :: u32
  hs_cad_forced_count :: u32
  hs_rx_count :: u32
  hs_tx_count :: u32
  hs_rx_err_count :: u32
  hs_dio1 :: bool
  hs_cfg :: radio_cfg

record radio_env =
  re_now :: u32
  re_random :: u32
  re_scan_ok :: bool
  re_tx_ok :: bool
  re_detected :: bool
  re_irq :: bool
  re_rx :: "bytes option"

section \<open>Operations\<close>

definition hal_busy :: "radio_hal \<Rightarrow> bool" where
  "hal_busy h \<longleftrightarrow> hs_state h \<noteq> RX \<or> hs_pend h \<noteq> []"

definition isr :: "radio_hal \<Rightarrow> radio_hal" where
  "isr h = h\<lparr>hs_dio1 := True\<rparr>"

definition arm_rx :: "radio_hal \<Rightarrow> radio_hal" where
  "arm_rx h = h\<lparr>hs_state := RX\<rparr>"

text \<open>An operation also returns its calls of \<^verbatim>\<open>startTransmit\<close>: the frame, and whether the call succeeded. A frame whose call failed
  is dropped; the others are on the air.\<close>

type_synonym tx_call = "bytes \<times> bool"

definition start_pending_tx :: "radio_env \<Rightarrow> radio_hal \<Rightarrow> radio_hal \<times> tx_call list" where
  "start_pending_tx e h =
     (let f = hs_pend h; h = h\<lparr>hs_pend := []\<rparr>
      in (if \<not> re_tx_ok e then arm_rx h else h\<lparr>hs_state := TX\<rparr>, [(f, re_tx_ok e)]))"

definition start_cad :: "radio_env \<Rightarrow> radio_hal \<Rightarrow> radio_hal \<times> tx_call list" where
  "start_cad e h =
     (let h = h\<lparr>hs_state := CAD\<rparr>
      in if \<not> re_scan_ok e then start_pending_tx e h else (h, []))"

definition hal_send :: "radio_env \<Rightarrow> bytes \<Rightarrow> radio_hal \<Rightarrow> bool \<times> radio_hal \<times> tx_call list" where
  "hal_send e buf h =
     (if hs_state h \<noteq> RX \<or> hs_pend h \<noteq> [] then (False, h, [])
      else if buf = [] \<or> RADIO_MAX_FRAME < length buf then (False, h, [])
      else if hs_dio1 h then (False, h, [])
      else let h = h\<lparr>hs_pend := buf, hs_cad_tries := 0\<rparr>
           in (True, if hs_cad_enabled h then start_cad e h else start_pending_tx e h))"

definition backoff :: "u32 \<Rightarrow> nat \<Rightarrow> u32" where
  "backoff rnd tries = push_bit (tries - 1) (20 + rnd)"

definition cad_verdict :: "radio_env \<Rightarrow> radio_hal \<Rightarrow> radio_hal \<times> tx_call list" where
  "cad_verdict e h =
     (if re_detected e \<and> hs_cad_tries h + 1 < CAD_MAX_TRIES then
        let tries = hs_cad_tries h + 1
        in (arm_rx (h\<lparr>hs_cad_busy_count := hs_cad_busy_count h + 1, hs_cad_tries := tries,
                     hs_next_cad_ms := re_now e + backoff (re_random e) tries\<rparr>), [])
      else start_pending_tx e
        (if re_detected e then h\<lparr>hs_cad_busy_count := hs_cad_busy_count h + 1, hs_cad_forced_count := hs_cad_forced_count h + 1\<rparr>
         else h))"

definition rx_done :: "radio_env \<Rightarrow> radio_hal \<Rightarrow> radio_hal \<times> bytes option" where
  "rx_done e h =
     (case re_rx e of
        Some d \<Rightarrow> (h\<lparr>hs_rx_count := hs_rx_count h + 1\<rparr>, Some (take RADIO_MAX_FRAME d))
      | None \<Rightarrow> (arm_rx (h\<lparr>hs_rx_err_count := hs_rx_err_count h + 1\<rparr>), None))"

definition hal_poll :: "radio_env \<Rightarrow> radio_hal \<Rightarrow> radio_hal \<times> tx_call list \<times> bytes option" where
  "hal_poll e h =
     (let (h, air) = (if hs_state h = RX \<and> hs_pend h \<noteq> [] \<and> \<not> hs_dio1 h \<and> \<not> before32 (re_now e) (hs_next_cad_ms h)
                      then start_cad e h else (h, []));
          h = (if re_irq e then isr h else h)
      in if \<not> hs_dio1 h then (h, air, None)
         else let h = h\<lparr>hs_dio1 := False\<rparr> in
           case hs_state h of
             TX \<Rightarrow> (arm_rx (h\<lparr>hs_tx_count := hs_tx_count h + 1\<rparr>), air, None)
           | CAD \<Rightarrow> let (h, air') = cad_verdict e h in (h, air @ air', None)
           | RX \<Rightarrow> let (h, f) = rx_done e h in (h, air, f))"

definition apply_config :: "bool \<Rightarrow> radio_cfg \<Rightarrow> radio_hal \<Rightarrow> bool \<times> radio_hal" where
  "apply_config ok c h = (if \<not> ok then (False, h) else (True, arm_rx (h\<lparr>hs_cfg := c\<rparr>)))"

definition set_cad :: "bool \<Rightarrow> radio_hal \<Rightarrow> radio_hal" where
  "set_cad on h = h\<lparr>hs_cad_enabled := on\<rparr>"

section \<open>Runs\<close>

datatype hal_event = Isr | Poll radio_env | Send radio_env bytes | Apply bool radio_cfg | Set_cad bool

fun hal_step :: "hal_event \<Rightarrow> radio_hal \<Rightarrow> radio_hal \<times> tx_call list" where
  "hal_step Isr h = (isr h, [])"
| "hal_step (Poll e) h = (let (h', air, f) = hal_poll e h in (if f = None then h' else arm_rx h', air))"
| "hal_step (Send e f) h = (let (_, h', air) = hal_send e f h in (h', air))"
| "hal_step (Apply ok c) h = (snd (apply_config ok c h), [])"
| "hal_step (Set_cad on) h = (set_cad on h, [])"

text \<open>The number of channel verdicts a step reads: a poll that finds the driver scanning with the flag raised.\<close>

fun hal_verdicts :: "hal_event \<Rightarrow> radio_hal \<Rightarrow> nat" where
  "hal_verdicts (Poll e) h =
     (let h' = (if hs_state h = RX \<and> hs_pend h \<noteq> [] \<and> \<not> hs_dio1 h \<and> \<not> before32 (re_now e) (hs_next_cad_ms h)
                then fst (start_cad e h) else h)
      in if hs_state h' = CAD \<and> (hs_dio1 h' \<or> re_irq e) then 1 else 0)"
| "hal_verdicts _ h = 0"

fun hal_run :: "hal_event list \<Rightarrow> radio_hal \<Rightarrow> radio_hal \<times> tx_call list \<times> nat" where
  "hal_run [] h = (h, [], 0)"
| "hal_run (ev # evs) h =
     (let (h', a) = hal_step ev h; (h'', a', v) = hal_run evs h' in (h'', a @ a', hal_verdicts ev h + v))"

section \<open>A parked frame is handed over first\<close>

text \<open>The frame \<open>f\<close> is parked and \<open>v\<close> verdicts have found the channel busy.\<close>

definition parked :: "bytes \<Rightarrow> nat \<Rightarrow> radio_hal \<Rightarrow> bool" where
  "parked f v h \<longleftrightarrow> hs_pend h = f \<and> hs_cad_tries h = v \<and> v < CAD_MAX_TRIES \<and> hs_state h \<noteq> TX"

lemma start_cad_parked:
  assumes "parked f v h"
  shows "start_cad e h = (if re_scan_ok e then (h\<lparr>hs_state := CAD\<rparr>, []) else
      (h\<lparr>hs_state := if re_tx_ok e then TX else RX, hs_pend := []\<rparr>, [(f, re_tx_ok e)]))"
  using assms by (cases h) (simp add: start_cad_def start_pending_tx_def parked_def arm_rx_def Let_def)

lemma cad_verdict_parked:
  assumes "parked f v h"
  shows "(\<exists>h'. cad_verdict e h = (h', [(f, re_tx_ok e)])) \<or> (\<exists>h'. cad_verdict e h = (h', []) \<and> parked f (Suc v) h')"
  using assms by (auto simp: cad_verdict_def start_pending_tx_def parked_def arm_rx_def Let_def)

lemma hal_poll_parked:
  assumes "parked f v h" "f \<noteq> []"
  shows "(\<exists>ok rest. snd (hal_step (Poll e) h) = (f, ok) # rest) \<or>
     snd (hal_step (Poll e) h) = [] \<and> parked f (v + hal_verdicts (Poll e) h) (fst (hal_step (Poll e) h))"
proof -
  define h1 where "h1 = (if hs_state h = RX \<and> hs_pend h \<noteq> [] \<and> \<not> hs_dio1 h \<and> \<not> before32 (re_now e) (hs_next_cad_ms h)
                then start_cad e h else (h, []))"
  define h2 where "h2 = (if re_irq e then isr (fst h1) else fst h1)"
  have step: "hal_step (Poll e) h = (if \<not> hs_dio1 h2 then (h2, snd h1) else
      case hs_state h2 of
        TX \<Rightarrow> (arm_rx (h2\<lparr>hs_dio1 := False, hs_tx_count := hs_tx_count h2 + 1\<rparr>), snd h1)
      | CAD \<Rightarrow> (fst (cad_verdict e (h2\<lparr>hs_dio1 := False\<rparr>)), snd h1 @ snd (cad_verdict e (h2\<lparr>hs_dio1 := False\<rparr>)))
      | RX \<Rightarrow> (arm_rx (fst (rx_done e (h2\<lparr>hs_dio1 := False\<rparr>))), snd h1))"
    by (simp add: hal_poll_def h1_def h2_def Let_def case_prod_unfold rx_done_def arm_rx_def split: hal_state.split option.split)
  show ?thesis
  proof (cases "snd h1 = []")
    case False
    then obtain h' where "h1 = (h', [(f, re_tx_ok e)])" using assms start_cad_parked [OF assms(1), of e]
      by (auto simp: h1_def split: if_splits)
    then show ?thesis unfolding step by (auto split: hal_state.split)
  next
    case True
    have p1: "parked f v (fst h1)" using True assms start_cad_parked [OF assms(1), of e]
      by (auto simp: h1_def parked_def split: if_splits)
    then have p2: "parked f v (h2\<lparr>hs_dio1 := b\<rparr>)" "parked f v h2" for b by (auto simp: h2_def parked_def isr_def)
    have v: "hal_verdicts (Poll e) h = (if hs_state h2 = CAD \<and> hs_dio1 h2 then 1 else 0)"
      by (auto simp: h1_def h2_def isr_def Let_def)
    show ?thesis
    proof (cases "hs_dio1 h2")
      case False
      then show ?thesis unfolding step v using True p2 by simp
    next
      case fired: True
      show ?thesis
      proof (cases "hs_state h2")
        case RX
        then show ?thesis unfolding step v using fired True p2
          by (auto simp: rx_done_def parked_def arm_rx_def split: option.splits)
      next
        case TX
        then show ?thesis using p2 by (simp add: parked_def)
      next
        case CAD
        then show ?thesis unfolding step v using fired True cad_verdict_parked [OF p2(1) [of False], of e] by auto
      qed
    qed
  qed
qed

lemma hal_step_parked:
  assumes "parked f v h" "f \<noteq> []"
  shows "(\<exists>ok rest. snd (hal_step ev h) = (f, ok) # rest) \<or> snd (hal_step ev h) = [] \<and> parked f (v + hal_verdicts ev h) (fst (hal_step ev h))"
proof (cases ev)
  case (Poll e)
  then show ?thesis using hal_poll_parked [OF assms] by simp
next
  case (Send e b)
  then show ?thesis using assms by (auto simp: hal_send_def parked_def)
qed (use assms in \<open>auto simp: parked_def isr_def apply_config_def arm_rx_def set_cad_def\<close>)

lemma hal_run_parked:
  assumes "parked f v h" "f \<noteq> []"
  shows "(\<exists>ok rest. fst (snd (hal_run evs h)) = (f, ok) # rest) \<or>
     fst (snd (hal_run evs h)) = [] \<and> parked f (v + snd (snd (hal_run evs h))) (fst (hal_run evs h))"
  using assms(1)
proof (induction evs arbitrary: h v)
  case (Cons ev evs)
  from hal_step_parked [OF Cons.prems assms(2), of ev] show ?case
  proof
    assume "\<exists>ok rest. snd (hal_step ev h) = (f, ok) # rest"
    then show ?thesis by (auto simp: case_prod_unfold Let_def)
  next
    assume s: "snd (hal_step ev h) = [] \<and> parked f (v + hal_verdicts ev h) (fst (hal_step ev h))"
    then have "parked f (v + hal_verdicts ev h) (fst (hal_step ev h))" by simp
    from Cons.IH [OF this] s show ?thesis by (simp add: case_prod_unfold Let_def add.assoc)
  qed
qed simp

text \<open>C11. Listen before talk never starves and never loses order. The idle driver accepts every frame of 1 to 255
  bytes. From then on, whatever the interrupts, polls, further sends and retunes, the accepted frame is the first
  one handed to the transmitter, byte for byte; it is there after at most four channel verdicts; and until then it
  stays parked and every other send is refused.\<close>

theorem csma_send:
  assumes "\<not> hal_busy h" and "\<not> hs_dio1 h" and "f \<noteq> []" and "length f \<le> RADIO_MAX_FRAME"
    and "hal_send e f h = (ok, h', a)" and "hal_run evs h' = (h'', a', v)"
  shows "ok
    \<and> (a @ a' \<noteq> [] \<longrightarrow> fst (hd (a @ a')) = f)
    \<and> (CAD_MAX_TRIES \<le> v \<longrightarrow> a @ a' \<noteq> [])
    \<and> (a @ a' = [] \<longrightarrow> hs_pend h'' = f \<and> fst (hal_send e2 g h'') = False)"
proof -
  define h0 where "h0 = h\<lparr>hs_pend := f, hs_cad_tries := 0\<rparr>"
  have p0: "parked f 0 h0" using assms(1) by (simp add: h0_def parked_def hal_busy_def CAD_MAX_TRIES_def)
  have s: "hal_send e f h = (True, if hs_cad_enabled h0 then start_cad e h0 else start_pending_tx e h0)"
    using assms(1-4) by (simp add: hal_send_def hal_busy_def h0_def)
  have "ok" using s assms(5) by simp
  moreover have "(\<exists>ok rest. a @ a' = (f, ok) # rest) \<or> a @ a' = [] \<and> parked f v h''"
  proof (cases "a = []")
    case False
    then have "a = [(f, re_tx_ok e)]" using s assms(5) start_cad_parked [OF p0, of e]
      by (auto simp: start_pending_tx_def h0_def Let_def split: if_splits)
    then show ?thesis by simp
  next
    case True
    have "parked f 0 h'" using True s assms(5) start_cad_parked [OF p0, of e] p0
      by (auto simp: start_pending_tx_def Let_def parked_def split: if_splits)
    from hal_run_parked [OF this assms(3), of evs] True assms(6) show ?thesis by simp
  qed
  ultimately show ?thesis using assms(3) by (auto simp: parked_def hal_send_def)
qed

definition hal_idle :: radio_hal where
  "hal_idle = \<lparr>hs_state = RX, hs_pend = [], hs_cad_tries = 0, hs_next_cad_ms = 0, hs_cad_enabled = True,
     hs_cad_busy_count = 0, hs_cad_forced_count = 0, hs_rx_count = 0, hs_tx_count = 0, hs_rx_err_count = 0, hs_dio1 = False,
     hs_cfg = \<lparr>rc_freq_hz = 906625000, rc_bw_hz = 62500, rc_sf = 7, rc_cr = 5, rc_power_dbm = 22, rc_sync = 0x4D, rc_preamble = 16\<rparr>\<rparr>"

definition env_busy :: "u32 \<Rightarrow> radio_env" where
  "env_busy t = \<lparr>re_now = t, re_random = 30, re_scan_ok = True, re_tx_ok = True, re_detected = True, re_irq = True, re_rx = None\<rparr>"

theorem csma_send_witness:
  "fst (hd (snd (snd (hal_send (env_busy 0) [1, 2] hal_idle)) @
       fst (snd (hal_run [Poll (env_busy 1), Poll (env_busy 1000), Send (env_busy 1500) [7], Poll (env_busy 2000), Poll (env_busy 3000)]
         (fst (snd (hal_send (env_busy 0) [1, 2] hal_idle))))))) = [1, 2]"
proof -
  let ?evs = "[Poll (env_busy 1), Poll (env_busy 1000), Send (env_busy 1500) [7], Poll (env_busy 2000), Poll (env_busy 3000)]"
  obtain ok h' a where s: "hal_send (env_busy 0) [1, 2] hal_idle = (ok, h', a)" by (metis prod_cases3)
  obtain h'' a' v where r: "hal_run ?evs h' = (h'', a', v)" by (metis prod_cases3)
  have "snd (snd (hal_run ?evs (fst (snd (hal_send (env_busy 0) [1, 2] hal_idle))))) = 4" by code_simp
  then have v: "v = 4" unfolding s fst_conv snd_conv r .
  have "\<not> hal_busy hal_idle" "\<not> hs_dio1 hal_idle" by code_simp+
  from csma_send [OF this _ _ s r] v show ?thesis
    unfolding s fst_conv snd_conv r by (simp add: CAD_MAX_TRIES_def RADIO_MAX_FRAME_def)
qed

end
