(* ===== verification/Radio_Chip.thy ===== *)
theory Radio_Chip
  imports Radio_Hal Float32
begin

text \<open>
  The settings of the radio chip (\<^verbatim>\<open>begin\<close> and \<^verbatim>\<open>apply_config\<close> of \<^verbatim>\<open>src/src/radio_hal.cpp\<close>) and the configuration the driver reports. The
  library between driver and chip is a parameter: which settings it accepts and what its start calls return. Pins, power
  rails and the bus are left out.
\<close>

section \<open>The chip\<close>

text \<open>What the driver has told the chip: for each of the seven settings the value of the last setter call that the library reported as
  done. What the library does with an accepted value is not modelled.\<close>

record chip =
  ch_freq :: float32
  ch_bw :: float32
  ch_sf :: u8
  ch_cr :: u8
  ch_sync :: u8
  ch_power :: u8
  ch_preamble :: u16

datatype setting = Set_freq float32 | Set_bw float32 | Set_sf u8 | Set_cr u8 | Set_sync u8 | Set_power u8 | Set_preamble u16

fun chip_set :: "setting \<Rightarrow> chip \<Rightarrow> chip" where
  "chip_set (Set_freq x) c = c\<lparr>ch_freq := x\<rparr>"
| "chip_set (Set_bw x) c = c\<lparr>ch_bw := x\<rparr>"
| "chip_set (Set_sf x) c = c\<lparr>ch_sf := x\<rparr>"
| "chip_set (Set_cr x) c = c\<lparr>ch_cr := x\<rparr>"
| "chip_set (Set_sync x) c = c\<lparr>ch_sync := x\<rparr>"
| "chip_set (Set_power x) c = c\<lparr>ch_power := x\<rparr>"
| "chip_set (Set_preamble x) c = c\<lparr>ch_preamble := x\<rparr>"

text \<open>The conversions of the driver: megahertz and kilohertz in binary32, the power cut at the hardware's ceiling.\<close>

definition freq_mhz :: "radio_cfg \<Rightarrow> float32" where
  "freq_mhz c = fdiv (fl (of_int (uint (rc_freq_hz c)))) 1000000"

definition bw_khz :: "radio_cfg \<Rightarrow> float32" where
  "bw_khz c = fdiv (fl (of_int (uint (rc_bw_hz c)))) 1000"

definition tx_power :: "radio_cfg \<Rightarrow> u8" where
  "tx_power c = (if sint LORA_MAX_TX_POWER_DBM < sint (rc_power_dbm c) then LORA_MAX_TX_POWER_DBM else rc_power_dbm c)"

definition phy_settings :: "radio_cfg \<Rightarrow> setting list" where
  "phy_settings c = [Set_freq (freq_mhz c), Set_bw (bw_khz c), Set_sf (rc_sf c), Set_cr (rc_cr c), Set_sync (rc_sync c),
     Set_power (tx_power c), Set_preamble (rc_preamble c)]"

text \<open>The setters in the order of \<^verbatim>\<open>apply_config\<close>. Which ones the library accepts is \<open>ok\<close>; one that is refused ends the sequence, and the
  last accepted values stay as they are.\<close>

fun apply_setters :: "(setting \<Rightarrow> bool) \<Rightarrow> setting list \<Rightarrow> chip \<Rightarrow> bool \<times> chip" where
  "apply_setters ok [] c = (True, c)"
| "apply_setters ok (s # ss) c = (if ok s then apply_setters ok ss (chip_set s c) else (False, c))"

definition radio_apply :: "(setting \<Rightarrow> bool) \<Rightarrow> radio_cfg \<Rightarrow> radio_hal \<Rightarrow> chip \<Rightarrow> bool \<times> radio_hal \<times> chip" where
  "radio_apply ok cfg h c =
     (let (applied, c) = apply_setters ok (phy_settings cfg) c
      in if \<not> applied then (False, h, c) else (True, arm_rx (h\<lparr>hs_cfg := cfg\<rparr>), c))"

text \<open>The start: the whole configuration in one call, with the voltage of the board's oscillator, and once more in crystal mode when
  that command fails; then the check sum and, unless the chip is an LR1110, the antenna switch. The arguments are what
  the library answers.\<close>

datatype begin_status = Begin_ok | Begin_spi_failed | Begin_error

definition chip_of :: "radio_cfg \<Rightarrow> chip" where
  "chip_of cfg = \<lparr>ch_freq = freq_mhz cfg, ch_bw = bw_khz cfg, ch_sf = rc_sf cfg, ch_cr = rc_cr cfg, ch_sync = rc_sync cfg,
     ch_power = tx_power cfg, ch_preamble = rc_preamble cfg\<rparr>"

definition radio_begin :: "begin_status \<Rightarrow> begin_status \<Rightarrow> bool \<Rightarrow> bool \<Rightarrow> bool \<Rightarrow> radio_cfg \<Rightarrow> radio_hal \<Rightarrow> chip \<Rightarrow> bool \<times> radio_hal \<times> chip" where
  "radio_begin tcxo xtal crc lr1110 dio2 cfg h c =
     (let h = h\<lparr>hs_cfg := cfg\<rparr>;
          st = (if tcxo = Begin_spi_failed then xtal else tcxo)
      in if st \<noteq> Begin_ok then (False, h, c)
         else
           let c = chip_of cfg in
           if \<not> crc then (False, h, c)
           else if \<not> lr1110 \<and> \<not> dio2 then (False, h, c)
           else (True, arm_rx h, c))"

definition RadioHal_init :: "radio_cfg \<Rightarrow> radio_hal" where
  "RadioHal_init cfg = \<lparr>hs_state = RX, hs_pend = [], hs_cad_tries = 0, hs_next_cad_ms = 0, hs_cad_enabled = True, hs_cad_busy_count = 0,
     hs_cad_forced_count = 0, hs_rx_count = 0, hs_tx_count = 0, hs_rx_err_count = 0, hs_dio1 = False, hs_cfg = cfg\<rparr>"

section \<open>Which configuration is on the air\<close>

lemma apply_setters_split:
  "apply_setters ok ss c = (if \<forall>s\<in>set ss. ok s then (True, fold chip_set ss c) else (False, fold chip_set (takeWhile ok ss) c))"
  by (induction ss arbitrary: c) auto

lemma phy_settings_all: "fold chip_set (phy_settings cfg) c = chip_of cfg"
  by (simp add: phy_settings_def chip_of_def)

lemma chip_freq_kept: "(\<And>x. Set_freq x \<notin> set ss) \<Longrightarrow> ch_freq (fold chip_set ss c) = ch_freq c"
proof (induction ss arbitrary: c)
  case (Cons s ss)
  then have "ch_freq (chip_set s c) = ch_freq c" by (cases s) auto
  with Cons show ?case by simp
qed simp

lemma refused_freq:
  assumes "ok (Set_freq (freq_mhz cfg))"
  shows "ch_freq (fold chip_set (takeWhile ok (phy_settings cfg)) c) = freq_mhz cfg"
proof -
  let ?r = "takeWhile ok (tl (phy_settings cfg))"
  have "takeWhile ok (phy_settings cfg) = Set_freq (freq_mhz cfg) # ?r" using assms by (simp add: phy_settings_def)
  moreover have "Set_freq x \<notin> set ?r" for x by (auto simp: phy_settings_def dest: set_takeWhileD)
  ultimately show ?thesis using chip_freq_kept [of ?r] by simp
qed

lemma radio_begin_done:
  "fst (radio_begin tcxo xtal crc lr dio2 cfg g d) \<Longrightarrow>
     hs_cfg (fst (snd (radio_begin tcxo xtal crc lr dio2 cfg g d))) = cfg \<and> snd (snd (radio_begin tcxo xtal crc lr dio2 cfg g d)) = chip_of cfg
     \<and> hs_state (fst (snd (radio_begin tcxo xtal crc lr dio2 cfg g d))) = RX"
  by (auto simp: radio_begin_def arm_rx_def Let_def split: if_splits)

lemma tx_power_ceiling: "sint (tx_power cfg) \<le> 22"
  by (simp add: tx_power_def LORA_MAX_TX_POWER_DBM_def)

text \<open>The driver's view of a configuration abstracts the chip's.\<close>

lemma radio_apply_abstract: "(fst (radio_apply ok cfg h c), fst (snd (radio_apply ok cfg h c))) = apply_config (\<forall>s\<in>set (phy_settings cfg). ok s) cfg h"
  by (simp add: radio_apply_def apply_setters_split apply_config_def)

text \<open>C35. What \<^verbatim>\<open>config()\<close> says is on the air, until a configuration is refused half way. A start or a change that succeeds leaves the
  chip with exactly the settings of the configuration the driver reports, listening, and never above 22 dBm; the driver
  moves as its own model says. A refused change leaves the driver as it was, but not the chip: the settings before the
  refused one are already written, so when the new frequency was among them and differs from the old one, the chip is
  on another frequency than the driver reports.\<close>

theorem config_in_force:
  assumes "c = chip_of (hs_cfg h)" "radio_apply ok cfg h c = (applied, h', c')"
  shows "(applied \<longleftrightarrow> (\<forall>s\<in>set (phy_settings cfg). ok s))
    \<and> (applied \<longrightarrow> hs_cfg h' = cfg \<and> c' = chip_of (hs_cfg h') \<and> hs_state h' = RX \<and> (applied, h') = apply_config True cfg h)
    \<and> (\<not> applied \<longrightarrow> h' = h \<and> c' = fold chip_set (takeWhile ok (phy_settings cfg)) c)
    \<and> (\<not> applied \<and> ok (Set_freq (freq_mhz cfg)) \<and> freq_mhz cfg \<noteq> freq_mhz (hs_cfg h) \<longrightarrow> c' \<noteq> chip_of (hs_cfg h') \<and> ch_freq c' = freq_mhz cfg)
    \<and> (\<forall>tcxo xtal crc lr dio2 g d. fst (radio_begin tcxo xtal crc lr dio2 cfg g d) \<longrightarrow>
        hs_cfg (fst (snd (radio_begin tcxo xtal crc lr dio2 cfg g d))) = cfg \<and> snd (snd (radio_begin tcxo xtal crc lr dio2 cfg g d)) = chip_of cfg
        \<and> hs_state (fst (snd (radio_begin tcxo xtal crc lr dio2 cfg g d))) = RX)
    \<and> sint (ch_power (chip_of cfg)) \<le> 22"
proof -
  have r: "applied \<longleftrightarrow> (\<forall>s\<in>set (phy_settings cfg). ok s)"
    "applied \<longrightarrow> h' = arm_rx (h\<lparr>hs_cfg := cfg\<rparr>) \<and> c' = chip_of cfg"
    "\<not> applied \<longrightarrow> h' = h \<and> c' = fold chip_set (takeWhile ok (phy_settings cfg)) c"
    using assms(2) by (auto simp: radio_apply_def apply_setters_split phy_settings_all split: if_splits)
  have f: "ch_freq c' = freq_mhz cfg" if "\<not> applied" "ok (Set_freq (freq_mhz cfg))" using r(3) that refused_freq by simp
  show ?thesis
  proof (intro conjI)
    show "applied \<longrightarrow> hs_cfg h' = cfg \<and> c' = chip_of (hs_cfg h') \<and> hs_state h' = RX \<and> (applied, h') = apply_config True cfg h"
      using r(2) by (auto simp: arm_rx_def apply_config_def)
    show "\<not> applied \<and> ok (Set_freq (freq_mhz cfg)) \<and> freq_mhz cfg \<noteq> freq_mhz (hs_cfg h) \<longrightarrow> c' \<noteq> chip_of (hs_cfg h') \<and> ch_freq c' = freq_mhz cfg"
      using f r(3) by (metis chip.select_convs(1) chip_of_def)
    show "sint (ch_power (chip_of cfg)) \<le> 22" using tx_power_ceiling by (simp add: chip_of_def)
  qed (use r(1,3) radio_begin_done in blast)+
qed

definition chip_example :: radio_cfg where
  "chip_example = \<lparr>rc_freq_hz = 910525000, rc_bw_hz = 62500, rc_sf = 7, rc_cr = 5, rc_power_dbm = 22, rc_sync = 0x12, rc_preamble = 16\<rparr>"

theorem config_in_force_witness:
  "\<exists>h h' c'. hs_cfg h = chip_example
    \<and> radio_apply (\<lambda>s. s \<noteq> Set_sf 3) (chip_example\<lparr>rc_freq_hz := 915000000, rc_sf := 3\<rparr>) h (chip_of chip_example) = (False, h', c')
    \<and> hs_cfg h' = chip_example \<and> ch_freq c' = freq_mhz (chip_example\<lparr>rc_freq_hz := 915000000, rc_sf := 3\<rparr>) \<and> c' \<noteq> chip_of chip_example"
proof -
  let ?cfg = "chip_example\<lparr>rc_freq_hz := 915000000, rc_sf := 3\<rparr>" and ?ok = "\<lambda>s. s \<noteq> Set_sf 3"
  define h where "h = RadioHal_init chip_example"
  have h: "hs_cfg h = chip_example" by (simp add: h_def RadioHal_init_def)
  obtain applied h' c' where r: "radio_apply ?ok ?cfg h (chip_of chip_example) = (applied, h', c')" by (metis prod_cases3)
  have "\<not> (\<forall>s\<in>set (phy_settings ?cfg). ?ok s)" "?ok (Set_freq (freq_mhz ?cfg))" by (simp_all add: phy_settings_def)
  moreover have "freq_mhz ?cfg \<noteq> freq_mhz chip_example" by code_simp
  ultimately show ?thesis using config_in_force [OF _ r] h r by (intro exI conjI) (assumption | auto)+
qed

end
