(* ===== verification/Control.thy ===== *)
theory Control
  imports Announce_Codec
begin

text \<open>
  \<^verbatim>\<open>lib/mesh/control.h/.cpp\<close>: the codec and signature check of the signed control plane. Ed25519 (the vendored
  Monocypher) is a parameter, as for the announces: \<open>ed_sign sk m\<close> and \<open>ed_check sig pk m\<close>.

  \<^verbatim>\<open>ctrl_verify\<close> fills its result structure only on success; the model passes the structure in and
  returns it. As for every parser, \<open>None\<close> is a read outside the received payload.
\<close>

section \<open>Messages\<close>

definition CTRL_POWER :: u8 where "CTRL_POWER = 1"
definition CTRL_CONFIRM :: u8 where "CTRL_CONFIRM = 2"
definition CTRL_BLOCK :: u8 where "CTRL_BLOCK = 3"
definition CTRL_UNBLOCK :: u8 where "CTRL_UNBLOCK = 4"
definition CTRL_BLE :: u8 where "CTRL_BLE = 5"
definition CTRL_RETUNE :: u8 where "CTRL_RETUNE = 6"

lemmas ctrl_cmds = CTRL_POWER_def CTRL_CONFIRM_def CTRL_BLOCK_def CTRL_UNBLOCK_def CTRL_BLE_def CTRL_RETUNE_def

datatype ctrl_verdict = CTRL_OK | CTRL_MALFORMED | CTRL_BAD_SIG | CTRL_REPLAY

definition CTRL_VER :: u8 where "CTRL_VER = 2"
definition CTRL_RETUNE_CFG :: nat where "CTRL_RETUNE_CFG = 13"
definition CTRL_MSG_BYTES :: nat where "CTRL_MSG_BYTES = 23 + 64"
definition CTRL_BLK_BYTES :: nat where "CTRL_BLK_BYTES = 39 + 64"
definition CTRL_RTN_BYTES :: nat where "CTRL_RTN_BYTES = 22 + CTRL_RETUNE_CFG + 64"
definition CTRL_ACK_BYTES :: nat where "CTRL_ACK_BYTES = 24"

lemmas ctrl_sizes = CTRL_RETUNE_CFG_def CTRL_MSG_BYTES_def CTRL_BLK_BYTES_def CTRL_RTN_BYTES_def CTRL_ACK_BYTES_def

record ctrl_msg =
  cm_cmd :: u8
  cm_target :: node_id
  cm_arg :: u8
  cm_aux :: node_id
  cm_counter :: u32
  cm_cfg :: bytes

definition CtrlMsg_init :: ctrl_msg where
  "CtrlMsg_init = \<lparr>cm_cmd = 0, cm_target = nid_zero, cm_arg = 0, cm_aux = nid_zero, cm_counter = 0, cm_cfg = replicate 13 0\<rparr>"

record ctrl_ack =
  ca_cmd :: u8
  ca_origin :: node_id
  ca_applied :: u8
  ca_provisional :: u8
  ca_counter :: u32

definition DOMAIN :: bytes where
  "DOMAIN = [0x41, 0x47, 0x4E, 0x2D, 0x43, 0x54, 0x52, 0x4C, 0x2D, 0x31]"

definition unsigned_len :: "u8 \<Rightarrow> nat" where
  "unsigned_len cmd =
     (if cmd = CTRL_BLOCK \<or> cmd = CTRL_UNBLOCK then 39
      else if cmd = CTRL_RETUNE then 22 + CTRL_RETUNE_CFG
      else 23)"

definition DOMAIN_VIEW_MAX :: nat where "DOMAIN_VIEW_MAX = 10 + 39"

definition known_cmd :: "u8 \<Rightarrow> bool" where
  "known_cmd cmd \<longleftrightarrow> cmd = CTRL_POWER \<or> cmd = CTRL_CONFIRM \<or> cmd = CTRL_BLOCK \<or> cmd = CTRL_UNBLOCK
     \<or> cmd = CTRL_BLE \<or> cmd = CTRL_RETUNE"

definition signed_view :: "bytes \<Rightarrow> bytes" where
  "signed_view unsigned_part = DOMAIN @ unsigned_part"

section \<open>Builders\<close>

definition ctrl_build :: "(bytes \<Rightarrow> bytes \<Rightarrow> bytes) \<Rightarrow> u8 \<Rightarrow> node_id \<Rightarrow> u8 \<Rightarrow> u32 \<Rightarrow> bytes \<Rightarrow> nat \<Rightarrow> bytes option" where
  "ctrl_build ed_sign cmd target arg counter seckey cap =
     (if cap < CTRL_MSG_BYTES \<or> is_zero target then None
      else if cmd \<noteq> CTRL_POWER \<and> cmd \<noteq> CTRL_CONFIRM \<and> cmd \<noteq> CTRL_BLE then None
      else let u = [CTRL_VER, cmd] @ nid_write target @ [arg] @ put_u32 counter
           in Some (u @ ed_sign seckey (signed_view u)))"

definition ctrl_build_block :: "(bytes \<Rightarrow> bytes \<Rightarrow> bytes) \<Rightarrow> u8 \<Rightarrow> node_id \<Rightarrow> node_id \<Rightarrow> u8 \<Rightarrow> u32 \<Rightarrow> bytes \<Rightarrow> nat \<Rightarrow> bytes option" where
  "ctrl_build_block ed_sign cmd target victim ttl_min counter seckey cap =
     (if cap < CTRL_BLK_BYTES \<or> is_zero target \<or> is_zero victim then None
      else if cmd \<noteq> CTRL_BLOCK \<and> cmd \<noteq> CTRL_UNBLOCK then None
      else let u = [CTRL_VER, cmd] @ nid_write target @ [ttl_min] @ nid_write victim @ put_u32 counter
           in Some (u @ ed_sign seckey (signed_view u)))"

definition ctrl_build_retune :: "(bytes \<Rightarrow> bytes \<Rightarrow> bytes) \<Rightarrow> node_id \<Rightarrow> bytes \<Rightarrow> u32 \<Rightarrow> bytes \<Rightarrow> nat \<Rightarrow> bytes option" where
  "ctrl_build_retune ed_sign target cfg counter seckey cap =
     (if cap < CTRL_RTN_BYTES \<or> is_zero target then None
      else let u = [CTRL_VER, CTRL_RETUNE] @ nid_write target @ cfg @ put_u32 counter
           in Some (u @ ed_sign seckey (signed_view u)))"

section \<open>Verification\<close>

definition ctrl_fill :: "u8 \<Rightarrow> u32 \<Rightarrow> bytes \<Rightarrow> ctrl_msg \<Rightarrow> ctrl_msg option" where
  "ctrl_fill cmd counter msg out = do {
     target \<leftarrow> rd_nid msg 2;
     let out = out\<lparr>cm_cmd := cmd, cm_target := target, cm_counter := counter\<rparr>;
     if cmd = CTRL_RETUNE then do { cfg \<leftarrow> rdn msg 18 CTRL_RETUNE_CFG; Some (out\<lparr>cm_cfg := cfg\<rparr>) }
     else do {
       arg \<leftarrow> rd8 msg 18;
       aux \<leftarrow> (if cmd = CTRL_BLOCK \<or> cmd = CTRL_UNBLOCK then rd_nid msg 19 else Some nid_zero);
       Some (out\<lparr>cm_arg := arg, cm_aux := aux\<rparr>) } }"

definition ctrl_verify ::
  "(bytes \<Rightarrow> bytes \<Rightarrow> bytes \<Rightarrow> bool) \<Rightarrow> bytes \<Rightarrow> bytes \<Rightarrow> u32 \<Rightarrow> ctrl_msg \<Rightarrow> (ctrl_verdict \<times> ctrl_msg) option" where
  "ctrl_verify ed_check msg pubkey min_counter out =
     (if length msg < CTRL_MSG_BYTES then Some (CTRL_MALFORMED, out)
      else do {
        ver \<leftarrow> rd8 msg 0;
        if ver \<noteq> CTRL_VER then Some (CTRL_MALFORMED, out)
        else do {
          cmd \<leftarrow> rd8 msg 1;
          if \<not> known_cmd cmd then Some (CTRL_MALFORMED, out)
          else let ulen = unsigned_len cmd in
            if length msg < ulen + 64 then Some (CTRL_MALFORMED, out)
            else do {
              u \<leftarrow> rdn msg 0 ulen;
              sig \<leftarrow> rdn msg ulen 64;
              if \<not> ed_check sig pubkey (signed_view u) then Some (CTRL_BAD_SIG, out)
              else do {
                counter \<leftarrow> rd32 msg (ulen - 4);
                if counter \<le> min_counter then Some (CTRL_REPLAY, out)
                else do { out \<leftarrow> ctrl_fill cmd counter msg out; Some (CTRL_OK, out) } } } } })"

section \<open>Acknowledgements\<close>

definition ctrl_is_ack :: "bytes \<Rightarrow> bool" where
  "ctrl_is_ack msg \<longleftrightarrow> CTRL_ACK_BYTES \<le> length msg \<and> msg ! 0 = CTRL_VER \<and> msg ! 1 AND 0x80 \<noteq> 0"

definition ctrl_build_ack :: "u8 \<Rightarrow> node_id \<Rightarrow> u8 \<Rightarrow> u8 \<Rightarrow> u32 \<Rightarrow> nat \<Rightarrow> bytes option" where
  "ctrl_build_ack cmd origin applied provisional counter cap =
     (if cap < CTRL_ACK_BYTES then None
      else Some ([CTRL_VER, cmd OR 0x80] @ nid_write origin @ [applied, provisional] @ put_u32 counter))"

definition ctrl_parse_ack :: "bytes \<Rightarrow> ctrl_ack option option" where
  "ctrl_parse_ack msg =
     (if \<not> ctrl_is_ack msg then Some None
      else do {
        c \<leftarrow> rd8 msg 1; origin \<leftarrow> rd_nid msg 2; applied \<leftarrow> rd8 msg 18; prov \<leftarrow> rd8 msg 19; counter \<leftarrow> rd32 msg 20;
        Some (Some \<lparr>ca_cmd = c AND 0x7F, ca_origin = origin, ca_applied = applied, ca_provisional = prov, ca_counter = counter\<rparr>) })"

section \<open>Lemmas\<close>

text \<open>The canonical unsigned bytes of a command.\<close>

definition ctrl_wire :: "ctrl_msg \<Rightarrow> bytes" where
  "ctrl_wire m = [CTRL_VER, cm_cmd m] @ nid_write (cm_target m)
     @ (if cm_cmd m = CTRL_RETUNE then cm_cfg m
        else cm_arg m # (if cm_cmd m = CTRL_BLOCK \<or> cm_cmd m = CTRL_UNBLOCK then nid_write (cm_aux m) else []))
     @ put_u32 (cm_counter m)"

definition ctrl_msg_ok :: "ctrl_msg \<Rightarrow> bool" where
  "ctrl_msg_ok m \<longleftrightarrow> known_cmd (cm_cmd m) \<and> length (cm_cfg m) = CTRL_RETUNE_CFG
     \<and> (cm_cmd m = CTRL_RETUNE \<longrightarrow> cm_arg m = 0)
     \<and> (cm_cmd m \<noteq> CTRL_RETUNE \<longrightarrow> cm_cfg m = replicate 13 0)
     \<and> (cm_cmd m \<noteq> CTRL_BLOCK \<and> cm_cmd m \<noteq> CTRL_UNBLOCK \<longrightarrow> cm_aux m = nid_zero)"

lemma known_cmd_cases:
  assumes "known_cmd cmd"
  obtains (plain) "cmd \<noteq> CTRL_RETUNE" "cmd \<noteq> CTRL_BLOCK" "cmd \<noteq> CTRL_UNBLOCK" "unsigned_len cmd = 23"
  | (block) "cmd \<noteq> CTRL_RETUNE" "cmd = CTRL_BLOCK \<or> cmd = CTRL_UNBLOCK" "unsigned_len cmd = 39"
  | (retune) "cmd = CTRL_RETUNE" "cmd \<noteq> CTRL_BLOCK" "cmd \<noteq> CTRL_UNBLOCK" "unsigned_len cmd = 35"
proof -
  have "CTRL_RETUNE \<noteq> CTRL_BLOCK" "CTRL_RETUNE \<noteq> CTRL_UNBLOCK" by (simp_all add: ctrl_cmds)
  then show thesis using that by (auto simp: unsigned_len_def CTRL_RETUNE_CFG_def)
qed

lemma length_ctrl_wire: "ctrl_msg_ok m \<Longrightarrow> length (ctrl_wire m) = unsigned_len (cm_cmd m)"
  by (auto simp: ctrl_msg_ok_def ctrl_wire_def CTRL_RETUNE_CFG_def elim!: known_cmd_cases)

lemma unsigned_len_bounds: "unsigned_len cmd \<le> 39" "23 \<le> unsigned_len cmd"
  by (auto simp: unsigned_len_def CTRL_RETUNE_CFG_def)

lemma ctrl_fill_wire:
  assumes "ctrl_msg_ok m"
  shows "rd8 (ctrl_wire m @ t) 0 = Some CTRL_VER" "rd8 (ctrl_wire m @ t) 1 = Some (cm_cmd m)"
    and "rd32 (ctrl_wire m @ t) (unsigned_len (cm_cmd m) - 4) = Some (cm_counter m)"
    and "ctrl_fill (cm_cmd m) (cm_counter m) (ctrl_wire m @ t) CtrlMsg_init = Some m"
proof -
  have k: "known_cmd (cm_cmd m)" using assms by (simp add: ctrl_msg_ok_def)
  show "rd8 (ctrl_wire m @ t) 0 = Some CTRL_VER" "rd8 (ctrl_wire m @ t) 1 = Some (cm_cmd m)"
    by (simp_all add: ctrl_wire_def codec_simps)
  have "rd32 (ctrl_wire m @ t) (unsigned_len (cm_cmd m) - 4) = Some (cm_counter m)
    \<and> ctrl_fill (cm_cmd m) (cm_counter m) (ctrl_wire m @ t) CtrlMsg_init = Some m"
    using k
  proof (cases rule: known_cmd_cases)
    case plain
    then show ?thesis using assms
      by (cases m) (auto simp: ctrl_msg_ok_def ctrl_wire_def ctrl_fill_def CtrlMsg_init_def codec_simps)
  next
    case block
    then show ?thesis using assms
      by (cases m) (auto simp: ctrl_msg_ok_def ctrl_wire_def ctrl_fill_def CtrlMsg_init_def codec_simps)
  next
    case retune
    then show ?thesis using assms
      by (cases m) (auto simp: ctrl_msg_ok_def ctrl_wire_def ctrl_fill_def CtrlMsg_init_def CTRL_RETUNE_CFG_def codec_simps)
  qed
  then show "rd32 (ctrl_wire m @ t) (unsigned_len (cm_cmd m) - 4) = Some (cm_counter m)"
    and "ctrl_fill (cm_cmd m) (cm_counter m) (ctrl_wire m @ t) CtrlMsg_init = Some m" by auto
qed

text \<open>The filled structure is the one whose canonical bytes were received.\<close>

lemma ctrl_fill_reencode:
  assumes "unsigned_len cmd + 64 \<le> length msg" "known_cmd cmd" "msg ! 0 = CTRL_VER" "msg ! 1 = cmd"
  obtains c m where "rd32 msg (unsigned_len cmd - 4) = Some c" "ctrl_fill cmd c msg CtrlMsg_init = Some m"
    "ctrl_msg_ok m" "cm_counter m = c" "cm_cmd m = cmd" "ctrl_wire m = take (unsigned_len cmd) msg"
  using assms(2)
proof (cases rule: known_cmd_cases)
  case plain
  let ?c = "mk_u32 (msg ! 19) (msg ! 20) (msg ! 21) (msg ! 22)"
  let ?m = "\<lparr>cm_cmd = cmd, cm_target = nid_read (take 16 (drop 2 msg)), cm_arg = msg ! 18, cm_aux = nid_zero,
     cm_counter = ?c, cm_cfg = replicate 13 0\<rparr>"
  have "take 23 msg = [msg ! 0, msg ! 1] @ take 16 (drop 2 msg) @ [msg ! 18] @ take 4 (drop 19 msg)"
    using assms(1) plain(4) take_split [of 2 23 msg] take_split [of 16 21 "drop 2 msg"] take_split [of 1 5 "drop 18 msg"]
    by (simp add: take_2 take_Suc_conv_app_nth)
  then have "ctrl_wire ?m = take (unsigned_len cmd) msg"
    using assms plain by (simp add: ctrl_wire_def nid_write_def nid_bytes_read take_4)
  then show thesis using assms plain
    by (intro that [of ?c ?m]) (simp_all add: ctrl_fill_def rd_safe CtrlMsg_init_def ctrl_msg_ok_def CTRL_RETUNE_CFG_def)
next
  case block
  let ?c = "mk_u32 (msg ! 35) (msg ! 36) (msg ! 37) (msg ! 38)"
  let ?m = "\<lparr>cm_cmd = cmd, cm_target = nid_read (take 16 (drop 2 msg)), cm_arg = msg ! 18, cm_aux = nid_read (take 16 (drop 19 msg)),
     cm_counter = ?c, cm_cfg = replicate 13 0\<rparr>"
  have "take 39 msg = [msg ! 0, msg ! 1] @ take 16 (drop 2 msg) @ [msg ! 18] @ take 16 (drop 19 msg) @ take 4 (drop 35 msg)"
    using assms(1) block(3) take_split [of 2 39 msg] take_split [of 16 37 "drop 2 msg"] take_split [of 1 21 "drop 18 msg"]
      take_split [of 16 20 "drop 19 msg"]
    by (simp add: take_2 take_Suc_conv_app_nth)
  then have "ctrl_wire ?m = take (unsigned_len cmd) msg"
    using assms block by (simp add: ctrl_wire_def nid_write_def nid_bytes_read take_4)
  then show thesis using assms block
    by (intro that [of ?c ?m]) (auto simp: ctrl_fill_def rd_safe CtrlMsg_init_def ctrl_msg_ok_def CTRL_RETUNE_CFG_def)
next
  case retune
  let ?c = "mk_u32 (msg ! 31) (msg ! 32) (msg ! 33) (msg ! 34)"
  let ?m = "\<lparr>cm_cmd = cmd, cm_target = nid_read (take 16 (drop 2 msg)), cm_arg = 0, cm_aux = nid_zero,
     cm_counter = ?c, cm_cfg = take 13 (drop 18 msg)\<rparr>"
  have "take 35 msg = [msg ! 0, msg ! 1] @ take 16 (drop 2 msg) @ take 13 (drop 18 msg) @ take 4 (drop 31 msg)"
    using assms(1) retune(4) take_split [of 2 35 msg] take_split [of 16 33 "drop 2 msg"] take_split [of 13 17 "drop 18 msg"]
    by (simp add: take_2)
  then have "ctrl_wire ?m = take (unsigned_len cmd) msg"
    using assms retune by (simp add: ctrl_wire_def nid_write_def nid_bytes_read take_4)
  then show thesis using assms retune
    by (intro that [of ?c ?m]) (simp_all add: ctrl_fill_def rd_safe CtrlMsg_init_def ctrl_msg_ok_def CTRL_RETUNE_CFG_def)
qed

text \<open>All outcomes of the verification, with what each one says about the received bytes.\<close>

lemma ctrl_verify_cases:
  obtains (malformed) "ctrl_verify ed_check msg pk lo CtrlMsg_init = Some (CTRL_MALFORMED, CtrlMsg_init)"
  | (bad_sig) "ctrl_verify ed_check msg pk lo CtrlMsg_init = Some (CTRL_BAD_SIG, CtrlMsg_init)"
      "\<not> ed_check (take 64 (drop (unsigned_len (msg ! 1)) msg)) pk (signed_view (take (unsigned_len (msg ! 1)) msg))"
  | (replay) m where "ctrl_verify ed_check msg pk lo CtrlMsg_init = Some (CTRL_REPLAY, CtrlMsg_init)"
      "ctrl_msg_ok m" "msg = ctrl_wire m @ drop (unsigned_len (cm_cmd m)) msg" "cm_counter m \<le> lo"
  | (accept) m where "ctrl_verify ed_check msg pk lo CtrlMsg_init = Some (CTRL_OK, m)"
      "ctrl_msg_ok m" "msg = ctrl_wire m @ drop (unsigned_len (cm_cmd m)) msg" "lo < cm_counter m"
      "ed_check (take 64 (drop (unsigned_len (cm_cmd m)) msg)) pk (signed_view (ctrl_wire m))"
      "unsigned_len (cm_cmd m) + 64 \<le> length msg"
proof (cases "length msg < CTRL_MSG_BYTES \<or> msg ! 0 \<noteq> CTRL_VER \<or> \<not> known_cmd (msg ! 1)
    \<or> length msg < unsigned_len (msg ! 1) + 64")
  case True
  then have "ctrl_verify ed_check msg pk lo CtrlMsg_init = Some (CTRL_MALFORMED, CtrlMsg_init)"
    by (cases "msg = []") (auto simp: ctrl_verify_def rd_safe CTRL_MSG_BYTES_def Let_def)
  then show thesis by (rule malformed)
next
  case False
  define cmd where "cmd = msg ! 1"
  have len: "unsigned_len cmd + 64 \<le> length msg" and k: "known_cmd cmd" "msg ! 0 = CTRL_VER" using False by (auto simp: cmd_def)
  obtain c m where r: "rd32 msg (unsigned_len cmd - 4) = Some c" and f: "ctrl_fill cmd c msg CtrlMsg_init = Some m"
    and m: "ctrl_msg_ok m" "cm_counter m = c" "cm_cmd m = cmd" "ctrl_wire m = take (unsigned_len cmd) msg"
    using ctrl_fill_reencode [OF len k(1,2) cmd_def [symmetric]] .
  let ?good = "ed_check (take 64 (drop (unsigned_len cmd) msg)) pk (signed_view (take (unsigned_len cmd) msg))"
  have "rdn msg 0 (unsigned_len cmd) = Some (take (unsigned_len cmd) msg)"
    "rdn msg (unsigned_len cmd) 64 = Some (take 64 (drop (unsigned_len cmd) msg))" using len by (simp_all add: rd_safe)
  moreover have "rd8 msg 0 = Some (msg ! 0)" "rd8 msg 1 = Some cmd" "\<not> length msg < CTRL_MSG_BYTES"
    using len False unsigned_len_bounds(2) [of cmd] by (auto simp: rd8_def cmd_def)
  ultimately have v: "ctrl_verify ed_check msg pk lo CtrlMsg_init =
      (if \<not> ?good then Some (CTRL_BAD_SIG, CtrlMsg_init) else if c \<le> lo then Some (CTRL_REPLAY, CtrlMsg_init) else Some (CTRL_OK, m))"
    using len k r f by (simp add: ctrl_verify_def Let_def)
  have msg: "msg = ctrl_wire m @ drop (unsigned_len (cm_cmd m)) msg" by (simp add: m)
  show thesis
  proof (cases ?good)
    case False
    then show thesis using v by (intro bad_sig) (simp_all add: cmd_def)
  next
    case good: True
    show thesis
    proof (cases "c \<le> lo")
      case True
      then show thesis using v good m msg by (intro replay [of m]) simp_all
    next
      case False
      then show thesis using v good m msg len by (intro accept [of m]) simp_all
    qed
  qed
qed

lemma ctrl_verify_wire:
  assumes "ctrl_msg_ok m" "length sig = 64" "ed_check sig pk (signed_view (ctrl_wire m))"
  shows "ctrl_verify ed_check (ctrl_wire m @ sig @ t) pk lo CtrlMsg_init =
     Some (if cm_counter m \<le> lo then (CTRL_REPLAY, CtrlMsg_init) else (CTRL_OK, m))"
proof -
  note w = ctrl_fill_wire [OF assms(1), of "sig @ t"]
  let ?u = "unsigned_len (cm_cmd m)"
  have len: "length (ctrl_wire m) = ?u" using assms(1) by (rule length_ctrl_wire)
  have "rdn (ctrl_wire m @ sig @ t) 0 ?u = Some (ctrl_wire m)" "rdn (ctrl_wire m @ sig @ t) ?u 64 = Some sig"
    using len assms(2) by (simp_all add: codec_simps)
  moreover have "known_cmd (cm_cmd m)" using assms(1) by (simp add: ctrl_msg_ok_def)
  moreover have "\<not> length (ctrl_wire m @ sig @ t) < CTRL_MSG_BYTES" "\<not> length (ctrl_wire m @ sig @ t) < ?u + 64"
    using len assms(2) unsigned_len_bounds(2) [of "cm_cmd m"] by (simp_all add: CTRL_MSG_BYTES_def)
  ultimately show ?thesis using w assms(3) by (simp add: ctrl_verify_def Let_def)
qed

lemma ctrl_wire_inj: "ctrl_msg_ok m \<Longrightarrow> ctrl_msg_ok m' \<Longrightarrow> ctrl_wire m @ t = ctrl_wire m' @ t' \<Longrightarrow> m = m'"
  using ctrl_fill_wire [of m t] ctrl_fill_wire [of m' t'] by simp

lemma signed_view_inj: "signed_view u = signed_view u' \<longleftrightarrow> u = u'"
  by (simp add: signed_view_def)

lemma signed_view_domain: "signed_view u \<noteq> ann_view p b"
  by (simp add: signed_view_def DOMAIN_def ann_view_def ANN_DOMAIN_def)

lemma ack_flag:
  fixes cmd :: u8
  shows "(cmd OR 0x80) AND 0x80 \<noteq> 0" and "cmd AND 0x80 = 0 \<Longrightarrow> (cmd OR 0x80) AND 0x7F = cmd"
proof -
  have b: "bit (0x80 :: u8) n \<longleftrightarrow> n = 7" for n using bit_exp_iff [where 'a = u8, of 7 n] by (auto simp: possible_bit_word)
  have "bit ((cmd OR 0x80) AND 0x80) 7" by (simp add: bit_simps b)
  then show "(cmd OR 0x80) AND 0x80 \<noteq> 0" by (metis bit_0_eq bot_fun_def bot_bool_def)
  have m: "(0x7F :: u8) = mask 7" by (simp add: mask_eq_exp_minus_1)
  assume "cmd AND 0x80 = 0"
  then have "\<not> bit cmd 7" using b [of 7] by (metis bit_and_iff bit_0_eq bot_fun_def bot_bool_def)
  then show "(cmd OR 0x80) AND 0x7F = cmd" unfolding m
    by (intro bit_word_eqI) (auto simp: bit_simps b less_Suc_eq numeral_eq_Suc)
qed

lemma ctrl_parse_ack_total: "ctrl_parse_ack msg \<noteq> None"
  by (auto simp: ctrl_parse_ack_def ctrl_is_ack_def CTRL_ACK_BYTES_def rd_safe)

text \<open>C27. Only what the controller signed is applied. Verification never reads outside the payload and touches its
  result only on success. A command it accepts is exactly the one whose bytes carry the valid signature, every
  field of it included, and its counter is above the replay floor. Two different commands never share the signed
  bytes, and no control signature is over the bytes of an announce identity.\<close>

theorem ctrl_authentic:
  "(\<exists>v r. ctrl_verify ed_check msg pk lo CtrlMsg_init = Some (v, r) \<and> (v \<noteq> CTRL_OK \<longrightarrow> r = CtrlMsg_init))
   \<and> (ctrl_verify ed_check msg pk lo CtrlMsg_init = Some (CTRL_OK, m) \<longrightarrow>
        ctrl_msg_ok m \<and> lo < cm_counter m \<and>
        (\<exists>sig rest. msg = ctrl_wire m @ sig @ rest \<and> length sig = 64 \<and> ed_check sig pk (signed_view (ctrl_wire m))))
   \<and> (ctrl_msg_ok m \<and> ctrl_msg_ok m' \<and> signed_view (ctrl_wire m) = signed_view (ctrl_wire m') \<longrightarrow> m = m')
   \<and> signed_view u \<noteq> ann_view p b"
proof (intro conjI)
  show "\<exists>v r. ctrl_verify ed_check msg pk lo CtrlMsg_init = Some (v, r) \<and> (v \<noteq> CTRL_OK \<longrightarrow> r = CtrlMsg_init)"
    by (cases rule: ctrl_verify_cases [of ed_check msg pk lo]) auto
  show "ctrl_verify ed_check msg pk lo CtrlMsg_init = Some (CTRL_OK, m) \<longrightarrow>
        ctrl_msg_ok m \<and> lo < cm_counter m \<and>
        (\<exists>sig rest. msg = ctrl_wire m @ sig @ rest \<and> length sig = 64 \<and> ed_check sig pk (signed_view (ctrl_wire m)))"
  proof (cases rule: ctrl_verify_cases [of ed_check msg pk lo])
    case (accept k)
    let ?d = "drop (unsigned_len (cm_cmd k)) msg"
    have "msg = ctrl_wire k @ take 64 ?d @ drop 64 ?d" "length (take 64 ?d) = 64"
      using accept(3,6) unfolding append_take_drop_id by simp_all
    with accept show ?thesis by (metis Pair_inject option.inject)
  qed simp_all
  show "ctrl_msg_ok m \<and> ctrl_msg_ok m' \<and> signed_view (ctrl_wire m) = signed_view (ctrl_wire m') \<longrightarrow> m = m'"
    using ctrl_wire_inj [of m m' "[]" "[]"] by (simp add: signed_view_inj)
qed (rule signed_view_domain)

text \<open>A stand-in for the signature scheme, for concrete runs: the signature is the key and message truncated.\<close>

definition toy_sign :: "bytes \<Rightarrow> bytes \<Rightarrow> bytes" where
  "toy_sign sk m = take 64 (sk @ m @ replicate 64 0)"

definition toy_check :: "bytes \<Rightarrow> bytes \<Rightarrow> bytes \<Rightarrow> bool" where
  "toy_check sig pk m \<longleftrightarrow> sig = toy_sign pk m"

lemma toy_sign_ok: "length (toy_sign sk m) = 64" "toy_check (toy_sign sk m) sk m"
  by (simp_all add: toy_sign_def toy_check_def)

theorem ctrl_authentic_witness:
  "\<exists>m. ctrl_verify toy_check (the (ctrl_build toy_sign CTRL_POWER (nid_from_u32 7) 10 5 [1] 87)) [1] 4 CtrlMsg_init = Some (CTRL_OK, m)
     \<and> ctrl_msg_ok m \<and> 4 < cm_counter m"
proof -
  let ?m = "\<lparr>cm_cmd = CTRL_POWER, cm_target = nid_from_u32 7, cm_arg = 10, cm_aux = nid_zero, cm_counter = 5, cm_cfg = replicate 13 0\<rparr>"
  have "ctrl_verify toy_check (the (ctrl_build toy_sign CTRL_POWER (nid_from_u32 7) 10 5 [1] 87)) [1] 4 CtrlMsg_init = Some (CTRL_OK, ?m)"
    by code_simp
  with ctrl_authentic [of toy_check _ "[1]" 4 ?m] show ?thesis by blast
qed

text \<open>C28. The controller is heard. For a signature scheme whose signatures verify, every command the builders
  produce is accepted by a node whose replay floor is below its counter, with exactly the fields it was built from,
  and refused as a replay otherwise. Acknowledgements parse back to what was reported, and a command is never taken
  for one.\<close>

theorem ctrl_build_accepted:
  assumes "\<And>m. length (ed_sign sk m) = 64" and "\<And>m. ed_check (ed_sign sk m) pk m"
  shows "(ctrl_build ed_sign cmd target arg counter sk cap = Some bs \<longrightarrow> length bs = CTRL_MSG_BYTES \<and> length bs \<le> cap \<and> \<not> ctrl_is_ack bs
      \<and> ctrl_verify ed_check bs pk lo CtrlMsg_init = Some (if counter \<le> lo then (CTRL_REPLAY, CtrlMsg_init) else (CTRL_OK,
          \<lparr>cm_cmd = cmd, cm_target = target, cm_arg = arg, cm_aux = nid_zero, cm_counter = counter, cm_cfg = replicate 13 0\<rparr>)))
   \<and> (ctrl_build_block ed_sign cmd target victim arg counter sk cap = Some bs \<longrightarrow> length bs = CTRL_BLK_BYTES \<and> length bs \<le> cap \<and> \<not> ctrl_is_ack bs
      \<and> ctrl_verify ed_check bs pk lo CtrlMsg_init = Some (if counter \<le> lo then (CTRL_REPLAY, CtrlMsg_init) else (CTRL_OK,
          \<lparr>cm_cmd = cmd, cm_target = target, cm_arg = arg, cm_aux = victim, cm_counter = counter, cm_cfg = replicate 13 0\<rparr>)))
   \<and> (ctrl_build_retune ed_sign target cfg counter sk cap = Some bs \<and> length cfg = CTRL_RETUNE_CFG \<longrightarrow>
      length bs = CTRL_RTN_BYTES \<and> length bs \<le> cap \<and> \<not> ctrl_is_ack bs
      \<and> ctrl_verify ed_check bs pk lo CtrlMsg_init = Some (if counter \<le> lo then (CTRL_REPLAY, CtrlMsg_init) else (CTRL_OK,
          \<lparr>cm_cmd = CTRL_RETUNE, cm_target = target, cm_arg = 0, cm_aux = nid_zero, cm_counter = counter, cm_cfg = cfg\<rparr>)))
   \<and> (ctrl_build_ack cmd origin applied prov counter cap = Some bs \<and> cmd AND 0x80 = 0 \<longrightarrow>
      ctrl_parse_ack (bs @ tail) = Some (Some \<lparr>ca_cmd = cmd, ca_origin = origin, ca_applied = applied, ca_provisional = prov, ca_counter = counter\<rparr>))
   \<and> ctrl_parse_ack msg \<noteq> None"
proof (intro conjI impI)
  have not_ack: "\<not> ctrl_is_ack (ctrl_wire m @ t)" if "ctrl_msg_ok m" for m t
    using that by (auto simp: ctrl_msg_ok_def known_cmd_def ctrl_cmds ctrl_is_ack_def ctrl_wire_def)
  have v: "ctrl_verify ed_check (ctrl_wire m @ ed_sign sk (signed_view (ctrl_wire m))) pk lo CtrlMsg_init =
      Some (if cm_counter m \<le> lo then (CTRL_REPLAY, CtrlMsg_init) else (CTRL_OK, m))" if "ctrl_msg_ok m" for m
    using ctrl_verify_wire [OF that assms(1), where t = "[]"] assms(2) by simp
  let ?p = "\<lparr>cm_cmd = cmd, cm_target = target, cm_arg = arg, cm_aux = nid_zero, cm_counter = counter, cm_cfg = replicate 13 0\<rparr>"
  { assume b: "ctrl_build ed_sign cmd target arg counter sk cap = Some bs"
    then have bs: "bs = ctrl_wire ?p @ ed_sign sk (signed_view (ctrl_wire ?p))" and cap: "CTRL_MSG_BYTES \<le> cap" and ok: "ctrl_msg_ok ?p"
      and l: "unsigned_len cmd = 23"
      by (auto simp: ctrl_build_def Let_def ctrl_wire_def ctrl_msg_ok_def known_cmd_def unsigned_len_def ctrl_cmds ctrl_sizes split: if_splits)
    show "length bs = CTRL_MSG_BYTES" "length bs \<le> cap" using cap l assms(1) length_ctrl_wire [OF ok] by (simp_all add: bs CTRL_MSG_BYTES_def)
    show "\<not> ctrl_is_ack bs" unfolding bs by (rule not_ack [OF ok])
    show "ctrl_verify ed_check bs pk lo CtrlMsg_init = Some (if counter \<le> lo then (CTRL_REPLAY, CtrlMsg_init) else (CTRL_OK, ?p))"
      unfolding bs using v [OF ok] by simp }
  let ?b = "\<lparr>cm_cmd = cmd, cm_target = target, cm_arg = arg, cm_aux = victim, cm_counter = counter, cm_cfg = replicate 13 0\<rparr>"
  { assume b: "ctrl_build_block ed_sign cmd target victim arg counter sk cap = Some bs"
    then have bs: "bs = ctrl_wire ?b @ ed_sign sk (signed_view (ctrl_wire ?b))" and cap: "CTRL_BLK_BYTES \<le> cap" and ok: "ctrl_msg_ok ?b"
      and l: "unsigned_len cmd = 39"
      by (auto simp: ctrl_build_block_def Let_def ctrl_wire_def ctrl_msg_ok_def known_cmd_def unsigned_len_def ctrl_cmds ctrl_sizes split: if_splits)
    show "length bs = CTRL_BLK_BYTES" "length bs \<le> cap" using cap l assms(1) length_ctrl_wire [OF ok] by (simp_all add: bs CTRL_BLK_BYTES_def)
    show "\<not> ctrl_is_ack bs" unfolding bs by (rule not_ack [OF ok])
    show "ctrl_verify ed_check bs pk lo CtrlMsg_init = Some (if counter \<le> lo then (CTRL_REPLAY, CtrlMsg_init) else (CTRL_OK, ?b))"
      unfolding bs using v [OF ok] by simp }
  let ?r = "\<lparr>cm_cmd = CTRL_RETUNE, cm_target = target, cm_arg = 0, cm_aux = nid_zero, cm_counter = counter, cm_cfg = cfg\<rparr>"
  { assume b: "ctrl_build_retune ed_sign target cfg counter sk cap = Some bs \<and> length cfg = CTRL_RETUNE_CFG"
    then have bs: "bs = ctrl_wire ?r @ ed_sign sk (signed_view (ctrl_wire ?r))" and cap: "CTRL_RTN_BYTES \<le> cap" and ok: "ctrl_msg_ok ?r"
      and l: "unsigned_len CTRL_RETUNE = 35"
      by (auto simp: ctrl_build_retune_def Let_def ctrl_wire_def ctrl_msg_ok_def known_cmd_def unsigned_len_def ctrl_cmds ctrl_sizes split: if_splits)
    show "length bs = CTRL_RTN_BYTES" "length bs \<le> cap" using cap l assms(1) length_ctrl_wire [OF ok] by (simp_all add: bs ctrl_sizes)
    show "\<not> ctrl_is_ack bs" unfolding bs by (rule not_ack [OF ok])
    show "ctrl_verify ed_check bs pk lo CtrlMsg_init = Some (if counter \<le> lo then (CTRL_REPLAY, CtrlMsg_init) else (CTRL_OK, ?r))"
      unfolding bs using v [OF ok] by simp }
  show "ctrl_parse_ack (bs @ tail) = Some (Some \<lparr>ca_cmd = cmd, ca_origin = origin, ca_applied = applied, ca_provisional = prov, ca_counter = counter\<rparr>)"
    if "ctrl_build_ack cmd origin applied prov counter cap = Some bs \<and> cmd AND 0x80 = 0"
    using that ack_flag [of cmd] by (auto simp: ctrl_build_ack_def ctrl_parse_ack_def ctrl_is_ack_def CTRL_ACK_BYTES_def codec_simps split: if_splits)
  show "ctrl_parse_ack msg \<noteq> None" by (rule ctrl_parse_ack_total)
qed

theorem ctrl_build_accepted_witness:
  "ctrl_verify toy_check (the (ctrl_build_block toy_sign CTRL_BLOCK (nid_from_u32 7) (nid_from_u32 9) 30 5 [1] 200)) [1] 4 CtrlMsg_init
    = Some (CTRL_OK, \<lparr>cm_cmd = CTRL_BLOCK, cm_target = nid_from_u32 7, cm_arg = 30, cm_aux = nid_from_u32 9, cm_counter = 5, cm_cfg = replicate 13 0\<rparr>)"
proof -
  obtain bs where bs: "ctrl_build_block toy_sign CTRL_BLOCK (nid_from_u32 7) (nid_from_u32 9) 30 5 [1] 200 = Some bs"
  proof -
    have "ctrl_build_block toy_sign CTRL_BLOCK (nid_from_u32 7) (nid_from_u32 9) 30 5 [1] 200 \<noteq> None" by code_simp
    then show thesis using that by blast
  qed
  with ctrl_build_accepted [of toy_sign "[1]" toy_check "[1]", OF toy_sign_ok] show ?thesis by simp
qed

end
