(* ===== verification/Tx_Queue.thy ===== *)
theory Tx_Queue
  imports Radio_Hal
begin

text \<open>
  The outbound path of \<^verbatim>\<open>src/main.cpp\<close>: the transmit queue \<^verbatim>\<open>txq\<close>, a ring of six frames, and the pump that hands
  its head to the radio. A ring buffer seen from its head is a bounded first-in-first-out list, \<open>ring_list\<close>; the
  locale \<open>bounded_fifo\<close> is the contract of such a queue, interpreted here on the transmit queue.
\<close>

section \<open>Ring buffers as lists\<close>

definition ring_list :: "'a list \<Rightarrow> nat \<Rightarrow> nat \<Rightarrow> 'a list" where
  "ring_list slots head count = map (\<lambda>k. slots ! ((head + k) mod length slots)) [0..<count]"

lemma length_ring_list [simp]: "length (ring_list slots head count) = count"
  by (simp add: ring_list_def)

lemma ring_list_push:
  assumes "count < length slots"
  shows "ring_list (slots[(head + count) mod length slots := x]) head (Suc count) = ring_list slots head count @ [x]"
proof -
  let ?n = "length slots"
  have "slots[(head + count) mod ?n := x] ! ((head + k) mod ?n) = slots ! ((head + k) mod ?n)" if "k < count" for k
    using mod_shift_inj [of head k ?n count] that assms by (intro nth_list_update_neq) auto
  moreover have "slots[(head + count) mod ?n := x] ! ((head + count) mod ?n) = x"
    using assms by (intro nth_list_update_eq mod_less_divisor) auto
  ultimately show ?thesis by (simp add: ring_list_def)
qed

lemma ring_list_pop:
  assumes "0 < count"
  shows "ring_list slots ((head + 1) mod length slots) (count - 1) = tl (ring_list slots head count)"
proof (rule nth_equalityI)
  fix i assume "i < length (ring_list slots ((head + 1) mod length slots) (count - 1))"
  then have "Suc i < count" "i < count - Suc 0" by simp_all
  then show "ring_list slots ((head + 1) mod length slots) (count - 1) ! i = tl (ring_list slots head count) ! i"
    by (simp add: ring_list_def nth_tl mod_simps)
qed simp

lemma ring_list_hd: "0 < count \<Longrightarrow> hd (ring_list slots head count) = slots ! (head mod length slots)"
  by (simp add: ring_list_def hd_map upt_conv_Cons)

section \<open>The contract of a bounded queue\<close>

locale bounded_fifo =
  fixes contents :: "'q \<Rightarrow> 'a list" and ok :: "'q \<Rightarrow> bool" and cap :: nat and fits :: "'a \<Rightarrow> bool"
    and push :: "'a \<Rightarrow> 'q \<Rightarrow> bool \<times> 'q" and pop :: "'q \<Rightarrow> 'q"
  assumes push_accepts: "ok q \<Longrightarrow> fst (push x q) \<longleftrightarrow> length (contents q) < cap \<and> fits x"
    and push_contents: "ok q \<Longrightarrow> contents (snd (push x q)) = (if fst (push x q) then contents q @ [x] else contents q)"
    and push_ok: "ok q \<Longrightarrow> ok (snd (push x q))"
    and pop_contents: "ok q \<Longrightarrow> contents q \<noteq> [] \<Longrightarrow> contents (pop q) = tl (contents q)"
    and pop_ok: "ok q \<Longrightarrow> contents q \<noteq> [] \<Longrightarrow> ok (pop q)"
    and bounded: "ok q \<Longrightarrow> length (contents q) \<le> cap"
begin

text \<open>What was inside, followed by what is accepted, is what has left followed by what is inside.\<close>

lemma push_all:
  "ok q \<Longrightarrow> ok (foldl (\<lambda>q x. snd (push x q)) q xs) \<and>
     contents (foldl (\<lambda>q x. snd (push x q)) q xs) = contents q @ take (cap - length (contents q)) (filter fits xs)"
proof (induction xs arbitrary: q)
  case (Cons x xs)
  note q = push_ok [OF Cons.prems, of x] push_contents [OF Cons.prems, of x] push_accepts [OF Cons.prems, of x]
  show ?case using Cons.IH [OF q(1)] q(2,3) bounded [OF Cons.prems]
    by (cases "fits x"; cases "length (contents q) < cap") (auto simp: take_Cons' Suc_diff_Suc)
qed simp

end

section \<open>The transmit queue\<close>

definition TXQ_DEPTH :: nat where "TXQ_DEPTH = 6"
definition TX_FRAME_MAX :: nat where "TX_FRAME_MAX = 1 + 255"

record tx_queue =
  txq_slots :: "bytes list"
  txq_head :: nat
  txq_tail :: nat
  txq_count :: nat

definition TxQueue_init :: tx_queue where
  "TxQueue_init = \<lparr>txq_slots = replicate TXQ_DEPTH [], txq_head = 0, txq_tail = 0, txq_count = 0\<rparr>"

definition txq_push :: "bytes \<Rightarrow> tx_queue \<Rightarrow> bool \<times> tx_queue" where
  "txq_push frame q =
     (if TXQ_DEPTH \<le> txq_count q \<or> TX_FRAME_MAX < length frame then (False, q)
      else (True, q\<lparr>txq_slots := (txq_slots q)[txq_tail q := frame], txq_tail := (txq_tail q + 1) mod TXQ_DEPTH,
                    txq_count := txq_count q + 1\<rparr>))"

definition txq_pop :: "tx_queue \<Rightarrow> tx_queue" where
  "txq_pop q = q\<lparr>txq_head := (txq_head q + 1) mod TXQ_DEPTH, txq_count := txq_count q - 1\<rparr>"

definition txq_pump :: "radio_env \<Rightarrow> tx_queue \<Rightarrow> radio_hal \<Rightarrow> tx_queue \<times> radio_hal \<times> tx_call list" where
  "txq_pump e q h =
     (if txq_count q = 0 \<or> hal_busy h then (q, h, [])
      else let (sent, h', air) = hal_send e (txq_slots q ! txq_head q) h
           in (if sent then txq_pop q else q, h', air))"

definition txq_contents :: "tx_queue \<Rightarrow> bytes list" where
  "txq_contents q = ring_list (txq_slots q) (txq_head q) (txq_count q)"

definition txq_ok :: "tx_queue \<Rightarrow> bool" where
  "txq_ok q \<longleftrightarrow> length (txq_slots q) = TXQ_DEPTH \<and> txq_head q < TXQ_DEPTH \<and> txq_count q \<le> TXQ_DEPTH
     \<and> txq_tail q = (txq_head q + txq_count q) mod TXQ_DEPTH"

lemma txq_ok_init: "txq_ok TxQueue_init" "txq_contents TxQueue_init = []"
  by (simp_all add: txq_ok_def TxQueue_init_def TXQ_DEPTH_def txq_contents_def ring_list_def)

lemma txq_head_frame: "txq_ok q \<Longrightarrow> 0 < txq_count q \<Longrightarrow> txq_slots q ! txq_head q = hd (txq_contents q)"
  by (simp add: txq_contents_def ring_list_hd txq_ok_def)

interpretation txq: bounded_fifo txq_contents txq_ok TXQ_DEPTH "\<lambda>f. length f \<le> TX_FRAME_MAX" txq_push txq_pop
proof
  fix q :: tx_queue and x :: bytes
  assume ok: "txq_ok q"
  show acc: "fst (txq_push x q) \<longleftrightarrow> length (txq_contents q) < TXQ_DEPTH \<and> length x \<le> TX_FRAME_MAX"
    by (auto simp: txq_push_def txq_contents_def)
  show "txq_contents (snd (txq_push x q)) = (if fst (txq_push x q) then txq_contents q @ [x] else txq_contents q)"
    using ok ring_list_push [of "txq_count q" "txq_slots q" "txq_head q" x]
    by (auto simp: txq_push_def txq_contents_def txq_ok_def)
  show "txq_ok (snd (txq_push x q))" using ok by (auto simp: txq_push_def txq_ok_def TXQ_DEPTH_def mod_simps)
  show "length (txq_contents q) \<le> TXQ_DEPTH" using ok by (simp add: txq_contents_def txq_ok_def)
next
  fix q :: tx_queue
  assume ok: "txq_ok q" and ne: "txq_contents q \<noteq> []"
  then have c: "0 < txq_count q" by (auto simp: txq_contents_def ring_list_def)
  show "txq_contents (txq_pop q) = tl (txq_contents q)"
    using ring_list_pop [OF c, of "txq_slots q" "txq_head q"] ok by (simp add: txq_pop_def txq_contents_def txq_ok_def)
  obtain m where "txq_count q = Suc m" using c by (cases "txq_count q") auto
  then show "txq_ok (txq_pop q)" using ok by (auto simp: txq_pop_def txq_ok_def TXQ_DEPTH_def mod_simps)
qed

section \<open>The transmit path\<close>

text \<open>Queue and radio together, under every event that reaches them: frames enqueued by the protocol, the pump and the
  poll of the main loop, interrupts, reconfigurations. A step returns its calls of \<^verbatim>\<open>startTransmit\<close> and the frames the queue
  accepted.\<close>

datatype tx_event = Enqueue bytes | Pump radio_env | Tx_irq | Tx_poll radio_env | Tx_apply bool radio_cfg | Tx_cad bool

fun tx_step :: "tx_event \<Rightarrow> tx_queue \<times> radio_hal \<Rightarrow> (tx_queue \<times> radio_hal) \<times> tx_call list \<times> bytes list" where
  "tx_step (Enqueue f) (q, h) = ((snd (txq_push f q), h), [], if fst (txq_push f q) then [f] else [])"
| "tx_step (Pump e) (q, h) = (let (q', h', air) = txq_pump e q h in ((q', h'), air, []))"
| "tx_step Tx_irq (q, h) = ((q, isr h), [], [])"
| "tx_step (Tx_poll e) (q, h) = (let (h', air, f) = hal_poll e h in ((q, if f = None then h' else arm_rx h'), air, []))"
| "tx_step (Tx_apply ok c) (q, h) = ((q, snd (apply_config ok c h)), [], [])"
| "tx_step (Tx_cad on) (q, h) = ((q, set_cad on h), [], [])"

fun tx_run :: "tx_event list \<Rightarrow> tx_queue \<times> radio_hal \<Rightarrow> (tx_queue \<times> radio_hal) \<times> tx_call list \<times> bytes list" where
  "tx_run [] s = (s, [], [])"
| "tx_run (ev # evs) s =
     (let (s', air, acc) = tx_step ev s; (s'', air', acc') = tx_run evs s' in (s'', air @ air', acc @ acc'))"

definition inflight :: "radio_hal \<Rightarrow> bytes list" where
  "inflight h = (if hs_pend h = [] then [] else [hs_pend h])"

definition hal_wf :: "radio_hal \<Rightarrow> bool" where
  "hal_wf h \<longleftrightarrow> (hs_state h = TX \<longrightarrow> hs_pend h = []) \<and> (hs_state h = CAD \<longrightarrow> hs_pend h \<noteq> [])"

lemma arm_rx_conserves [simp]: "hal_wf (arm_rx h)" "inflight (arm_rx h) = inflight h"
  by (simp_all add: arm_rx_def hal_wf_def inflight_def)

lemma start_pending_tx_conserves:
  "hs_pend h \<noteq> [] \<Longrightarrow> hal_wf (fst (start_pending_tx e h)) \<and> map fst (snd (start_pending_tx e h)) @ inflight (fst (start_pending_tx e h)) = inflight h"
  by (simp add: start_pending_tx_def hal_wf_def inflight_def arm_rx_def Let_def)

lemma start_cad_conserves:
  "hs_pend h \<noteq> [] \<Longrightarrow> hal_wf (fst (start_cad e h)) \<and> map fst (snd (start_cad e h)) @ inflight (fst (start_cad e h)) = inflight h"
  using start_pending_tx_conserves [of "h\<lparr>hs_state := CAD\<rparr>" e]
  by (auto simp: start_cad_def hal_wf_def inflight_def Let_def)

lemma cad_verdict_conserves:
  "hs_pend h \<noteq> [] \<Longrightarrow> hal_wf (fst (cad_verdict e h)) \<and> map fst (snd (cad_verdict e h)) @ inflight (fst (cad_verdict e h)) = inflight h"
  by (auto simp: cad_verdict_def start_pending_tx_def hal_wf_def inflight_def arm_rx_def Let_def)

lemma hal_poll_conserves:
  assumes "hal_wf h" and "hal_poll e h = (h', air, rx)"
  shows "hal_wf h' \<and> map fst air @ inflight h' = inflight h"
proof -
  define h1 where "h1 = (if hs_state h = RX \<and> hs_pend h \<noteq> [] \<and> \<not> hs_dio1 h \<and> \<not> before32 (re_now e) (hs_next_cad_ms h)
                then start_cad e h else (h, []))"
  define h2 where "h2 = (if re_irq e then isr (fst h1) else fst h1)"
  have 1: "hal_wf h2 \<and> map fst (snd h1) @ inflight h2 = inflight h"
    using start_cad_conserves [of h e] assms(1) by (auto simp: h1_def h2_def isr_def hal_wf_def inflight_def split: if_splits)
  let ?h = "h2\<lparr>hs_dio1 := False\<rparr>"
  have r: "(h', air) = (if \<not> hs_dio1 h2 then (h2, snd h1) else
      case hs_state h2 of
        TX \<Rightarrow> (arm_rx (?h\<lparr>hs_tx_count := hs_tx_count h2 + 1\<rparr>), snd h1)
      | CAD \<Rightarrow> (fst (cad_verdict e ?h), snd h1 @ snd (cad_verdict e ?h))
      | RX \<Rightarrow> (fst (rx_done e ?h), snd h1))"
    using assms(2) by (simp add: hal_poll_def h1_def [symmetric] h2_def [symmetric] case_prod_unfold Let_def split: hal_state.splits if_splits)
  show ?thesis
  proof (cases "hs_dio1 h2 \<and> hs_state h2 = CAD")
    case True
    then have "hs_pend ?h \<noteq> []" using 1 by (simp add: hal_wf_def)
    from cad_verdict_conserves [OF this, of e] have "hal_wf h'" "map fst (snd (cad_verdict e ?h)) @ inflight h' = inflight ?h" using r True by simp_all
    moreover have "inflight ?h = inflight h2" by (simp add: inflight_def)
    ultimately show ?thesis using 1 r True by simp
  next
    case False
    then show ?thesis using 1 r
      by (auto simp: arm_rx_def rx_done_def hal_wf_def inflight_def split: hal_state.splits if_splits option.splits)
  qed
qed

lemma txq_pump_conserves:
  assumes "txq_ok q" "hal_wf h" "[] \<notin> set (txq_contents q)" "txq_pump e q h = (q', h', air)"
  shows "txq_ok q' \<and> hal_wf h' \<and> [] \<notin> set (txq_contents q') \<and> map fst air @ inflight h' @ txq_contents q' = inflight h @ txq_contents q"
proof (cases "txq_count q = 0 \<or> hal_busy h")
  case True
  then show ?thesis using assms by (auto simp: txq_pump_def)
next
  case False
  let ?f = "txq_slots q ! txq_head q"
  have ne: "txq_contents q \<noteq> []" using False by (auto simp: txq_contents_def ring_list_def)
  have f: "txq_contents q = ?f # tl (txq_contents q)" using ne txq_head_frame [OF assms(1)] False by simp
  then have "?f \<noteq> []" using assms(3) by (metis list.set_intros(1))
  obtain sent where s: "hal_send e ?f h = (sent, h', air)" and q': "q' = (if sent then txq_pop q else q)"
    using assms(4) False by (auto simp: txq_pump_def split: prod.splits)
  show ?thesis
  proof (cases sent)
    case True
    let ?h = "h\<lparr>hs_pend := ?f, hs_cad_tries := 0\<rparr>"
    have "(h', air) = (if hs_cad_enabled ?h then start_cad e ?h else start_pending_tx e ?h)"
      using s True by (auto simp: hal_send_def Let_def split: if_splits)
    then have "hal_wf h' \<and> map fst air @ inflight h' = inflight ?h"
      using start_cad_conserves [of ?h e] start_pending_tx_conserves [of ?h e] \<open>?f \<noteq> []\<close>
      by (cases "start_cad e ?h"; cases "start_pending_tx e ?h") (simp split: if_splits)
    moreover have "inflight ?h = [?f]" using \<open>?f \<noteq> []\<close> by (simp add: inflight_def)
    moreover have "inflight h = []" using False by (simp add: hal_busy_def inflight_def)
    moreover have "txq_contents q' = tl (txq_contents q)" "txq_ok q'"
      using True q' txq.pop_contents [OF assms(1) ne] txq.pop_ok [OF assms(1) ne] by simp_all
    moreover have "[] \<notin> set (tl (txq_contents q))" using assms(3) list.set_sel(2) [OF ne] by blast
    ultimately show ?thesis using f by (metis append.assoc append_Cons append_Nil)
  next
    case False
    then have "h' = h" "air = []" using s by (auto simp: hal_send_def Let_def split: if_splits)
    with False q' assms show ?thesis by simp
  qed
qed

lemma tx_step_conserves:
  assumes "txq_ok q" "hal_wf h" "[] \<notin> set (txq_contents q)" "\<forall>f. ev = Enqueue f \<longrightarrow> f \<noteq> []" "tx_step ev (q, h) = ((q', h'), air, acc)"
  shows "txq_ok q' \<and> hal_wf h' \<and> [] \<notin> set (txq_contents q') \<and>
     map fst air @ inflight h' @ txq_contents q' = inflight h @ txq_contents q @ acc"
proof (cases ev)
  case (Enqueue f)
  then show ?thesis using assms txq.push_contents [OF assms(1), of f] txq.push_ok [OF assms(1), of f] by auto
next
  case (Pump e)
  then show ?thesis using assms txq_pump_conserves [OF assms(1-3), of e] by (auto split: prod.splits)
next
  case (Tx_poll e)
  then show ?thesis using assms hal_poll_conserves [OF assms(2), of e] by (auto split: prod.splits)
next
  case (Tx_apply ok c)
  then show ?thesis using assms by (cases ok) (auto simp: apply_config_def arm_rx_def hal_wf_def inflight_def)
qed (use assms in \<open>auto simp: isr_def set_cad_def hal_wf_def inflight_def\<close>)

text \<open>A call of \<^verbatim>\<open>startTransmit\<close> reports what the chip answered in its step.\<close>

lemma hal_calls_ok:
  "set (snd (start_cad e h)) \<union> set (snd (cad_verdict e h)) \<union> set (snd (start_pending_tx e h)) \<subseteq> {c. snd c = re_tx_ok e}"
  by (auto simp: start_cad_def cad_verdict_def start_pending_tx_def Let_def)

lemma tx_step_calls:
  assumes "tx_step ev (q, h) = (s, air, acc)" "c \<in> set air"
  shows "\<exists>e. (ev = Pump e \<or> ev = Tx_poll e) \<and> snd c = re_tx_ok e"
proof (cases ev)
  case (Pump e)
  then show ?thesis using assms hal_calls_ok [of e "h\<lparr>hs_pend := txq_slots q ! txq_head q, hs_cad_tries := 0\<rparr>"]
    by (auto simp: txq_pump_def hal_send_def Let_def split: if_splits prod.splits)
next
  case (Tx_poll e)
  then have "c \<in> set (fst (snd (hal_poll e h)))" using assms by (auto simp: case_prod_unfold Let_def)
  then have "snd c = re_tx_ok e" using hal_calls_ok [of e]
    by (fastforce simp: hal_poll_def Let_def case_prod_unfold split: if_splits hal_state.splits)
  with Tx_poll show ?thesis by blast
qed (use assms in auto)

text \<open>C10. The transmit path is first in, first out, and loses a frame only to the chip. Whatever interleaving of enqueued
  frames, pumps, polls, interrupts and retunes, the frames handed to \<^verbatim>\<open>startTransmit\<close> so far, then the frame parked in the
  radio, then the queue, are exactly the frames that were there before followed by those the queue accepted, in order.
  Of those handed over, the ones on the air are those the chip took and the others are gone: each call that failed
  is one of a step in which the chip refuses, so when it never does every frame handed over is on the air. A frame
  is refused by the queue only when six are queued or it is longer than 256 bytes.\<close>

theorem txpath_fifo:
  assumes "txq_ok q" and "hal_wf h" and "[] \<notin> set (txq_contents q)" and "Enqueue [] \<notin> set evs"
    and "tx_run evs (q, h) = ((q', h'), calls, acc)" and "on_air = map fst (filter snd calls)"
  shows "map fst calls @ inflight h' @ txq_contents q' = inflight h @ txq_contents q @ acc
    \<and> (\<forall>f. (f, False) \<in> set calls \<longrightarrow> (\<exists>e. (Pump e \<in> set evs \<or> Tx_poll e \<in> set evs) \<and> \<not> re_tx_ok e))
    \<and> ((\<forall>e. Pump e \<in> set evs \<or> Tx_poll e \<in> set evs \<longrightarrow> re_tx_ok e) \<longrightarrow>
         on_air @ inflight h' @ txq_contents q' = inflight h @ txq_contents q @ acc)
    \<and> txq_ok q' \<and> hal_wf h' \<and> length (txq_contents q') \<le> TXQ_DEPTH
    \<and> (fst (txq_push f q') \<longleftrightarrow> length (txq_contents q') < TXQ_DEPTH \<and> length f \<le> TX_FRAME_MAX)"
proof -
  have run: "map fst calls @ inflight h' @ txq_contents q' = inflight h @ txq_contents q @ acc \<and> txq_ok q' \<and> hal_wf h'
    \<and> (\<forall>c\<in>set calls. \<exists>e. (Pump e \<in> set evs \<or> Tx_poll e \<in> set evs) \<and> snd c = re_tx_ok e)"
    using assms(1-5)
  proof (induction evs arbitrary: q h calls acc)
    case (Cons ev evs)
    obtain q1 h1 air1 acc1 where s: "tx_step ev (q, h) = ((q1, h1), air1, acc1)" by (metis prod.collapse)
    obtain air2 acc2 where r: "tx_run evs (q1, h1) = ((q', h'), air2, acc2)" and a: "calls = air1 @ air2" "acc = acc1 @ acc2"
      using Cons.prems(5) s by (auto split: prod.splits)
    have "\<forall>f. ev = Enqueue f \<longrightarrow> f \<noteq> []" using Cons.prems(4) by auto
    note st = tx_step_conserves [OF Cons.prems(1-3) this s] tx_step_calls [OF s]
    have ih: "map fst air2 @ inflight h' @ txq_contents q' = inflight h1 @ txq_contents q1 @ acc2 \<and> txq_ok q' \<and> hal_wf h'
      \<and> (\<forall>c\<in>set air2. \<exists>e. (Pump e \<in> set evs \<or> Tx_poll e \<in> set evs) \<and> snd c = re_tx_ok e)"
      using Cons.IH [OF _ _ _ _ r] st Cons.prems(4) by auto
    moreover have "map fst (air1 @ air2) @ inflight h' @ txq_contents q' = inflight h @ txq_contents q @ acc1 @ acc2"
      using st(1) ih by (metis append.assoc map_append)
    moreover have "\<exists>e. (Pump e \<in> set (ev # evs) \<or> Tx_poll e \<in> set (ev # evs)) \<and> snd c = re_tx_ok e" if "c \<in> set (air1 @ air2)" for c
      using that st(2) [of c] ih by (cases "c \<in> set air1") auto
    ultimately show ?case unfolding a by blast
  qed simp
  have "on_air = map fst calls" if ok: "\<forall>e. Pump e \<in> set evs \<or> Tx_poll e \<in> set evs \<longrightarrow> re_tx_ok e"
  proof -
    have "snd c" if "c \<in> set calls" for c
      using bspec [OF conjunct2 [OF conjunct2 [OF conjunct2 [OF run]]] that] ok by blast
    then show ?thesis unfolding assms(6) by (simp add: filter_id_conv)
  qed
  moreover have "\<exists>e. (Pump e \<in> set evs \<or> Tx_poll e \<in> set evs) \<and> \<not> re_tx_ok e" if "(g, False) \<in> set calls" for g
    using bspec [OF conjunct2 [OF conjunct2 [OF conjunct2 [OF run]]] that] by auto
  moreover have "length (txq_contents q') \<le> TXQ_DEPTH"
    "fst (txq_push f q') \<longleftrightarrow> length (txq_contents q') < TXQ_DEPTH \<and> length f \<le> TX_FRAME_MAX"
    using run txq.bounded [of q'] txq.push_accepts [of q' f] by blast+
  ultimately show ?thesis using run by (intro conjI allI impI; blast)
qed

theorem txpath_fifo_witness:
  "map fst (fst (snd (tx_run [Enqueue [1, 2], Enqueue [3], Pump (env_busy 0), Tx_poll (env_busy 1), Tx_poll (env_busy 1000)] (TxQueue_init, hal_idle))))
     @ inflight (snd (fst (tx_run [Enqueue [1, 2], Enqueue [3], Pump (env_busy 0), Tx_poll (env_busy 1), Tx_poll (env_busy 1000)] (TxQueue_init, hal_idle))))
     @ txq_contents (fst (fst (tx_run [Enqueue [1, 2], Enqueue [3], Pump (env_busy 0), Tx_poll (env_busy 1), Tx_poll (env_busy 1000)] (TxQueue_init, hal_idle))))
   = [[1, 2], [3]]"
proof -
  let ?evs = "[Enqueue [1, 2], Enqueue [3], Pump (env_busy 0), Tx_poll (env_busy 1), Tx_poll (env_busy 1000)]"
  obtain q' h' calls acc where r: "tx_run ?evs (TxQueue_init, hal_idle) = ((q', h'), calls, acc)" by (metis prod.collapse)
  have "snd (snd (tx_run ?evs (TxQueue_init, hal_idle))) = [[1, 2], [3]]" by code_simp
  then have "acc = [[1, 2], [3]]" unfolding r by simp
  moreover have "hal_wf hal_idle" "inflight hal_idle = []" by code_simp+
  ultimately show ?thesis unfolding r using txpath_fifo [OF txq_ok_init(1) _ _ _ r refl] by (simp add: txq_ok_init)
qed

end
