(* ===== verification/Node.thy ===== *)
theory Node
  imports Announce_Codec Forwarder Link_Arq Sar Node_Table Locator_Dir Telemetry Control Packet Kiss Tx_Queue
begin

text \<open>
  The node of \<^verbatim>\<open>src/main.cpp\<close>: the file's static variables as one record, and the functions that put frames into the
  transmit queue. The model starts after \<^verbatim>\<open>setup()\<close>, when \<^verbatim>\<open>router\<close> and \<^verbatim>\<open>forwarder\<close> exist. \<^verbatim>\<open>millis()\<close> is the argument
  \<open>now\<close>, constant during one handler; numbers drawn from \<^verbatim>\<open>random()\<close> are arguments too. Monocypher is the
  argument \<open>cr\<close>. Lines printed for an operator are left out; what a controller, a client or a bridge consumes is the
  list \<open>g_out\<close>.

  Buffers built here always hold both headers, so the headers of a frame are read by position (\<open>link_of\<close>,
  \<open>net_of\<close>); received bytes go through the checked reads of the parsers.
\<close>

section \<open>State\<close>

record crypto =
  ed_sign :: "bytes \<Rightarrow> bytes \<Rightarrow> bytes"
  ed_check :: "bytes \<Rightarrow> bytes \<Rightarrow> bytes \<Rightarrow> bool"
  blake :: "bytes \<Rightarrow> bytes"

record ann_entry =
  ac_src :: node_id
  ac_ms :: u32
  ac_rssi :: float32
  ac_snr :: float32
  ac_batt :: u8
  ac_reps :: "report list"
  ac_used :: bool

record loc_state =
  ls_dir :: locator_dir
  ls_res :: locator_resolver
  ls_epoch :: u16
  ls_seq :: u16
  ls_pktid :: u16
  ls_next_rereg_ms :: u32
  ls_burst_left :: u8
  ls_burst_ms :: u32
  ls_my_regs :: "bytes option list"
  ls_seen :: "seen_entry list \<times> nat"

record block_ttl =
  bt_victim :: node_id
  bt_expiry_ms :: u32

record ctrl_state =
  cs_have_key :: bool
  cs_pubkey :: bytes
  cs_counter :: u32
  cs_revert_dbm :: u8
  cs_pending_dbm :: u8
  cs_revert_ms :: u32
  cs_power_managed :: bool
  cs_contact_ms :: u32
  cs_blk :: "block_ttl list"

record xfer_state =
  xs_buf :: bytes
  xs_crc :: u32
  xs_xfer_id :: u16
  xs_tx_active :: bool
  xs_tx_dst :: node_id
  xs_tx_idx :: u16
  xs_tx_count :: u16
  xs_rx :: sar_reassembler
  xs_quiet_until :: u32
  xs_resend :: "u16 list"
  xs_resend_idx :: nat
  xs_resend_active :: bool
  xs_rx_sender :: node_id
  xs_rx_last_ms :: u32
  xs_rx_last_xfer :: u16
  xs_nack_rounds :: u8
  xs_nack_jit :: u32
  xs_done_sent :: u16
  xs_tx_done_ms :: u32
  xs_tq :: "(node_id \<times> bytes) list"
  xs_tq_head :: nat
  xs_tq_count :: nat

text \<open>Flash: each configuration file, absent (or not valid) or with the fields of its record.\<close>

record flash =
  fs_rf :: "radio_cfg option"
  fs_ctrl :: "(bytes \<times> u32) option"
  fs_ble :: "(bytes \<times> bool) option"
  fs_batt :: "float32 option"
  fs_kiss :: "(node_id \<times> bool) option"
  fs_node :: "(bool \<times> bytes) option"
  fs_net :: "u32 option"
  fs_key :: "(bytes \<times> bytes) option"

text \<open>The input of one host transport: the KISS decoder (USB only), the HDLC frame and the text line in assembly.\<close>

record con_state =
  co_kiss :: kiss_decoder
  co_frame :: bytes
  co_in_frame :: bool
  co_esc :: bool
  co_line :: bytes

datatype host_event =
    Ann_line node_id bytes
  | Ann_bad_line node_id
  | Loc_line bytes node_id
  | Loc_busy
  | Dir_line bytes node_id u16
  | Status_line node_id telem_msg
  | Ctrl_ack_line ctrl_ack
  | Ctrl_rejected ctrl_verdict
  | Data_line node_id u16 bytes
  | Batt_line node_id u16 u8 u32
  | Nbrs_line ann_entry u32
  | Blob_line bytes
  | Enter_bootloader
  | Host_bytes bytes

record node =
  g_my_id :: node_id
  g_router :: router
  g_forwarder :: forwarder
  g_arq :: link_arq
  g_ver_stats :: version_stats
  g_radio :: radio_hal
  g_txq :: tx_queue
  g_beacon_seq :: u16
  g_data_seq :: u16
  g_boot_ms :: u32
  g_have_key :: bool
  g_pk :: bytes
  g_sk :: bytes
  g_fw :: bytes
  g_rf_work :: radio_cfg
  g_batt_scale :: float32
  g_batt_mv :: u16
  g_next_batt_ms :: u32
  g_mobile :: bool
  g_name :: bytes
  g_ble :: bool
  g_ble_advertising :: bool
  g_ble_connected :: bool
  g_ble_inited :: bool
  g_ble_pin :: bytes
  g_ble_con :: con_state
  g_trace :: bool
  g_tunnel_mode :: bool
  g_kiss_mode :: bool
  g_kiss_dst :: node_id
  g_con :: con_state
  g_beacon_cfg :: u32
  g_next_beacon_ms :: u32
  g_next_arq_ms :: u32
  g_next_tick_ms :: u32
  g_reboot_at :: u32
  g_id_table :: node_table
  g_ann_cache :: "ann_entry list"
  g_telem :: telem_cache
  g_last_status_ms :: u32
  g_next_batt_flood_ms :: u32
  g_loc :: loc_state
  g_ctrl :: ctrl_state
  g_xfer :: xfer_state
  g_flash :: flash
  g_out :: "host_event list"

definition emit :: "host_event \<Rightarrow> node \<Rightarrow> node" where
  "emit ev n = n\<lparr>g_out := g_out n @ [ev]\<rparr>"

section \<open>Battery and cadence\<close>

definition batt_curve :: "(nat \<times> nat) list" where
  "batt_curve = [(3300, 0), (3450, 5), (3680, 10), (3740, 20), (3770, 30), (3790, 40), (3820, 50), (3870, 60),
     (3920, 70), (3980, 80), (4060, 90), (4200, 100)]"

fun batt_seg :: "nat \<Rightarrow> (nat \<times> nat) list \<Rightarrow> nat" where
  "batt_seg mv ((m0, p0) # (m1, p1) # cs) =
     (if mv < m1 then p0 + (p1 - p0) * (mv - m0) div (m1 - m0) else batt_seg mv ((m1, p1) # cs))"
| "batt_seg mv _ = 100"

definition batt_pct :: "u16 \<Rightarrow> u8" where
  "batt_pct mv = (if unat mv \<le> fst (hd batt_curve) then 0 else of_nat (batt_seg (unat mv) batt_curve))"

definition batt_pct_plus1 :: "node \<Rightarrow> u8" where
  "batt_pct_plus1 n = (if 0 < g_batt_scale n then batt_pct (g_batt_mv n) + 1 else 0)"

definition beacon_auto_ms :: "u8 \<Rightarrow> u32" where
  "beacon_auto_ms sf =
     (if sf = 12 then 140000 else if sf = 11 then 75000 else if sf = 10 then 40000
      else if sf = 9 then 25000 else if sf = 8 then 15000 else 10000)"

definition beacon_period_ms :: "node \<Rightarrow> u32" where
  "beacon_period_ms n = (if g_beacon_cfg n \<noteq> 0 then g_beacon_cfg n else beacon_auto_ms (rc_sf (hs_cfg (g_radio n))))"

definition beacon_jitter_ms :: "node \<Rightarrow> u32" where
  "beacon_jitter_ms n = beacon_period_ms n div 4"

definition neighbor_timeout_ms :: "node \<Rightarrow> u32" where
  "neighbor_timeout_ms n = (let t = beacon_period_ms n * 9 in if t < 90000 then 90000 else t)"

definition route_timeout_ms :: "node \<Rightarrow> u32" where
  "route_timeout_ms n = neighbor_timeout_ms n"

text \<open>Conversion of a float to an integer type truncates toward zero. \<^verbatim>\<open>batt_raw()\<close>, the reading of the converter, is an
  argument.\<close>

definition ftrunc :: "float32 \<Rightarrow> int" where
  "ftrunc x = (if 0 \<le> x then \<lfloor>x\<rfloor> else \<lceil>x\<rceil>)"

definition batt_refresh :: "u16 \<Rightarrow> node \<Rightarrow> node" where
  "batt_refresh raw n = n\<lparr>g_batt_mv := (if 0 < g_batt_scale n then word_of_int (ftrunc (fmul (of_int (uint raw)) (g_batt_scale n))) else 0)\<rparr>"

text \<open>\<^verbatim>\<open>random(0, jitter)\<close> is the argument \<open>rnd\<close>.\<close>

definition schedule_next_beacon :: "u32 \<Rightarrow> u32 \<Rightarrow> node \<Rightarrow> u32" where
  "schedule_next_beacon now rnd n = now + beacon_period_ms n + rnd"

section \<open>Announce cache\<close>

definition ANN_CACHE_CAP :: nat where "ANN_CACHE_CAP = 8"

definition AnnEntry_init :: ann_entry where
  "AnnEntry_init = \<lparr>ac_src = nid_zero, ac_ms = 0, ac_rssi = 0, ac_snr = 0, ac_batt = 0, ac_reps = [], ac_used = False\<rparr>"

definition ann_cache_put :: "node_id \<Rightarrow> announce \<Rightarrow> float32 \<Rightarrow> float32 \<Rightarrow> u8 \<Rightarrow> u32 \<Rightarrow> ann_entry list \<Rightarrow> ann_entry list" where
  "ann_cache_put src a rssi snr batt now c =
     cache_put ac_used ac_src ac_ms \<lparr>ac_src = src, ac_ms = now, ac_rssi = rssi, ac_snr = snr, ac_batt = batt,
       ac_reps = take MAX_NEIGHBORS (a_reports a), ac_used = True\<rparr> c"

definition ann_cache_find :: "node_id \<Rightarrow> ann_entry list \<Rightarrow> ann_entry option" where
  "ann_cache_find src c = slot_lookup ac_used ac_src c src"

interpretation anc: lru_cache ac_used ac_src "\<lambda>e. e\<lparr>ac_used := False\<rparr>" ac_ms
  by unfold_locales simp_all

section \<open>Frames in place\<close>

definition link_of :: "bytes \<Rightarrow> link_header" where
  "link_of f = \<lparr>lh_prev_hop = f ! 0, lh_next_hop = f ! 1, lh_link_seq = f ! 2, lh_flags = f ! 3\<rparr>"

definition set_link :: "link_header \<Rightarrow> bytes \<Rightarrow> bytes" where
  "set_link l f = put_link l @ drop 4 f"

text \<open>\<^verbatim>\<open>net.ttl = out_ttl\<close> and the copy back: byte 6 of the frame.\<close>

definition set_ttl :: "u8 \<Rightarrow> bytes \<Rightarrow> bytes" where
  "set_ttl ttl f = f[6 := ttl]"

definition link_addr_or_bcast :: "link_addr \<Rightarrow> link_addr" where
  "link_addr_or_bcast na = (if na \<noteq> LINK_ADDR_NONE then na else LINK_ADDR_BROADCAST)"

definition txq_put :: "bytes \<Rightarrow> node \<Rightarrow> node" where
  "txq_put f n = n\<lparr>g_txq := snd (txq_push f (g_txq n))\<rparr>"

section \<open>Sending\<close>

definition tx_unicast :: "u32 \<Rightarrow> bytes \<Rightarrow> node_id \<Rightarrow> node \<Rightarrow> node" where
  "tx_unicast now frame nh n =
     (let link = link_of frame in
      if lh_next_hop link \<noteq> LINK_ADDR_BROADCAST then
        let (seq, arq) = next_seq (g_arq n);
            frame = set_link (link\<lparr>lh_link_seq := seq, lh_flags := lh_flags link OR LINK_FLAG_ACK_REQ\<rparr>) frame;
            n = txq_put frame (n\<lparr>g_arq := arq\<rparr>)
        in n\<lparr>g_arq := snd (track (g_arq n) seq nh frame now ARQ_TIMEOUT_MS ARQ_MAX_RETRIES)\<rparr>
      else txq_put frame n)"

definition send_ack :: "node_id \<Rightarrow> u8 \<Rightarrow> node \<Rightarrow> node" where
  "send_ack to seq n =
     (let link = \<lparr>lh_prev_hop = router_my_alias_for (g_router n) to,
                  lh_next_hop = link_addr_or_bcast (link_addr_for (g_router n) to),
                  lh_link_seq = seq, lh_flags = LINK_FLAG_IS_ACK\<rparr>;
          net = \<lparr>nh_ver_type = net_ver_type PKT_ACK, nh_flags = 0, nh_ttl = 1, nh_dst = to, nh_src = g_my_id n, nh_pkt_id = ucast seq\<rparr>
      in txq_put (mk_frame link net []) n)"

definition ANNOUNCE_SIG_TAIL :: nat where "ANNOUNCE_SIG_TAIL = 96"

definition beacon_frame :: "crypto \<Rightarrow> u32 \<Rightarrow> node \<Rightarrow> bytes" where
  "beacon_frame cr now n =
     (let link = \<lparr>lh_prev_hop = LINK_ADDR_NONE, lh_next_hop = LINK_ADDR_BROADCAST, lh_link_seq = ucast (g_beacon_seq n), lh_flags = 0\<rparr>;
          net = \<lparr>nh_ver_type = net_ver_type PKT_BEACON, nh_flags = 0, nh_ttl = 1, nh_dst = NODE_ID_BROADCAST, nh_src = g_my_id n,
                 nh_pkt_id = g_beacon_seq n\<rparr>;
          pl = \<lparr>bp_hw_class = 0, bp_batt_pct_plus1 = batt_pct_plus1 n, bp_uptime_s = ucast ((now - g_boot_ms n) div 1000)\<rparr>;
          base = HEADER_BYTES + BEACON_PAYLOAD_BYTES;
          ann_cap = TX_FRAME_MAX - base - (if g_have_key n then ANNOUNCE_SIG_TAIL else 0);
          body = (case announce_serialize (build_announce (g_router n) Announce_init) ann_cap of None \<Rightarrow> [] | Some b \<Rightarrow> b);
          sig = (if g_have_key n
                 then case announce_sign (ed_sign cr) body (g_pk n) (g_sk n) of None \<Rightarrow> replicate ANNOUNCE_SIG_TAIL 0 | Some t \<Rightarrow> t
                 else [])
      in mk_frame link net (put_beacon_payload pl @ body @ sig))"

definition send_beacon :: "crypto \<Rightarrow> u32 \<Rightarrow> node \<Rightarrow> node" where
  "send_beacon cr now n =
     (let (ok, q) = txq_push (beacon_frame cr now n) (g_txq n)
      in if ok then n\<lparr>g_txq := q, g_beacon_seq := g_beacon_seq n + 1\<rparr> else n)"

text \<open>The link header toward a destination, shared by the senders of unicast frames.\<close>

definition unicast_link :: "router \<Rightarrow> node_id \<Rightarrow> u8 \<Rightarrow> link_header" where
  "unicast_link r nh seq =
     \<lparr>lh_prev_hop = (if \<not> is_zero nh then router_my_alias_for r nh else LINK_ADDR_NONE),
      lh_next_hop = link_addr_or_bcast (if \<not> is_zero nh then link_addr_for r nh else LINK_ADDR_NONE),
      lh_link_seq = seq, lh_flags = 0\<rparr>"

definition send_data_bytes :: "u32 \<Rightarrow> node_id \<Rightarrow> bytes \<Rightarrow> node \<Rightarrow> node" where
  "send_data_bytes now dst payload n =
     (let payload = take (MAX_PAYLOAD - HEADER_BYTES) payload;
          nh = next_hop (g_router n) dst;
          link = unicast_link (g_router n) nh (ucast (g_data_seq n));
          net = \<lparr>nh_ver_type = net_ver_type PKT_DATA, nh_flags = 0, nh_ttl = DEFAULT_TTL, nh_dst = dst, nh_src = g_my_id n, nh_pkt_id = g_data_seq n\<rparr>;
          n = n\<lparr>g_forwarder := mark_seen (g_forwarder n) (g_my_id n) (g_data_seq n)\<rparr>;
          n = tx_unicast now (mk_frame link net payload) nh n
      in n\<lparr>g_data_seq := g_data_seq n + 1\<rparr>)"

definition forward_frame :: "u32 \<Rightarrow> bytes \<Rightarrow> node_id \<Rightarrow> u8 \<Rightarrow> node \<Rightarrow> node" where
  "forward_frame now buf nxt out_ttl n =
     (if TX_FRAME_MAX < length buf then n
      else let link = (link_of buf)\<lparr>lh_prev_hop := router_my_alias_for (g_router n) nxt,
                                    lh_next_hop := link_addr_or_bcast (link_addr_for (g_router n) nxt), lh_flags := 0\<rparr>
           in tx_unicast now (set_ttl out_ttl (set_link link buf)) nxt n)"

section \<open>Floods\<close>

definition LOC_TTL_S :: u16 where "LOC_TTL_S = 600"
definition LOC_FLOOD_TTL :: u8 where "LOC_FLOOD_TTL = 4"
definition LOC_RESOLVE_MS :: u16 where "LOC_RESOLVE_MS = 8000"
definition LOC_REREG_MS :: u32 where "LOC_REREG_MS = 240000"
definition LOC_SEEN_CAP :: nat where "LOC_SEEN_CAP = 16"

definition loc_flood_seen :: "node_id \<Rightarrow> u16 \<Rightarrow> node \<Rightarrow> bool" where
  "loc_flood_seen src pid n \<longleftrightarrow> ring_seen se_used se_key (fst (ls_seen (g_loc n))) (src, pid)"

definition loc_flood_mark :: "node_id \<Rightarrow> u16 \<Rightarrow> node \<Rightarrow> node" where
  "loc_flood_mark src pid n = n\<lparr>g_loc := (g_loc n)\<lparr>ls_seen := ring_put (se_mk (src, pid)) (ls_seen (g_loc n))\<rparr>\<rparr>"

interpretation fld: dedup_ring se_used se_key se_mk LOC_SEEN_CAP
  by unfold_locales (auto simp: se_mk_def se_key_def LOC_SEEN_CAP_def)

definition bump_pktid :: "node \<Rightarrow> node" where
  "bump_pktid n = n\<lparr>g_loc := (g_loc n)\<lparr>ls_pktid := ls_pktid (g_loc n) + 1\<rparr>\<rparr>"

definition send_loc_flood :: "bytes \<Rightarrow> u8 \<Rightarrow> u8 \<Rightarrow> node \<Rightarrow> node" where
  "send_loc_flood msg ttl pt n =
     (if TX_FRAME_MAX < HEADER_BYTES + length msg then n
      else
        let pid = ls_pktid (g_loc n);
            link = \<lparr>lh_prev_hop = LINK_ADDR_NONE, lh_next_hop = LINK_ADDR_BROADCAST, lh_link_seq = ucast pid, lh_flags = 0\<rparr>;
            net = \<lparr>nh_ver_type = net_ver_type pt, nh_flags = 0, nh_ttl = ttl, nh_dst = NODE_ID_BROADCAST, nh_src = g_my_id n, nh_pkt_id = pid\<rparr>
        in bump_pktid (txq_put (mk_frame link net msg) (loc_flood_mark (g_my_id n) pid n)))"

definition loc_reflood :: "bytes \<Rightarrow> u8 \<Rightarrow> node \<Rightarrow> node" where
  "loc_reflood buf out_ttl n =
     (if TX_FRAME_MAX < length buf then n
      else txq_put (set_ttl out_ttl (set_link ((link_of buf)\<lparr>lh_prev_hop := LINK_ADDR_NONE, lh_next_hop := LINK_ADDR_BROADCAST, lh_flags := 0\<rparr>) buf)) n)"

definition send_loc_unicast :: "u32 \<Rightarrow> node_id \<Rightarrow> bytes \<Rightarrow> u8 \<Rightarrow> node \<Rightarrow> node" where
  "send_loc_unicast now dst msg pt n =
     (if MAX_PAYLOAD - HEADER_BYTES < length msg then n
      else
        let pid = ls_pktid (g_loc n);
            nh = next_hop (g_router n) dst;
            link = unicast_link (g_router n) nh (ucast pid);
            net = \<lparr>nh_ver_type = net_ver_type pt, nh_flags = 0, nh_ttl = DEFAULT_TTL, nh_dst = dst, nh_src = g_my_id n, nh_pkt_id = pid\<rparr>;
            n = n\<lparr>g_forwarder := mark_seen (g_forwarder n) (g_my_id n) pid\<rparr>
        in bump_pktid (tx_unicast now (mk_frame link net msg) nh n))"

section \<open>Frames the radio accepts\<close>

text \<open>The buffers have 256 bytes, the radio takes 255: a queued frame of 256 bytes would block the queue for ever. A
  queued frame is \<open>frame_ok\<close>: both headers, and at most what the radio takes.\<close>

definition frame_ok :: "bytes \<Rightarrow> bool" where
  "frame_ok f \<longleftrightarrow> HEADER_BYTES \<le> length f \<and> length f \<le> RADIO_MAX_FRAME"

lemmas frame_sizes = HEADER_BYTES_def RADIO_MAX_FRAME_def TX_FRAME_MAX_def MAX_PAYLOAD_def BEACON_PAYLOAD_BYTES_def

lemma frame_ok_mk_frame [simp]: "frame_ok (mk_frame l h p) \<longleftrightarrow> length p \<le> 214"
  by (auto simp: frame_ok_def frame_sizes)

lemma frame_ok_set_link [simp]: "frame_ok f \<Longrightarrow> frame_ok (set_link l f)"
  by (simp add: frame_ok_def set_link_def frame_sizes)

lemma frame_ok_set_ttl [simp]: "frame_ok (set_ttl t f) \<longleftrightarrow> frame_ok f"
  by (simp add: frame_ok_def set_ttl_def)

definition tx_inv :: "tx_queue \<Rightarrow> link_arq \<Rightarrow> radio_hal \<Rightarrow> bool" where
  "tx_inv q a h \<longleftrightarrow> txq_ok q \<and> (\<forall>f\<in>set (txq_contents q). frame_ok f)
     \<and> arq_inv a \<and> (\<forall>p\<in>set (aq_slots a). pd_used p \<longrightarrow> frame_ok (pd_frame p))
     \<and> hal_wf h \<and> (\<forall>f\<in>set (inflight h). frame_ok f)"

lemma tx_inv_push: "tx_inv q a h \<Longrightarrow> frame_ok f \<Longrightarrow> tx_inv (snd (txq_push f q)) a h"
  using txq.push_contents [of q f] txq.push_ok [of q f] by (auto simp: tx_inv_def split: if_splits)

lemma tx_inv_next_seq: "tx_inv q a h \<Longrightarrow> tx_inv q (snd (next_seq a)) h"
  by (simp add: tx_inv_def next_seq_def arq_inv_def Let_def)

lemma tx_inv_track: "tx_inv q a h \<Longrightarrow> frame_ok f \<Longrightarrow> tx_inv q (snd (track a s nh f now t m)) h"
  by (auto simp: tx_inv_def track_def arq_inv_def dest!: subsetD [OF set_update_subset_insert] split: option.splits)

lemma tx_inv_on_ack: "tx_inv q a h \<Longrightarrow> tx_inv q (snd (on_ack a s)) h"
  by (auto simp: tx_inv_def on_ack_def arq_inv_def dest!: subsetD [OF set_upd_at_subset] split: option.splits)

lemma tx_inv_radio: "tx_inv q a h \<Longrightarrow> hal_wf h' \<Longrightarrow> set (inflight h') \<subseteq> set (inflight h) \<Longrightarrow> tx_inv q a h'"
  by (auto simp: tx_inv_def)

section \<open>The invariant of a node\<close>

definition loc_inv :: "loc_state \<Rightarrow> bool" where
  "loc_inv l \<longleftrightarrow> ld_inv (ls_dir l) \<and> rv_inv (ls_res l) \<and> ring_ok LOC_SEEN_CAP (ls_seen l)
     \<and> length (ls_my_regs l) = 4 \<and> (\<forall>r\<in>set (ls_my_regs l). case r of None \<Rightarrow> True | Some i \<Rightarrow> loc_id_ok i)"

definition tq_ok :: "xfer_state \<Rightarrow> bool" where
  "tq_ok x \<longleftrightarrow> length (xs_tq x) = 4 \<and> xs_tq_head x < 4 \<and> xs_tq_count x \<le> 4 \<and> (\<forall>p\<in>set (xs_tq x). length (snd p) \<le> SAR_MAX_FILE)"

definition xfer_inv :: "xfer_state \<Rightarrow> bool" where
  "xfer_inv x \<longleftrightarrow> sar_inv (xs_rx x) \<and> length (xs_buf x) \<le> SAR_MAX_FILE \<and> tq_ok x
     \<and> length (xs_resend x) \<le> SAR_MAX_FRAGS \<and> (xs_resend_active x \<longrightarrow> xs_resend_idx x < length (xs_resend x))"

definition id_inv :: "crypto \<Rightarrow> node_table \<Rightarrow> bool" where
  "id_inv cr t \<longleftrightarrow> nd_inv t \<and> nd_bound (blake cr) t"

definition cache_inv :: "ann_entry list \<Rightarrow> telem_cache \<Rightarrow> bool" where
  "cache_inv c t \<longleftrightarrow> length c = ANN_CACHE_CAP \<and> slots_distinct ac_used ac_src c
     \<and> length t = TELEM_CACHE_CAP \<and> slots_distinct te_used te_origin t"

lemma cache_inv_put:
  assumes "cache_inv c t"
  shows "cache_inv (ann_cache_put src a rssi snr b now c) t" "cache_inv c (telem_upsert t i mv p now)"
  using assms
  by (auto simp: cache_inv_def ann_cache_put_def telem_upsert_def anc.length_put tlc.length_put ANN_CACHE_CAP_def TELEM_CACHE_CAP_def
      intro!: anc.distinct_put tlc.distinct_put)

definition route_inv :: "node_id \<Rightarrow> router \<Rightarrow> forwarder \<Rightarrow> bool" where
  "route_inv me r f \<longleftrightarrow> router_inv r \<and> ro_my_id r = me \<and> fw_inv f \<and> fw_me f = me"

text \<open>The links that have a block lifetime, each once.\<close>

definition blk_live :: "block_ttl list \<Rightarrow> node_id list" where
  "blk_live bs = map bt_victim (filter (\<lambda>b. bt_expiry_ms b \<noteq> 0) bs)"

definition blk_inv :: "block_ttl list \<Rightarrow> bool" where
  "blk_inv bs \<longleftrightarrow> length bs = MAX_BLOCKED \<and> distinct (blk_live bs)"

text \<open>Ed25519 signatures have 64 bytes; the node's public key has 32.\<close>

definition node_inv :: "crypto \<Rightarrow> node \<Rightarrow> bool" where
  "node_inv cr n \<longleftrightarrow> tx_inv (g_txq n) (g_arq n) (g_radio n) \<and> route_inv (g_my_id n) (g_router n) (g_forwarder n)
     \<and> loc_inv (g_loc n) \<and> id_inv cr (g_id_table n) \<and> cache_inv (g_ann_cache n) (g_telem n)
     \<and> xfer_inv (g_xfer n) \<and> blk_inv (cs_blk (g_ctrl n)) \<and> length (g_pk n) = 32"

lemma node_invD:
  assumes "node_inv cr n"
  shows "tx_inv (g_txq n) (g_arq n) (g_radio n)" "router_inv (g_router n)" "ro_my_id (g_router n) = g_my_id n"
    "fw_inv (g_forwarder n)" "fw_me (g_forwarder n) = g_my_id n" "loc_inv (g_loc n)" "id_inv cr (g_id_table n)"
    "cache_inv (g_ann_cache n) (g_telem n)" "xfer_inv (g_xfer n)" "blk_inv (cs_blk (g_ctrl n))" "length (g_pk n) = 32"
  using assms by (simp_all add: node_inv_def route_inv_def)

text \<open>Updates of fields the invariant does not mention.\<close>

lemma node_inv_plain [simp]:
  "node_inv cr (n\<lparr>g_out := a1\<rparr>) = node_inv cr n" "node_inv cr (n\<lparr>g_beacon_seq := a2\<rparr>) = node_inv cr n"
  "node_inv cr (n\<lparr>g_data_seq := a3\<rparr>) = node_inv cr n" "node_inv cr (n\<lparr>g_ver_stats := a4\<rparr>) = node_inv cr n"
  "node_inv cr (n\<lparr>g_last_status_ms := a5\<rparr>) = node_inv cr n" "node_inv cr (n\<lparr>g_next_beacon_ms := a6\<rparr>) = node_inv cr n"
  "node_inv cr (n\<lparr>g_next_arq_ms := a7\<rparr>) = node_inv cr n" "node_inv cr (n\<lparr>g_next_tick_ms := a8\<rparr>) = node_inv cr n"
  "node_inv cr (n\<lparr>g_next_batt_flood_ms := a9\<rparr>) = node_inv cr n" "node_inv cr (n\<lparr>g_flash := b1\<rparr>) = node_inv cr n"
  "node_inv cr (n\<lparr>g_rf_work := b2\<rparr>) = node_inv cr n" "node_inv cr (n\<lparr>g_reboot_at := b3\<rparr>) = node_inv cr n"
  "node_inv cr (n\<lparr>g_ble_advertising := b4\<rparr>) = node_inv cr n" "node_inv cr (n\<lparr>g_batt_mv := b5\<rparr>) = node_inv cr n"
  "node_inv cr (n\<lparr>g_next_batt_ms := b6\<rparr>) = node_inv cr n" "node_inv cr (n\<lparr>g_con := b7\<rparr>) = node_inv cr n"
  "node_inv cr (n\<lparr>g_kiss_mode := b8\<rparr>) = node_inv cr n" "node_inv cr (n\<lparr>g_kiss_dst := b9\<rparr>) = node_inv cr n"
  "node_inv cr (n\<lparr>g_tunnel_mode := c1\<rparr>) = node_inv cr n" "node_inv cr (n\<lparr>g_ble_connected := c2\<rparr>) = node_inv cr n"
  "node_inv cr (n\<lparr>g_ble_inited := c3\<rparr>) = node_inv cr n" "node_inv cr (n\<lparr>g_ble_pin := c4\<rparr>) = node_inv cr n"
  "node_inv cr (n\<lparr>g_ble_con := c5\<rparr>) = node_inv cr n" "node_inv cr (n\<lparr>g_trace := c6\<rparr>) = node_inv cr n"
  "node_inv cr (n\<lparr>g_batt_scale := c7\<rparr>) = node_inv cr n" "node_inv cr (n\<lparr>g_mobile := c8\<rparr>) = node_inv cr n"
  "node_inv cr (n\<lparr>g_name := c9\<rparr>) = node_inv cr n" "node_inv cr (n\<lparr>g_beacon_cfg := d1\<rparr>) = node_inv cr n"
  "node_inv cr (n\<lparr>g_have_key := d2\<rparr>) = node_inv cr n" "node_inv cr (n\<lparr>g_ble := d3\<rparr>) = node_inv cr n"
  "node_inv cr (n\<lparr>g_fw := d4\<rparr>) = node_inv cr n" "node_inv cr (n\<lparr>g_boot_ms := d5\<rparr>) = node_inv cr n"
  by (simp_all add: node_inv_def)

text \<open>Updates of one component by a value that keeps that component's invariant.\<close>

lemma node_inv_part:
  assumes "node_inv cr n"
  shows "tx_inv q a h \<Longrightarrow> node_inv cr (n\<lparr>g_txq := q, g_arq := a, g_radio := h\<rparr>)"
    "tx_inv q (g_arq n) (g_radio n) \<Longrightarrow> node_inv cr (n\<lparr>g_txq := q\<rparr>)"
    "tx_inv (g_txq n) a (g_radio n) \<Longrightarrow> node_inv cr (n\<lparr>g_arq := a\<rparr>)"
    "tx_inv (g_txq n) (g_arq n) h \<Longrightarrow> node_inv cr (n\<lparr>g_radio := h\<rparr>)"
    "router_inv r \<Longrightarrow> ro_my_id r = g_my_id n \<Longrightarrow> node_inv cr (n\<lparr>g_router := r\<rparr>)"
    "fw_inv f \<Longrightarrow> fw_me f = g_my_id n \<Longrightarrow> node_inv cr (n\<lparr>g_forwarder := f\<rparr>)"
    "loc_inv l \<Longrightarrow> node_inv cr (n\<lparr>g_loc := l\<rparr>)"
    "id_inv cr t \<Longrightarrow> node_inv cr (n\<lparr>g_id_table := t\<rparr>)"
    "cache_inv c (g_telem n) \<Longrightarrow> node_inv cr (n\<lparr>g_ann_cache := c\<rparr>)"
    "cache_inv (g_ann_cache n) tc \<Longrightarrow> node_inv cr (n\<lparr>g_telem := tc\<rparr>)"
    "xfer_inv x \<Longrightarrow> node_inv cr (n\<lparr>g_xfer := x\<rparr>)"
    "blk_inv (cs_blk c') \<Longrightarrow> node_inv cr (n\<lparr>g_ctrl := c'\<rparr>)"
  using assms by (simp_all add: node_inv_def route_inv_def)

section \<open>The senders keep it\<close>

lemma node_inv_emit [simp]: "node_inv cr (emit ev n) = node_inv cr n"
  by (simp add: emit_def)

lemma node_inv_txq_put [inv_intros]: "node_inv cr n \<Longrightarrow> frame_ok f \<Longrightarrow> node_inv cr (txq_put f n)"
  by (simp add: txq_put_def node_inv_part(2) tx_inv_push node_invD)

lemma node_inv_tx_unicast [inv_intros]: "node_inv cr n \<Longrightarrow> frame_ok f \<Longrightarrow> node_inv cr (tx_unicast now f nh n)"
proof (cases "lh_next_hop (link_of f) \<noteq> LINK_ADDR_BROADCAST")
  case True
  assume n: "node_inv cr n" and f: "frame_ok f"
  obtain s a where sa: "next_seq (g_arq n) = (s, a)" by (cases "next_seq (g_arq n)")
  let ?f = "set_link ((link_of f)\<lparr>lh_link_seq := s, lh_flags := lh_flags (link_of f) OR LINK_FLAG_ACK_REQ\<rparr>) f"
  have f': "frame_ok ?f" using f by simp
  have "tx_inv (g_txq n) a (g_radio n)" using tx_inv_next_seq [OF node_invD(1) [OF n]] sa by simp
  then have "node_inv cr (n\<lparr>g_arq := a\<rparr>)" using n by (simp add: node_inv_part(3))
  then have m: "node_inv cr (txq_put ?f (n\<lparr>g_arq := a\<rparr>))" using f' by (rule node_inv_txq_put)
  then show ?thesis using True f' sa
    by (simp add: tx_unicast_def Let_def node_inv_part(3) [OF m] tx_inv_track node_invD [OF m])
qed (simp add: tx_unicast_def Let_def node_inv_txq_put)

lemma node_inv_send_ack [inv_intros]: "node_inv cr n \<Longrightarrow> node_inv cr (send_ack i s n)"
  by (simp add: send_ack_def Let_def node_inv_txq_put)

lemma fw_inv_mark_seen: "fw_inv f \<Longrightarrow> fw_inv (mark_seen f s i)" "fw_me (mark_seen f s i) = fw_me f"
  by (simp_all add: mark_seen_def fw_inv_seen_or_insert)

lemma node_inv_mark_seen [inv_intros]:
  "node_inv cr n \<Longrightarrow> node_inv cr (n\<lparr>g_forwarder := mark_seen (g_forwarder n) s i\<rparr>)"
  by (simp add: node_inv_part(6) fw_inv_mark_seen node_invD)

lemma node_inv_send_data_bytes [inv_intros]: "node_inv cr n \<Longrightarrow> node_inv cr (send_data_bytes now dst p n)"
  by (simp add: send_data_bytes_def Let_def frame_sizes node_inv_tx_unicast node_inv_mark_seen)

lemma node_inv_forward_frame [inv_intros]:
  "node_inv cr n \<Longrightarrow> frame_ok buf \<Longrightarrow> node_inv cr (forward_frame now buf nxt t n)"
  by (simp add: forward_frame_def Let_def node_inv_tx_unicast)

lemma node_inv_loc_flood_mark [inv_intros]: "node_inv cr n \<Longrightarrow> node_inv cr (loc_flood_mark s i n)"
  using node_invD(6) [of cr n] by (simp add: loc_flood_mark_def node_inv_part(7) loc_inv_def ring_ok_put)

lemma node_inv_bump_pktid [inv_intros]: "node_inv cr n \<Longrightarrow> node_inv cr (bump_pktid n)"
  using node_invD(6) [of cr n] by (simp add: bump_pktid_def node_inv_part(7) loc_inv_def)

lemma node_inv_send_loc_flood [inv_intros]:
  "node_inv cr n \<Longrightarrow> length msg \<le> 214 \<Longrightarrow> node_inv cr (send_loc_flood msg ttl pt n)"
  by (simp add: send_loc_flood_def Let_def inv_intros)

lemma node_inv_loc_reflood [inv_intros]: "node_inv cr n \<Longrightarrow> frame_ok buf \<Longrightarrow> node_inv cr (loc_reflood buf t n)"
  by (simp add: loc_reflood_def inv_intros)

lemma node_inv_send_loc_unicast [inv_intros]: "node_inv cr n \<Longrightarrow> node_inv cr (send_loc_unicast now dst msg pt n)"
  by (simp add: send_loc_unicast_def Let_def inv_intros frame_sizes)

section \<open>What the senders leave alone\<close>

text \<open>The part of the state that sending does not touch.\<close>

definition ctl_view :: "node \<Rightarrow> node_id \<times> router \<times> radio_hal \<times> ctrl_state \<times> flash \<times> u32 \<times> bool \<times> radio_cfg \<times> xfer_state" where
  "ctl_view n = (g_my_id n, g_router n, g_radio n, g_ctrl n, g_flash n, g_reboot_at n, g_ble_advertising n, g_rf_work n, g_xfer n)"

lemma ctl_viewD:
  assumes "ctl_view n' = ctl_view n"
  shows "g_my_id n' = g_my_id n" "g_router n' = g_router n" "g_radio n' = g_radio n" "g_ctrl n' = g_ctrl n" "g_flash n' = g_flash n"
    "g_reboot_at n' = g_reboot_at n" "g_ble_advertising n' = g_ble_advertising n" "g_rf_work n' = g_rf_work n" "g_xfer n' = g_xfer n"
  using assms by (simp_all add: ctl_view_def)

lemma ctl_view_senders [simp]:
  "ctl_view (emit ev n) = ctl_view n" "ctl_view (txq_put f n) = ctl_view n" "ctl_view (tx_unicast now f nh n) = ctl_view n"
  "ctl_view (send_ack i q n) = ctl_view n" "ctl_view (send_data_bytes now i p n) = ctl_view n" "ctl_view (forward_frame now f nh t n) = ctl_view n"
  "ctl_view (loc_flood_mark i k n) = ctl_view n" "ctl_view (bump_pktid n) = ctl_view n" "ctl_view (send_loc_flood m t pt n) = ctl_view n"
  "ctl_view (loc_reflood f t n) = ctl_view n" "ctl_view (send_loc_unicast now i m pt n) = ctl_view n"
proof -
  have put: "ctl_view (txq_put f n) = ctl_view n" for f n by (simp add: ctl_view_def txq_put_def)
  have uni: "ctl_view (tx_unicast now f nh n) = ctl_view n" for now f nh n
    by (simp add: tx_unicast_def ctl_view_def txq_put_def Let_def split: prod.splits)
  have fw: "ctl_view (n\<lparr>g_forwarder := x\<rparr>) = ctl_view n" "ctl_view (n\<lparr>g_data_seq := y\<rparr>) = ctl_view n" for n x y
    by (simp_all add: ctl_view_def)
  have mk: "ctl_view (loc_flood_mark i k n) = ctl_view n" "ctl_view (bump_pktid n) = ctl_view n" for i k n
    by (simp_all add: ctl_view_def loc_flood_mark_def bump_pktid_def)
  note all = put uni fw mk
  show "ctl_view (txq_put f n) = ctl_view n" "ctl_view (tx_unicast now f nh n) = ctl_view n"
    "ctl_view (loc_flood_mark i k n) = ctl_view n" "ctl_view (bump_pktid n) = ctl_view n" by (simp_all add: all)
  show "ctl_view (emit ev n) = ctl_view n" by (simp add: ctl_view_def emit_def)
  show "ctl_view (send_ack i q n) = ctl_view n" by (simp add: send_ack_def Let_def all)
  show "ctl_view (send_data_bytes now i p n) = ctl_view n" by (simp add: send_data_bytes_def Let_def all)
  show "ctl_view (forward_frame now f nh t n) = ctl_view n" by (simp add: forward_frame_def Let_def all)
  show "ctl_view (send_loc_flood m t pt n) = ctl_view n" by (simp add: send_loc_flood_def Let_def all)
  show "ctl_view (loc_reflood f t n) = ctl_view n" by (simp add: loc_reflood_def all)
  show "ctl_view (send_loc_unicast now i m pt n) = ctl_view n" by (simp add: send_loc_unicast_def Let_def all)
qed

section \<open>Beacons\<close>

definition sig_len :: "crypto \<Rightarrow> bool" where
  "sig_len cr \<longleftrightarrow> (\<forall>sk m. length (ed_sign cr sk m) = 64)"

text \<open>A body of four header bytes, 18-byte reports and 35-byte routes never fills the buffer exactly.\<close>

lemma beacon_not_full:
  assumes "49 + r * 18 + t * 35 + s \<le> 256" "s = 0 \<or> s = 96"
  shows "49 + r * 18 + t * 35 + s \<le> (255 :: nat)"
proof (rule ccontr)
  assume "\<not> ?thesis"
  with assms(1) have e: "r * 18 + t * 35 + s = 207" by linarith
  then have "t < 6" and "r * 18 = 207 - s - t * 35" by linarith+
  then have m: "(207 - s - t * 35) mod 18 = 0" by (metis mod_mult_self2_is_0)
  from \<open>t < 6\<close>
  consider "t = 0" | "t = 1" | "t = 2" | "t = 3" | "t = 4" | "t = 5" by linarith
  then show False using assms(2) m e by cases auto
qed

lemma beacon_body:
  assumes "announce_serialize (build_announce r Announce_init) cap = Some b"
  obtains k t where "length b = 4 + k * 18 + t * 35" "4 + k * 18 + t * 35 \<le> cap"
proof -
  let ?a = "build_announce r Announce_init"
  have hc: "a_has_caps ?a" by (simp add: build_announce_def Announce_init_def)
  have h: "announce_hdr_len True = 4" by (simp add: announce_hdr_len_def announce_sizes)
  have b: "b = announce_bytes True (a_caps ?a) (fit_reports ?a cap) (fit_routes ?a cap)" "4 \<le> cap"
    using assms hc h by (simp_all add: announce_serialize_iff)
  from fit_bounds [of ?a cap] hc h b(2) that show thesis
    by (simp add: b(1) length_announce_bytes announce_sizes)
qed

lemma frame_ok_beacon:
  assumes "sig_len cr" "length (g_pk n) = 32"
  shows "frame_ok (beacon_frame cr now n)"
proof -
  define s where "s = (if g_have_key n then 96 else 0 :: nat)"
  define body where "body = (case announce_serialize (build_announce (g_router n) Announce_init) (211 - s) of None \<Rightarrow> [] | Some b \<Rightarrow> b)"
  have b: "45 + length body + s \<le> 255"
  proof (cases "announce_serialize (build_announce (g_router n) Announce_init) (211 - s)")
    case (Some b)
    obtain k t where "length b = 4 + k * 18 + t * 35" "4 + k * 18 + t * 35 \<le> 211 - s" using Some by (rule beacon_body)
    moreover have "s = 0 \<or> s = 96" by (simp add: s_def)
    ultimately show ?thesis using beacon_not_full [of k t s] Some by (auto simp: body_def)
  qed (simp add: body_def s_def)
  let ?sig = "if g_have_key n then case announce_sign (ed_sign cr) body (g_pk n) (g_sk n) of None \<Rightarrow> replicate ANNOUNCE_SIG_TAIL 0 | Some t \<Rightarrow> t else []"
  have "length ?sig = s" using assms by (simp add: announce_sign_def ANNOUNCE_SIG_TAIL_def sig_len_def s_def)
  moreover have "length (beacon_frame cr now n) = 45 + length body + length ?sig"
  proof -
    have c: "TX_FRAME_MAX - (HEADER_BYTES + BEACON_PAYLOAD_BYTES) - (if g_have_key n then ANNOUNCE_SIG_TAIL else 0) = 211 - s"
      by (simp add: frame_sizes ANNOUNCE_SIG_TAIL_def s_def)
    show ?thesis
      unfolding beacon_frame_def Let_def c body_def [symmetric] length_mk_frame length_append length_put_beacon_payload
      by (simp only: HEADER_BYTES_def)
  qed
  ultimately show ?thesis using b by (simp add: frame_ok_def frame_sizes)
qed

lemma node_inv_send_beacon [inv_intros]: "node_inv cr n \<Longrightarrow> sig_len cr \<Longrightarrow> node_inv cr (send_beacon cr now n)"
  using tx_inv_push [OF node_invD(1) frame_ok_beacon, of cr n cr n now]
  by (auto simp: send_beacon_def node_inv_part(2) node_invD split: prod.splits)

section \<open>What goes on the air\<close>

lemma frame_in_place [simp]:
  "link_of (mk_frame l h p) = l" "set_link l' (mk_frame l h p) = mk_frame l' h p"
  "set_ttl t (mk_frame l h p) = mk_frame l (h\<lparr>nh_ttl := t\<rparr>) p"
  by (simp_all add: link_of_def set_link_def set_ttl_def mk_frame_def put_link_def put_net_def)

text \<open>A unicast frame enters the queue once; toward a known link it carries a fresh sequence number and asks for an
  acknowledgement, and a copy is kept for retransmission while a slot is free.\<close>

lemma tx_unicast_queued:
  assumes "txq_ok (g_txq n)" "txq_count (g_txq n) < TXQ_DEPTH" "length p \<le> 214"
  shows "txq_contents (g_txq (tx_unicast now (mk_frame l h p) nh n)) = txq_contents (g_txq n) @
    [mk_frame (if lh_next_hop l = LINK_ADDR_BROADCAST then l
       else l\<lparr>lh_link_seq := fst (next_seq (g_arq n)), lh_flags := lh_flags l OR LINK_FLAG_ACK_REQ\<rparr>) h p]"
proof -
  have "fst (txq_push f (g_txq n)) = (length f \<le> TX_FRAME_MAX)" for f
    using assms by (simp add: txq.push_accepts) (simp add: txq_contents_def)
  then show ?thesis using assms(3) txq.push_contents [OF assms(1)]
    by (auto simp: tx_unicast_def txq_put_def Let_def frame_sizes split: prod.splits)
qed

lemma tx_unicast_arq:
  "g_arq (tx_unicast now (mk_frame l h p) nh n) =
     (if lh_next_hop l = LINK_ADDR_BROADCAST then g_arq n
      else snd (track (snd (next_seq (g_arq n))) (fst (next_seq (g_arq n))) nh
        (mk_frame (l\<lparr>lh_link_seq := fst (next_seq (g_arq n)), lh_flags := lh_flags l OR LINK_FLAG_ACK_REQ\<rparr>) h p) now ARQ_TIMEOUT_MS ARQ_MAX_RETRIES))"
  by (simp add: tx_unicast_def txq_put_def Let_def case_prod_unfold)

text \<open>C13. Forwarding changes the hop, never the packet. A received frame of at most 255 bytes that is forwarded while the
  queue has room is queued once, with the payload, source, destination, packet id and type it arrived with, the TTL the
  relay decided, the two link aliases of the next hop and, when that link has an alias, a fresh sequence number and the
  request for an acknowledgement; without an alias it is broadcast unacknowledged and the retransmission state is left
  alone. A directed frame is kept, byte for byte as it was queued, in a retransmission slot that was free, with all its
  retries and the first timeout running; when all four slots are taken it goes out untracked and they stay as they are.\<close>

theorem forward_preserves_packet:
  assumes "frame_hdr buf = Some (Some (l, h))" "length buf \<le> 255" "txq_ok (g_txq n)" "txq_count (g_txq n) < TXQ_DEPTH"
    and "na = link_addr_for (g_router n) nxt" "directed \<longleftrightarrow> na \<noteq> LINK_ADDR_NONE \<and> na \<noteq> LINK_ADDR_BROADCAST"
    and "n' = forward_frame now buf nxt t n"
    and "fr = mk_frame \<lparr>lh_prev_hop = router_my_alias_for (g_router n) nxt,
        lh_next_hop = (if na = LINK_ADDR_NONE then LINK_ADDR_BROADCAST else na),
        lh_link_seq = (if directed then fst (next_seq (g_arq n)) else lh_link_seq l),
        lh_flags = (if directed then LINK_FLAG_ACK_REQ else 0)\<rparr>
      (h\<lparr>nh_ttl := t\<rparr>) (drop HEADER_BYTES buf)"
  shows "txq_contents (g_txq n') = txq_contents (g_txq n) @ [fr]
    \<and> (\<not> directed \<longrightarrow> g_arq n' = g_arq n)
    \<and> (directed \<and> (\<exists>p\<in>set (aq_slots (g_arq n)). \<not> pd_used p) \<longrightarrow>
        (\<exists>i<length (aq_slots (g_arq n)). \<not> pd_used (aq_slots (g_arq n) ! i)
          \<and> aq_slots (g_arq n') = (aq_slots (g_arq n))[i := \<lparr>pd_used = True, pd_seq = fst (next_seq (g_arq n)), pd_next_hop = nxt,
              pd_retries_left = ARQ_MAX_RETRIES, pd_next_tx_ms = now + ARQ_TIMEOUT_MS, pd_timeout_ms = ARQ_TIMEOUT_MS, pd_frame = fr\<rparr>]))
    \<and> (directed \<and> (\<forall>p\<in>set (aq_slots (g_arq n)). pd_used p) \<longrightarrow> aq_slots (g_arq n') = aq_slots (g_arq n))"
proof -
  define p where "p = drop HEADER_BYTES buf"
  define l' where "l' = l\<lparr>lh_prev_hop := router_my_alias_for (g_router n) nxt, lh_next_hop := link_addr_or_bcast na, lh_flags := 0\<rparr>"
  have b: "buf = mk_frame l h p" using frame_hdr_reencode [OF assms(1)] by (simp add: p_def)
  then have p: "length p \<le> 214" using assms(2) by (simp add: HEADER_BYTES_def)
  have n': "n' = tx_unicast now (mk_frame l' (h\<lparr>nh_ttl := t\<rparr>) p) nxt n"
    using assms(2,5,7) by (simp add: b forward_frame_def Let_def l'_def TX_FRAME_MAX_def)
  have dir: "lh_next_hop l' = LINK_ADDR_BROADCAST \<longleftrightarrow> \<not> directed" using assms(6) by (simp add: l'_def link_addr_or_bcast_def)
  have fr: "mk_frame (if lh_next_hop l' = LINK_ADDR_BROADCAST then l'
       else l'\<lparr>lh_link_seq := fst (next_seq (g_arq n)), lh_flags := lh_flags l' OR LINK_FLAG_ACK_REQ\<rparr>) (h\<lparr>nh_ttl := t\<rparr>) p = fr"
    unfolding assms(8) p_def [symmetric] dir by (cases l) (auto simp: l'_def link_addr_or_bcast_def)
  have len: "length fr \<le> ARQ_FRAME_MAX" using p fr [symmetric] by (simp add: ARQ_FRAME_MAX_def HEADER_BYTES_def)
  have "txq_contents (g_txq n') = txq_contents (g_txq n) @ [fr]"
    unfolding n' tx_unicast_queued [OF assms(3,4) p] fr ..
  moreover have "g_arq n' = (if directed then snd (track (snd (next_seq (g_arq n))) (fst (next_seq (g_arq n))) nxt fr now ARQ_TIMEOUT_MS ARQ_MAX_RETRIES)
      else g_arq n)"
    unfolding n' tx_unicast_arq using fr dir by (simp split: if_splits)
  ultimately show ?thesis using track_slots [OF len refl, of "snd (next_seq (g_arq n))"] by simp
qed

definition demo_frame :: bytes where
  "demo_frame = mk_frame \<lparr>lh_prev_hop = 3, lh_next_hop = 4, lh_link_seq = 9, lh_flags = 1\<rparr>
     \<lparr>nh_ver_type = net_ver_type PKT_DATA, nh_flags = 0, nh_ttl = 16, nh_dst = nid_from_u32 2, nh_src = nid_from_u32 3, nh_pkt_id = 7\<rparr> [1, 2, 3]"

definition demo_cfg :: radio_cfg where
  "demo_cfg = \<lparr>rc_freq_hz = 910525000, rc_bw_hz = 62500, rc_sf = 7, rc_cr = 5, rc_power_dbm = 22, rc_sync = 0x12, rc_preamble = 16\<rparr>"

definition ConState_init :: con_state where
  "ConState_init = \<lparr>co_kiss = KissDecoder_init, co_frame = [], co_in_frame = False, co_esc = False, co_line = []\<rparr>"

definition flash_empty :: flash where
  "flash_empty = \<lparr>fs_rf = None, fs_ctrl = None, fs_ble = None, fs_batt = None, fs_kiss = None, fs_node = None, fs_net = None, fs_key = None\<rparr>"

text \<open>The static variables as the program starts, with an empty flash and the radio listening with \<open>cfg\<close>: the identity is that of
  \<^verbatim>\<open>node_key_init\<close>.\<close>

definition node_boot :: "node_id \<Rightarrow> bytes \<Rightarrow> bytes \<Rightarrow> radio_cfg \<Rightarrow> node" where
  "node_boot me pk sk cfg = \<lparr>g_my_id = me, g_router = Router_init me, g_forwarder = Forwarder_init me, g_arq = LinkArq_init,
     g_ver_stats = VersionStats_init,
     g_radio = \<lparr>hs_state = RX, hs_pend = [], hs_cad_tries = 0, hs_next_cad_ms = 0, hs_cad_enabled = True, hs_cad_busy_count = 0,
       hs_cad_forced_count = 0, hs_rx_count = 0, hs_tx_count = 0, hs_rx_err_count = 0, hs_dio1 = False, hs_cfg = cfg\<rparr>,
     g_txq = TxQueue_init, g_beacon_seq = 0, g_data_seq = 0, g_boot_ms = 0, g_have_key = True, g_pk = pk, g_sk = sk,
     g_fw = [100, 101, 118], g_rf_work = cfg, g_batt_scale = 0, g_batt_mv = 0, g_next_batt_ms = 0, g_mobile = False, g_name = [],
     g_ble = False, g_ble_advertising = False, g_ble_connected = False, g_ble_inited = False, g_ble_pin = replicate 6 0x30,
     g_ble_con = ConState_init, g_trace = False, g_tunnel_mode = False, g_kiss_mode = False, g_kiss_dst = nid_zero, g_con = ConState_init,
     g_beacon_cfg = 0, g_next_beacon_ms = 0, g_next_arq_ms = 0, g_next_tick_ms = 0, g_reboot_at = 0,
     g_id_table = NodeTable_init, g_ann_cache = replicate ANN_CACHE_CAP AnnEntry_init, g_telem = TelemCache_init,
     g_last_status_ms = 0, g_next_batt_flood_ms = 0,
     g_loc = \<lparr>ls_dir = LocatorDir_init, ls_res = LocatorResolver_init, ls_epoch = 0, ls_seq = 0, ls_pktid = 0, ls_next_rereg_ms = 0,
       ls_burst_left = 0, ls_burst_ms = 0, ls_my_regs = replicate 4 None,
       ls_seen = (replicate LOC_SEEN_CAP \<lparr>se_src = nid_zero, se_pkt_id = 0, se_used = False\<rparr>, 0)\<rparr>,
     g_ctrl = \<lparr>cs_have_key = False, cs_pubkey = replicate 32 0, cs_counter = 0, cs_revert_dbm = 0, cs_pending_dbm = 0,
       cs_revert_ms = 0, cs_power_managed = False, cs_contact_ms = 0,
       cs_blk = replicate MAX_BLOCKED \<lparr>bt_victim = nid_zero, bt_expiry_ms = 0\<rparr>\<rparr>,
     g_xfer = \<lparr>xs_buf = [], xs_crc = 0, xs_xfer_id = 0, xs_tx_active = False, xs_tx_dst = nid_zero, xs_tx_idx = 0, xs_tx_count = 0,
       xs_rx = SarReassembler_init, xs_quiet_until = 0, xs_resend = [], xs_resend_idx = 0, xs_resend_active = False,
       xs_rx_sender = nid_zero, xs_rx_last_ms = 0, xs_rx_last_xfer = 0xFFFF, xs_nack_rounds = 0, xs_nack_jit = 0, xs_done_sent = 0xFFFF,
       xs_tx_done_ms = 0, xs_tq = replicate 4 (nid_zero, []), xs_tq_head = 0, xs_tq_count = 0\<rparr>,
     g_flash = flash_empty, g_out = []\<rparr>"

lemma boot_inv: "length pk = 32 \<Longrightarrow> node_inv cr (node_boot me pk sk cfg)"
proof -
  have "ro_my_id (Router_init me) = me" "fw_me (Forwarder_init me) = me" by (simp_all add: Router_init_def Forwarder_init_def)
  moreover have "nd_bound h NodeTable_init" for h by (simp add: nd_bound_def NodeTable_init_def Nslot_init_def)
  moreover have "arq_inv LinkArq_init \<and> (\<forall>p\<in>set (aq_slots LinkArq_init). \<not> pd_used p)"
    by (simp add: arq_inv_def LinkArq_init_def Pending_init_def)
  moreover have "cache_inv (replicate ANN_CACHE_CAP AnnEntry_init) TelemCache_init"
    by (simp add: cache_inv_def AnnEntry_init_def anc.distinct_replicate TelemCache_init_def tlc.distinct_replicate)
  ultimately show "length pk = 32 \<Longrightarrow> ?thesis"
    by (simp add: node_inv_def node_boot_def tx_inv_def txq_ok_init hal_wf_def inflight_def route_inv_def router_inv_init
        fw_inv_init loc_inv_def ld_inv_init rv_inv_init ring_ok_def LOC_SEEN_CAP_def id_inv_def nd_inv_init xfer_inv_def
        sar_inv_init tq_ok_def blk_inv_def blk_live_def)
qed

lemma boot_txq: "g_txq (node_boot me pk sk cfg) = TxQueue_init"
  by (simp add: node_boot_def)

theorem forward_preserves_packet_witness:
  "length (txq_contents (g_txq (forward_frame 5 demo_frame (nid_from_u32 2) 15 (node_boot (nid_from_u32 1) (replicate 32 0) [] demo_cfg)))) = 1"
proof -
  have "frame_hdr demo_frame = Some (Some (\<lparr>lh_prev_hop = 3, lh_next_hop = 4, lh_link_seq = 9, lh_flags = 1\<rparr>,
     \<lparr>nh_ver_type = net_ver_type PKT_DATA, nh_flags = 0, nh_ttl = 16, nh_dst = nid_from_u32 2, nh_src = nid_from_u32 3, nh_pkt_id = 7\<rparr>))"
    unfolding demo_frame_def by (rule frame_hdr_mk)
  moreover have "length demo_frame \<le> 255" by (simp add: demo_frame_def HEADER_BYTES_def)
  moreover have "txq_count TxQueue_init < TXQ_DEPTH" by (simp add: TxQueue_init_def TXQ_DEPTH_def)
  ultimately show ?thesis using forward_preserves_packet [OF _ _ _ _ refl refl refl refl] by (simp add: boot_txq txq_ok_init)
qed

end
