(* ===== verification/Node_Services.thy ===== *)
theory Node_Services
  imports Node
begin

text \<open>
  The services of \<^verbatim>\<open>src/main.cpp\<close> that ride on floods: the locator directory (REGISTER, QUERY, REPLY) and the
  sparse telemetry (battery floods, status queries and replies). A handler returns \<open>None\<close> for a read outside the
  received frame.
\<close>

section \<open>Locator directory\<close>

definition set_dir :: "locator_dir \<Rightarrow> node \<Rightarrow> node" where
  "set_dir d n = n\<lparr>g_loc := (g_loc n)\<lparr>ls_dir := d\<rparr>\<rparr>"

definition set_res :: "locator_resolver \<Rightarrow> node \<Rightarrow> node" where
  "set_res v n = n\<lparr>g_loc := (g_loc n)\<lparr>ls_res := v\<rparr>\<rparr>"

text \<open>The slot of the local registrations that \<^verbatim>\<open>loc_register\<close> writes: the one that holds the id, else the first
  free one.\<close>

definition reg_slot :: "bytes \<Rightarrow> bytes option list \<Rightarrow> nat option" where
  "reg_slot i regs = (case find_idx (\<lambda>r. r = Some i) regs of
     Some k \<Rightarrow> Some k
   | None \<Rightarrow> find_idx (\<lambda>r. r = None) regs)"

text \<open>\<^verbatim>\<open>micros()\<close>, the entropy of the per-boot epoch, is an argument.\<close>

definition loc_register :: "u32 \<Rightarrow> u32 \<Rightarrow> bytes \<Rightarrow> node \<Rightarrow> node" where
  "loc_register now micros i n =
     (if length i = 0 \<or> LOC_ID_MAX < length i then n
      else
        let l = g_loc n;
            e = (ucast (micros XOR nid_fold (g_my_id n)) :: u16);
            epoch = (if ls_epoch l = 0 then if e = 0 then 1 else e else ls_epoch l);
            seq = ls_seq l + 1;
            regs = (case reg_slot i (ls_my_regs l) of None \<Rightarrow> ls_my_regs l | Some k \<Rightarrow> (ls_my_regs l)[k := Some i]);
            dir = snd (upsert (ls_dir l) i (g_my_id n) epoch seq LOC_TTL_S now);
            n = n\<lparr>g_loc := l\<lparr>ls_epoch := epoch, ls_seq := seq, ls_my_regs := regs, ls_dir := dir\<rparr>\<rparr>
        in case loc_build_register epoch seq LOC_TTL_S i (8 + LOC_ID_MAX) of
             None \<Rightarrow> n
           | Some msg \<Rightarrow> send_loc_flood msg LOC_FLOOD_TTL PKT_LOC n)"

definition loc_resolve :: "u32 \<Rightarrow> bytes \<Rightarrow> node \<Rightarrow> node" where
  "loc_resolve now i n =
     (let (hit, d) = loc_lookup (ls_dir (g_loc n)) i now; n = set_dir d n in
      case hit of
        Some loc \<Rightarrow> emit (Loc_line i loc) n
      | None \<Rightarrow>
          (let (qid, v) = rv_begin (ls_res (g_loc n)) i now LOC_RESOLVE_MS; n = set_res v n in
           if qid = 0 then emit Loc_busy n
           else case loc_build_query qid i (4 + LOC_ID_MAX) of
             None \<Rightarrow> n
           | Some msg \<Rightarrow> send_loc_flood msg LOC_FLOOD_TTL PKT_LOC n))"

definition loc_dirdump :: "u32 \<Rightarrow> node \<Rightarrow> node" where
  "loc_dirdump now n =
     foldl (\<lambda>n v. emit (Dir_line (lv_id v) (lv_loc v) (lv_ttl_s v)) n) n (loc_snapshot (ls_dir (g_loc n)) LOC_DIR_CAP now)"

definition loc_push_notify :: "bytes \<Rightarrow> node_id \<Rightarrow> node \<Rightarrow> node" where
  "loc_push_notify i loc n = emit (Loc_line i loc) n"

definition loc_dump_to_client :: "u32 \<Rightarrow> node \<Rightarrow> node" where
  "loc_dump_to_client now n =
     foldl (\<lambda>n v. if Some (lv_id v) \<in> set (ls_my_regs (g_loc n)) then n else emit (Loc_line (lv_id v) (lv_loc v)) n) n
       (loc_snapshot (ls_dir (g_loc n)) LOC_DIR_CAP now)"

text \<open>The relay step shared by the unicast branches of the handlers: what the forwarder decides for the frame.\<close>

definition pkt_ref :: "net_header \<Rightarrow> packet_ref" where
  "pkt_ref net = \<lparr>pr_src = nh_src net, pr_dst = nh_dst net, pr_pkt_id = nh_pkt_id net, pr_ttl = nh_ttl net\<rparr>"

definition relay_decide :: "net_header \<Rightarrow> node \<Rightarrow> decision \<times> node" where
  "relay_decide net n =
     (let (d, f) = decide (next_hop (g_router n)) (g_forwarder n) (pkt_ref net) in (d, n\<lparr>g_forwarder := f\<rparr>))"

definition relay_unicast :: "u32 \<Rightarrow> bytes \<Rightarrow> link_header \<Rightarrow> decision \<Rightarrow> node \<Rightarrow> node" where
  "relay_unicast now buf lh d n =
     (if d_action d = FORWARD \<and> lh_next_hop lh \<noteq> LINK_ADDR_BROADCAST
      then forward_frame now buf (d_next_hop d) (d_out_ttl d) n else n)"

definition reflood :: "bytes \<Rightarrow> net_header \<Rightarrow> node \<Rightarrow> node" where
  "reflood buf net n = (if 1 < nh_ttl net then loc_reflood buf (nh_ttl net - 1) n else n)"

definition loc_on_register :: "u32 \<Rightarrow> loc_msg \<Rightarrow> node_id \<Rightarrow> node \<Rightarrow> node" where
  "loc_on_register now m src n =
     (let (prev, d) = lookup_full (ls_dir (g_loc n)) (lm_id m) now;
          (ok, d) = upsert d (lm_id m) src (lm_epoch m) (lm_seq m) (lm_ttl_s m) now;
          n = set_dir d n
      in if ok \<and> (case prev of None \<Rightarrow> True | Some b \<Rightarrow> lb_loc b \<noteq> src) then loc_push_notify (lm_id m) src n else n)"

definition loc_on_query :: "u32 \<Rightarrow> loc_msg \<Rightarrow> node_id \<Rightarrow> node \<Rightarrow> node" where
  "loc_on_query now m src n =
     (let (b, d) = lookup_full (ls_dir (g_loc n)) (lm_id m) now; n = set_dir d n in
      case b of
        None \<Rightarrow> n
      | Some b \<Rightarrow>
          (case loc_build_reply (lm_qid m) (lb_epoch b) (lb_seq b) (lb_ttl_s b) (lb_loc b) (lm_id m) (14 + LOC_ID_MAX) of
             None \<Rightarrow> n
           | Some r \<Rightarrow> send_loc_unicast now src r PKT_LOC n))"

definition loc_on_reply :: "u32 \<Rightarrow> loc_msg \<Rightarrow> node \<Rightarrow> node" where
  "loc_on_reply now m n =
     (let d = snd (upsert (ls_dir (g_loc n)) (lm_id m) (lm_loc m) (lm_epoch m) (lm_seq m) (lm_ttl_s m) now);
          v = snd (rv_on_reply (ls_res (g_loc n)) (lm_qid m))
      in loc_push_notify (lm_id m) (lm_loc m) (set_res v (set_dir d n)))"

definition on_loc_rx :: "u32 \<Rightarrow> bytes \<Rightarrow> net_header \<Rightarrow> link_header \<Rightarrow> node \<Rightarrow> node option" where
  "on_loc_rx now buf net lh n = do {
     r \<leftarrow> loc_parse (drop HEADER_BYTES buf);
     case r of
       None \<Rightarrow> Some n
     | Some m \<Rightarrow>
         if nh_dst net = NODE_ID_BROADCAST then
           if loc_flood_seen (nh_src net) (nh_pkt_id net) n then Some n
           else
             let n = loc_flood_mark (nh_src net) (nh_pkt_id net) n;
                 n = (if lm_kind m = LOC_REGISTER then loc_on_register now m (nh_src net) n
                      else if lm_kind m = LOC_QUERY then loc_on_query now m (nh_src net) n
                      else n)
             in Some (reflood buf net n)
         else
           let (d, n) = relay_decide net n in
           if d_action d = DELIVER then Some (if lm_kind m = LOC_REPLY then loc_on_reply now m n else n)
           else Some (relay_unicast now buf lh d n) }"

section \<open>Telemetry\<close>

definition TELEM_BATT_PERIOD_MS :: u32 where "TELEM_BATT_PERIOD_MS = 6 * 3600 * 1000"
definition STATUS_REPLY_COOLDOWN_MS :: u32 where "STATUS_REPLY_COOLDOWN_MS = 30000"

definition telem_flood_batt :: "u32 \<Rightarrow> node \<Rightarrow> node" where
  "telem_flood_batt now n =
     (if g_batt_scale n \<le> 0 then n
      else
        let mv = g_batt_mv n; pct1 = batt_pct mv + 1;
            n = (case telem_build_batt mv pct1 8 of None \<Rightarrow> n | Some m \<Rightarrow> send_loc_flood m DEFAULT_TTL PKT_TELEM n)
        in n\<lparr>g_telem := telem_upsert (g_telem n) (g_my_id n) mv pct1 now\<rparr>)"

definition q_pct :: "float32 \<Rightarrow> u8" where
  "q_pct q = (if 0 < q then word_of_int (ftrunc (fmul q 100)) else 0)"

definition status_nbr :: "ann_entry list \<Rightarrow> neighbor \<Rightarrow> telem_nbr" where
  "status_nbr cache nb =
     (let ac = ann_cache_find (n_id nb) cache in
      \<lparr>tn_id = n_id nb, tn_q_rx = q_pct (n_q_rx nb), tn_q_tx = q_pct (n_q_tx nb),
       tn_snr = (case ac of None \<Rightarrow> 0 | Some c \<Rightarrow> word_of_int (ftrunc (ac_snr c))),
       tn_rssi = (case ac of None \<Rightarrow> 0 | Some c \<Rightarrow> word_of_int (ftrunc (ac_rssi c)))\<rparr>)"

definition status_nbrs :: "node \<Rightarrow> telem_nbr list" where
  "status_nbrs n = map (status_nbr (g_ann_cache n)) (take TELEM_NBR_MAX (filter n_used (nt_slots (ro_neighbors (g_router n)))))"

definition STATUS_BUF :: nat where
  "STATUS_BUF = 10 + TELEM_FW_MAX + 1 + TELEM_NAME_MAX + 1 + TELEM_NBR_MAX * 21"

definition status_reply :: "u32 \<Rightarrow> node \<Rightarrow> bytes option" where
  "status_reply now n =
     (let flags = (if g_mobile n then TELEM_FLAG_MOBILE else 0) OR (if g_ble_advertising n then TELEM_FLAG_BLE else 0);
          cfg = hs_cfg (g_radio n)
      in telem_build_reply (g_batt_mv n) (batt_pct_plus1 n) (ucast ((now - g_boot_ms n) div 60000)) (rc_power_dbm cfg) (rc_sf cfg)
           flags (g_fw n) (g_name n) (status_nbrs n) STATUS_BUF)"

definition telem_on_query :: "u32 \<Rightarrow> node_id \<Rightarrow> node \<Rightarrow> node" where
  "telem_on_query now src n =
     (if sint STATUS_REPLY_COOLDOWN_MS \<le> sint (now - g_last_status_ms n) then
        let n = n\<lparr>g_last_status_ms := now\<rparr>
        in (case status_reply now n of None \<Rightarrow> n | Some r \<Rightarrow> send_loc_unicast now src r PKT_TELEM n)
      else n)"

definition telem_print_status :: "node_id \<Rightarrow> telem_msg \<Rightarrow> node \<Rightarrow> node" where
  "telem_print_status origin m n = emit (Status_line origin m) n"

definition on_telem_rx :: "u32 \<Rightarrow> bytes \<Rightarrow> net_header \<Rightarrow> link_header \<Rightarrow> node \<Rightarrow> node option" where
  "on_telem_rx now buf net lh n = do {
     r \<leftarrow> telem_parse (drop HEADER_BYTES buf);
     case r of
       None \<Rightarrow> Some n
     | Some m \<Rightarrow>
         if nh_dst net = NODE_ID_BROADCAST then
           if loc_flood_seen (nh_src net) (nh_pkt_id net) n then Some n
           else
             let n = loc_flood_mark (nh_src net) (nh_pkt_id net) n;
                 n = (if tm_kind m = TELEM_BATT
                      then n\<lparr>g_telem := telem_upsert (g_telem n) (nh_src net) (tm_mv m) (tm_pct_plus1 m) now\<rparr>
                      else if tm_kind m = TELEM_QUERY \<and> tm_target m = g_my_id n then telem_on_query now (nh_src net) n
                      else n)
             in Some (reflood buf net n)
         else
           let (d, n) = relay_decide net n in
           if d_action d = DELIVER then
             Some (if tm_kind m = TELEM_REPLY
                   then telem_print_status (nh_src net) m
                          (n\<lparr>g_telem := telem_upsert (g_telem n) (nh_src net) (tm_mv m) (tm_pct_plus1 m) now\<rparr>)
                   else n)
           else Some (relay_unicast now buf lh d n) }"

section \<open>The services keep the invariant\<close>

lemma node_inv_set_dir [inv_intros]: "node_inv cr n \<Longrightarrow> ld_inv d \<Longrightarrow> node_inv cr (set_dir d n)"
  using node_invD(6) [of cr n] by (simp add: set_dir_def node_inv_part(7) loc_inv_def)

lemma node_inv_set_res [inv_intros]: "node_inv cr n \<Longrightarrow> rv_inv v \<Longrightarrow> node_inv cr (set_res v n)"
  using node_invD(6) [of cr n] by (simp add: set_res_def node_inv_part(7) loc_inv_def)

lemma node_dir: "node_inv cr n \<Longrightarrow> ld_inv (ls_dir (g_loc n))" "node_inv cr n \<Longrightarrow> rv_inv (ls_res (g_loc n))"
  using node_invD(6) [of cr n] by (simp_all add: loc_inv_def)

lemma loc_build_small:
  "loc_build_register e s t i cap = Some b \<Longrightarrow> length b \<le> 214" "loc_build_query q i cap = Some b \<Longrightarrow> length b \<le> 214"
  by (auto simp: loc_build_register_def loc_build_query_def loc_id_ok_def LOC_ID_MAX_def split: if_splits)

lemma loc_inv_register:
  assumes "loc_inv l" "loc_id_ok i" "ld_inv d"
  shows "loc_inv (l\<lparr>ls_epoch := e, ls_seq := s,
    ls_my_regs := (case reg_slot i (ls_my_regs l) of None \<Rightarrow> ls_my_regs l | Some k \<Rightarrow> (ls_my_regs l)[k := Some i]), ls_dir := d\<rparr>)"
  using assms by (auto simp: loc_inv_def dest!: subsetD [OF set_update_subset_insert] split: option.splits)

lemma node_inv_loc_register [inv_intros]: "node_inv cr n \<Longrightarrow> node_inv cr (loc_register now us i n)"
proof (cases "loc_id_ok i")
  case True
  assume n: "node_inv cr n"
  define e where "e = (if ls_epoch (g_loc n) = 0 then if (ucast (us XOR nid_fold (g_my_id n)) :: u16) = 0 then 1
    else ucast (us XOR nid_fold (g_my_id n)) else ls_epoch (g_loc n))"
  define l where "l = (g_loc n)\<lparr>ls_epoch := e, ls_seq := ls_seq (g_loc n) + 1,
    ls_my_regs := (case reg_slot i (ls_my_regs (g_loc n)) of None \<Rightarrow> ls_my_regs (g_loc n) | Some k \<Rightarrow> (ls_my_regs (g_loc n))[k := Some i]),
    ls_dir := snd (upsert (ls_dir (g_loc n)) i (g_my_id n) e (ls_seq (g_loc n) + 1) LOC_TTL_S now)\<rparr>"
  have "loc_inv l" unfolding l_def using node_invD(6) [OF n] True ld_inv_upsert [OF node_dir(1) [OF n]] by (rule loc_inv_register)
  then have m: "node_inv cr (n\<lparr>g_loc := l\<rparr>)" by (rule node_inv_part(7) [OF n])
  have "loc_register now us i n = (case loc_build_register e (ls_seq (g_loc n) + 1) LOC_TTL_S i (8 + LOC_ID_MAX) of
      None \<Rightarrow> n\<lparr>g_loc := l\<rparr> | Some msg \<Rightarrow> send_loc_flood msg LOC_FLOOD_TTL PKT_LOC (n\<lparr>g_loc := l\<rparr>))"
    using True by (simp only: loc_register_def loc_id_ok_def Let_def l_def e_def if_False)
  then show ?thesis using m by (auto dest: loc_build_small intro: node_inv_send_loc_flood split: option.split)
qed (auto simp: loc_register_def loc_id_ok_def)

lemma node_inv_loc_resolve [inv_intros]: "node_inv cr n \<Longrightarrow> node_inv cr (loc_resolve now i n)"
proof -
  assume n: "node_inv cr n"
  obtain hit d where l: "loc_lookup (ls_dir (g_loc n)) i now = (hit, d)" by (cases "loc_lookup (ls_dir (g_loc n)) i now")
  have m: "node_inv cr (set_dir d n)"
    using ld_inv_lookup(1) [OF node_dir(1) [OF n], of i now] l n by (simp add: inv_intros)
  obtain q v where b: "rv_begin (ls_res (g_loc (set_dir d n))) i now LOC_RESOLVE_MS = (q, v)"
    by (cases "rv_begin (ls_res (g_loc (set_dir d n))) i now LOC_RESOLVE_MS")
  have "node_inv cr (set_res v (set_dir d n))"
    using rv_inv_begin [OF node_dir(2) [OF m], of i now LOC_RESOLVE_MS] b m by (simp add: inv_intros)
  then show ?thesis using m l b
    by (auto simp: loc_resolve_def Let_def dest: loc_build_small intro!: node_inv_send_loc_flood split: option.splits)
qed

lemma node_inv_relay_decide [inv_intros]: "node_inv cr n \<Longrightarrow> node_inv cr (snd (relay_decide net n))"
proof -
  assume n: "node_inv cr n"
  have "fw_inv (snd (decide (next_hop (g_router n)) (g_forwarder n) (pkt_ref net)))
    \<and> fw_me (snd (decide (next_hop (g_router n)) (g_forwarder n) (pkt_ref net))) = g_my_id n"
    using node_invD(4,5) [OF n] fw_inv_mark_seen [of "g_forwarder n"] by (simp add: decide_snd mark_seen_def)
  then show ?thesis using n by (auto simp: relay_decide_def node_inv_part(6) split: prod.splits)
qed

lemma node_inv_relay_unicast [inv_intros]:
  "node_inv cr n \<Longrightarrow> frame_ok buf \<Longrightarrow> node_inv cr (relay_unicast now buf lh d n)"
  by (simp add: relay_unicast_def inv_intros)

lemma node_inv_reflood [inv_intros]: "node_inv cr n \<Longrightarrow> frame_ok buf \<Longrightarrow> node_inv cr (reflood buf net n)"
  by (simp add: reflood_def inv_intros)

lemma node_inv_loc_push_notify [simp]: "node_inv cr (loc_push_notify i loc n) = node_inv cr n"
  by (simp add: loc_push_notify_def)

lemma node_inv_loc_on_register [inv_intros]: "node_inv cr n \<Longrightarrow> node_inv cr (loc_on_register now m src n)"
proof -
  assume n: "node_inv cr n"
  have "ld_inv (snd (upsert (snd (lookup_full (ls_dir (g_loc n)) (lm_id m) now)) (lm_id m) src (lm_epoch m) (lm_seq m) (lm_ttl_s m) now))"
    using node_dir(1) [OF n] by (simp add: inv_intros)
  then show ?thesis using n by (simp add: loc_on_register_def case_prod_unfold Let_def inv_intros)
qed

lemma node_inv_loc_on_query [inv_intros]: "node_inv cr n \<Longrightarrow> node_inv cr (loc_on_query now m src n)"
proof -
  assume n: "node_inv cr n"
  have "ld_inv (snd (lookup_full (ls_dir (g_loc n)) (lm_id m) now))" using node_dir(1) [OF n] by (simp add: inv_intros)
  then show ?thesis using n by (auto simp: loc_on_query_def case_prod_unfold Let_def intro!: inv_intros split: option.splits)
qed

lemma node_inv_loc_on_reply [inv_intros]: "node_inv cr n \<Longrightarrow> node_inv cr (loc_on_reply now m n)"
  by (simp add: loc_on_reply_def Let_def inv_intros node_dir)

lemma on_loc_rx_keeps:
  assumes "node_inv cr n" "frame_ok buf"
  shows "\<exists>n'. on_loc_rx now buf net lh n = Some n' \<and> node_inv cr n'"
proof -
  obtain r where r: "loc_parse (drop HEADER_BYTES buf) = Some r" using loc_parse_total by blast
  show ?thesis using assms
    by (auto simp: on_loc_rx_def r case_prod_unfold Let_def intro!: inv_intros split: option.splits)
qed

lemma node_inv_telem_upsert [inv_intros]:
  "node_inv cr n \<Longrightarrow> node_inv cr (n\<lparr>g_telem := telem_upsert (g_telem n) i mv p now\<rparr>)"
  by (simp add: node_inv_part(10) cache_inv_put node_invD)

lemma node_inv_telem_flood_batt [inv_intros]: "node_inv cr n \<Longrightarrow> node_inv cr (telem_flood_batt now n)"
  by (auto simp: telem_flood_batt_def telem_build_batt_def Let_def intro!: inv_intros)

lemma node_inv_telem_on_query [inv_intros]: "node_inv cr n \<Longrightarrow> node_inv cr (telem_on_query now src n)"
  by (auto simp: telem_on_query_def Let_def intro!: inv_intros split: option.splits)

lemma on_telem_rx_keeps:
  assumes "node_inv cr n" "frame_ok buf"
  shows "\<exists>n'. on_telem_rx now buf net lh n = Some n' \<and> node_inv cr n'"
proof -
  obtain r where r: "telem_parse (drop HEADER_BYTES buf) = Some r" using telem_parse_total by blast
  show ?thesis using assms
    by (auto simp: on_telem_rx_def r case_prod_unfold Let_def telem_print_status_def intro!: inv_intros split: option.splits)
qed

section \<open>The services leave the control state alone\<close>

lemma ctl_view_fields [simp]:
  "ctl_view (set_dir d n) = ctl_view n" "ctl_view (set_res v n) = ctl_view n" "ctl_view (n\<lparr>g_telem := t\<rparr>) = ctl_view n"
  "ctl_view (n\<lparr>g_last_status_ms := u\<rparr>) = ctl_view n" "ctl_view (n\<lparr>g_forwarder := f\<rparr>) = ctl_view n"
  "ctl_view (loc_push_notify i loc n) = ctl_view n"
  by (simp_all add: loc_push_notify_def) (simp_all add: ctl_view_def set_dir_def set_res_def)

lemma ctl_view_relay [simp]:
  "ctl_view (snd (relay_decide net n)) = ctl_view n" "ctl_view (relay_unicast now buf lh d n) = ctl_view n" "ctl_view (reflood buf net n) = ctl_view n"
  by (simp_all add: relay_decide_def relay_unicast_def reflood_def split: prod.split)

lemma ctl_view_loc [simp]:
  "ctl_view (loc_on_register now m src n) = ctl_view n" "ctl_view (loc_on_query now m src n) = ctl_view n"
  "ctl_view (loc_on_reply now m n) = ctl_view n" "ctl_view (telem_on_query now src n) = ctl_view n"
  "ctl_view (telem_print_status src tm n) = ctl_view n"
  by (simp_all add: loc_on_register_def loc_on_query_def loc_on_reply_def telem_on_query_def telem_print_status_def Let_def
      case_prod_unfold split: option.split)

lemma on_loc_rx_view: "on_loc_rx now buf net lh n = Some n' \<Longrightarrow> ctl_view n' = ctl_view n"
proof -
  obtain r where r: "loc_parse (drop HEADER_BYTES buf) = Some r" using loc_parse_total by blast
  show "on_loc_rx now buf net lh n = Some n' \<Longrightarrow> ctl_view n' = ctl_view n"
    by (cases r) (auto simp: on_loc_rx_def r Let_def case_prod_unfold split: if_splits)
qed

lemma on_telem_rx_view: "on_telem_rx now buf net lh n = Some n' \<Longrightarrow> ctl_view n' = ctl_view n"
proof -
  obtain r where r: "telem_parse (drop HEADER_BYTES buf) = Some r" using telem_parse_total by blast
  show "on_telem_rx now buf net lh n = Some n' \<Longrightarrow> ctl_view n' = ctl_view n"
    by (cases r) (auto simp: on_telem_rx_def r Let_def case_prod_unfold split: if_splits)
qed

section \<open>Replies\<close>

text \<open>A unicast message that fits is queued behind what is there.\<close>

lemma send_loc_unicast_queued:
  assumes "txq_ok (g_txq n)" "txq_count (g_txq n) < TXQ_DEPTH" "length msg \<le> 214"
  shows "\<exists>l h. txq_contents (g_txq (send_loc_unicast now dst msg pt n)) = txq_contents (g_txq n) @ [mk_frame l h msg]
    \<and> nh_dst h = dst \<and> nh_src h = g_my_id n \<and> nh_ver_type h = net_ver_type pt"
proof -
  let ?n = "n\<lparr>g_forwarder := mark_seen (g_forwarder n) (g_my_id n) (ls_pktid (g_loc n))\<rparr>"
  have "txq_ok (g_txq ?n)" "txq_count (g_txq ?n) < TXQ_DEPTH" using assms by simp_all
  from tx_unicast_queued [OF this assms(3)] show ?thesis using assms(3)
    by (simp add: send_loc_unicast_def Let_def frame_sizes bump_pktid_def) (metis net_header.select_convs(1,4,5))
qed

lemma send_loc_unicast_too_long: "214 < length msg \<Longrightarrow> send_loc_unicast now dst msg pt n = n"
  by (simp add: send_loc_unicast_def frame_sizes)

lemma loc_build_reply_fits:
  "loc_id_ok i \<Longrightarrow> (\<exists>r. loc_build_reply q e s t l i (14 + LOC_ID_MAX) = Some r \<and> length r \<le> 214) \<longleftrightarrow> length i \<le> 4"
  by (auto simp: loc_build_reply_def loc_id_ok_def LOC_ID_MAX_def)

lemma g_loc_simps [simp]:
  "g_txq (set_dir d n) = g_txq n" "g_arq (set_dir d n) = g_arq n" "g_my_id (set_dir d n) = g_my_id n"
  "ls_dir (g_loc (loc_flood_mark a b n)) = ls_dir (g_loc n)" "g_txq (loc_flood_mark a b n) = g_txq n"
  "g_arq (loc_flood_mark a b n) = g_arq n" "g_my_id (loc_flood_mark a b n) = g_my_id n"
  by (simp_all add: set_dir_def loc_flood_mark_def)

lemma loc_on_query_queue:
  assumes "fst (lookup_full (ls_dir (g_loc n)) (lm_id m) now) = Some b" "loc_id_ok (lm_id m)"
    and "txq_ok (g_txq n)" "txq_count (g_txq n) < TXQ_DEPTH"
  shows "if length (lm_id m) \<le> 4
    then \<exists>l h r. loc_build_reply (lm_qid m) (lb_epoch b) (lb_seq b) (lb_ttl_s b) (lb_loc b) (lm_id m) 30 = Some r
      \<and> nh_dst h = src \<and> txq_contents (g_txq (loc_on_query now m src n)) = txq_contents (g_txq n) @ [mk_frame l h r]
    else g_txq (loc_on_query now m src n) = g_txq n \<and> g_arq (loc_on_query now m src n) = g_arq n"
proof -
  obtain d where d: "lookup_full (ls_dir (g_loc n)) (lm_id m) now = (Some b, d)" using assms(1) by (metis prod.collapse)
  let ?r = "loc_build_reply (lm_qid m) (lb_epoch b) (lb_seq b) (lb_ttl_s b) (lb_loc b) (lm_id m) (14 + LOC_ID_MAX)"
  have cap: "14 + LOC_ID_MAX = 30" by (simp add: LOC_ID_MAX_def)
  have q: "loc_on_query now m src n = (case ?r of None \<Rightarrow> set_dir d n | Some r \<Rightarrow> send_loc_unicast now src r PKT_LOC (set_dir d n))"
    by (simp add: loc_on_query_def d Let_def)
  note fits = loc_build_reply_fits [OF assms(2), of "lm_qid m" "lb_epoch b" "lb_seq b" "lb_ttl_s b" "lb_loc b"]
  show ?thesis
  proof (cases "length (lm_id m) \<le> 4")
    case True
    then obtain r where r: "?r = Some r" "length r \<le> 214" using fits by blast
    have "txq_ok (g_txq (set_dir d n))" "txq_count (g_txq (set_dir d n)) < TXQ_DEPTH" using assms(3,4) by simp_all
    from send_loc_unicast_queued [OF this r(2), of now src PKT_LOC] True r show ?thesis unfolding q cap by auto
  next
    case False
    then have "?r = None" by (simp add: loc_build_reply_def cap)
    then show ?thesis unfolding q using False by simp
  qed
qed

text \<open>C40. A directory QUERY is answered only for ids of at most four bytes. A node that knows the binding a flooded QUERY
  asks for queues the REPLY to the asker when the id has up to four bytes; for a longer id, such as the sixteen-byte
  hashes the directory is meant for, the reply buffer of 14 + 16 bytes cannot hold the 26-byte header and the id, and
  nothing is sent. (The frame's TTL of 1 rules out the re-flood, which is independent of the reply.)\<close>

theorem loc_query_reply:
  assumes "loc_parse (drop HEADER_BYTES buf) = Some (Some m)" "lm_kind m = LOC_QUERY" "loc_id_ok (lm_id m)"
    and "nh_dst net = NODE_ID_BROADCAST" "nh_ttl net = 1" "\<not> loc_flood_seen (nh_src net) (nh_pkt_id net) n"
    and "fst (lookup_full (ls_dir (g_loc n)) (lm_id m) now) = Some b"
    and "txq_ok (g_txq n)" "txq_count (g_txq n) < TXQ_DEPTH"
  shows "\<exists>n'. on_loc_rx now buf net lh n = Some n' \<and>
    (if length (lm_id m) \<le> 4
     then \<exists>l h r. loc_build_reply (lm_qid m) (lb_epoch b) (lb_seq b) (lb_ttl_s b) (lb_loc b) (lm_id m) 30 = Some r
       \<and> nh_dst h = nh_src net \<and> txq_contents (g_txq n') = txq_contents (g_txq n) @ [mk_frame l h r]
     else g_txq n' = g_txq n \<and> g_arq n' = g_arq n)"
proof -
  let ?n = "loc_flood_mark (nh_src net) (nh_pkt_id net) n"
  have "on_loc_rx now buf net lh n = Some (loc_on_query now m (nh_src net) ?n)"
    using assms(2) by (simp add: on_loc_rx_def assms(1,4,5,6) reflood_def LOC_QUERY_def LOC_REGISTER_def)
  moreover have "fst (lookup_full (ls_dir (g_loc ?n)) (lm_id m) now) = Some b"
    "txq_ok (g_txq ?n)" "txq_count (g_txq ?n) < TXQ_DEPTH" using assms(7-9) by simp_all
  note loc_on_query_queue [OF this(1) assms(3) this(2,3), of "nh_src net", unfolded g_loc_simps]
  ultimately show ?thesis by (intro exI conjI)
qed

definition demo_id :: bytes where "demo_id = map of_nat [1..<17]"

definition demo_query :: "bytes \<Rightarrow> bytes" where
  "demo_query i = mk_frame \<lparr>lh_prev_hop = 0, lh_next_hop = 0xFF, lh_link_seq = 0, lh_flags = 0\<rparr>
     \<lparr>nh_ver_type = net_ver_type PKT_LOC, nh_flags = 0, nh_ttl = 1, nh_dst = NODE_ID_BROADCAST, nh_src = nid_from_u32 3, nh_pkt_id = 7\<rparr>
     ([LOC_QUERY] @ put_u16 5 @ [of_nat (length i)] @ i)"

definition demo_net :: net_header where
  "demo_net = \<lparr>nh_ver_type = net_ver_type PKT_LOC, nh_flags = 0, nh_ttl = 1, nh_dst = NODE_ID_BROADCAST, nh_src = nid_from_u32 3, nh_pkt_id = 7\<rparr>"

definition demo_link :: link_header where
  "demo_link = \<lparr>lh_prev_hop = 0, lh_next_hop = 0xFF, lh_link_seq = 0, lh_flags = 0\<rparr>"

definition demo_knows :: "bytes \<Rightarrow> node" where
  "demo_knows i = set_dir (snd (upsert LocatorDir_init i (nid_from_u32 4) 1 1 600 1000)) (node_boot (nid_from_u32 1) (replicate 32 0) [] demo_cfg)"

lemma demo_knows_txq: "txq_ok (g_txq (demo_knows i))" "txq_count (g_txq (demo_knows i)) < TXQ_DEPTH"
  by (simp_all add: demo_knows_def boot_txq txq_ok_init) (simp add: TxQueue_init_def TXQ_DEPTH_def)

theorem loc_query_reply_witness:
  "\<exists>n'. on_loc_rx 2000 (demo_query demo_id) demo_net demo_link (demo_knows demo_id) = Some n'
     \<and> g_txq n' = g_txq (demo_knows demo_id) \<and> g_arq n' = g_arq (demo_knows demo_id)"
proof -
  let ?m = "LocMsg_init\<lparr>lm_kind := LOC_QUERY, lm_qid := 5, lm_id := demo_id\<rparr>"
  let ?b = "\<lparr>lb_loc = nid_from_u32 4, lb_epoch = 1, lb_seq = 1, lb_ttl_s = 599\<rparr>"
  have p: "loc_parse (drop HEADER_BYTES (demo_query demo_id)) = Some (Some ?m)" by code_simp
  have k: "lm_kind ?m = LOC_QUERY" "loc_id_ok (lm_id ?m)" "\<not> length (lm_id ?m) \<le> 4" by code_simp+
  have h: "nh_dst demo_net = NODE_ID_BROADCAST" "nh_ttl demo_net = 1" by (simp_all add: demo_net_def)
  have s: "\<not> loc_flood_seen (nh_src demo_net) (nh_pkt_id demo_net) (demo_knows demo_id)" by code_simp
  have f: "fst (lookup_full (ls_dir (g_loc (demo_knows demo_id))) (lm_id ?m) 2000) = Some ?b" by code_simp
  show ?thesis
    using loc_query_reply [OF p k(1,2) h s f demo_knows_txq, of demo_link] k(3) by (simp only: if_False)
qed

section \<open>Status replies\<close>

definition nbr_count :: "node \<Rightarrow> nat" where
  "nbr_count n = length (filter n_used (nt_slots (ro_neighbors (g_router n))))"

lemma status_reply_bytes:
  "\<exists>r. status_reply now n = Some r \<and>
     length r = 12 + length (cstr 12 (g_fw n)) + length (cstr 20 (g_name n)) + min 16 (nbr_count n) * 21
     \<and> (\<exists>m. telem_parse r = Some (Some m) \<and> tm_kind m = TELEM_REPLY \<and> tm_mv m = g_batt_mv n
          \<and> tm_power_dbm m = rc_power_dbm (hs_cfg (g_radio n)) \<and> tm_nbrs m = status_nbrs n)"
proof -
  have l: "length (status_nbrs n) = min 16 (nbr_count n)" by (simp add: status_nbrs_def nbr_count_def telem_sizes)
  then have t: "take TELEM_NBR_MAX (status_nbrs n) = status_nbrs n" by (simp add: telem_sizes)
  have "STATUS_BUF = 380" by (simp add: STATUS_BUF_def telem_sizes)
  then obtain r where r: "status_reply now n = Some r"
    unfolding status_reply_def Let_def using telem_build_reply_fits [OF telem_reply_max] by fastforce
  note b = r [unfolded status_reply_def Let_def]
  have "length r = 12 + length (cstr 12 (g_fw n)) + length (cstr 20 (g_name n)) + min 16 (nbr_count n) * 21"
    using b l by (auto simp: telem_build_reply_def Let_def t telem_sizes split: if_splits)
  moreover note telem_reply_parse(1) [OF b, of "[]"]
  ultimately show ?thesis using r l by (simp add: take_all_iff)
qed

lemma last_status_senders [simp]: "g_last_status_ms (send_loc_unicast now dst msg pt n) = g_last_status_ms n"
  by (simp add: send_loc_unicast_def tx_unicast_def txq_put_def bump_pktid_def Let_def case_prod_unfold)

lemma telem_on_query_effect:
  assumes "txq_ok (g_txq n)" "txq_count (g_txq n) < TXQ_DEPTH" "n' = telem_on_query now src n"
  shows "sint (now - g_last_status_ms n) < 30000 \<Longrightarrow> n' = n"
    and "30000 \<le> sint (now - g_last_status_ms n) \<Longrightarrow> g_last_status_ms n' = now"
    and "30000 \<le> sint (now - g_last_status_ms n) \<Longrightarrow> nbr_count n \<le> 8 \<Longrightarrow>
        \<exists>l h r m. txq_contents (g_txq n') = txq_contents (g_txq n) @ [mk_frame l h r] \<and> nh_dst h = src
          \<and> telem_parse r = Some (Some m) \<and> tm_kind m = TELEM_REPLY \<and> tm_mv m = g_batt_mv n
          \<and> tm_power_dbm m = rc_power_dbm (hs_cfg (g_radio n)) \<and> tm_nbrs m = status_nbrs n"
    and "30000 \<le> sint (now - g_last_status_ms n) \<Longrightarrow> 10 \<le> nbr_count n \<Longrightarrow> n' = n\<lparr>g_last_status_ms := now\<rparr>"
proof -
  have c: "sint STATUS_REPLY_COOLDOWN_MS = 30000" by code_simp
  let ?n = "n\<lparr>g_last_status_ms := now\<rparr>"
  obtain r m where r: "status_reply now ?n = Some r"
      "length r = 12 + length (cstr 12 (g_fw ?n)) + length (cstr 20 (g_name ?n)) + min 16 (nbr_count ?n) * 21"
    and m: "telem_parse r = Some (Some m)" "tm_kind m = TELEM_REPLY" "tm_mv m = g_batt_mv ?n"
      "tm_power_dbm m = rc_power_dbm (hs_cfg (g_radio ?n))" "tm_nbrs m = status_nbrs ?n"
    using status_reply_bytes [of now ?n] by blast
  have same: "nbr_count ?n = nbr_count n" "status_nbrs ?n = status_nbrs n" by (simp_all add: nbr_count_def status_nbrs_def)
  show "sint (now - g_last_status_ms n) < 30000 \<Longrightarrow> n' = n" by (simp add: assms(3) telem_on_query_def c)
  assume "30000 \<le> sint (now - g_last_status_ms n)"
  then have q: "n' = send_loc_unicast now src r PKT_TELEM ?n" using r(1) by (simp add: assms(3) telem_on_query_def c)
  then show "g_last_status_ms n' = now" by simp
  have "txq_ok (g_txq ?n)" "txq_count (g_txq ?n) < TXQ_DEPTH" using assms by simp_all
  note queued = send_loc_unicast_queued [OF this, of r now src PKT_TELEM]
  have small: "length r \<le> 214" if "nbr_count n \<le> 8" using that r(2) same cstr_bound [of 12 "g_fw n"] cstr_bound [of 20 "g_name n"] by simp
  show "\<exists>l h r m. txq_contents (g_txq n') = txq_contents (g_txq n) @ [mk_frame l h r] \<and> nh_dst h = src
          \<and> telem_parse r = Some (Some m) \<and> tm_kind m = TELEM_REPLY \<and> tm_mv m = g_batt_mv n
          \<and> tm_power_dbm m = rc_power_dbm (hs_cfg (g_radio n)) \<and> tm_nbrs m = status_nbrs n" if "nbr_count n \<le> 8"
    using queued [OF small [OF that]] m same q by auto
  show "n' = n\<lparr>g_last_status_ms := now\<rparr>" if "10 \<le> nbr_count n"
    using send_loc_unicast_too_long [of r now src PKT_TELEM ?n] r(2) same that q by simp
qed

text \<open>A flooded status query for the node, at the end of its flood (TTL 1), so that it is not repeated.\<close>

definition status_query :: "bytes \<Rightarrow> net_header \<Rightarrow> node \<Rightarrow> bool" where
  "status_query buf net n \<longleftrightarrow> nh_dst net = NODE_ID_BROADCAST \<and> nh_ttl net = 1 \<and>
     (case telem_parse (drop HEADER_BYTES buf) of
        Some (Some m) \<Rightarrow> tm_kind m = TELEM_QUERY \<and> tm_target m = g_my_id n
      | _ \<Rightarrow> False)"

lemma on_telem_rx_query:
  assumes "status_query buf net n"
  shows "on_telem_rx now buf net lh n = Some (if loc_flood_seen (nh_src net) (nh_pkt_id net) n then n
    else telem_on_query now (nh_src net) (loc_flood_mark (nh_src net) (nh_pkt_id net) n))"
proof -
  obtain m where m: "telem_parse (drop HEADER_BYTES buf) = Some (Some m)" "tm_kind m = TELEM_QUERY" "tm_target m = g_my_id n"
    using assms by (auto simp: status_query_def split: option.splits)
  have "TELEM_QUERY \<noteq> TELEM_BATT" by code_simp
  then show ?thesis using assms m by (simp add: on_telem_rx_def status_query_def reflood_def Let_def)
qed

lemma mark_parts [simp]:
  "g_last_status_ms (loc_flood_mark a b n) = g_last_status_ms n" "nbr_count (loc_flood_mark a b n) = nbr_count n"
  "status_nbrs (loc_flood_mark a b n) = status_nbrs n" "g_batt_mv (loc_flood_mark a b n) = g_batt_mv n" "g_radio (loc_flood_mark a b n) = g_radio n"
  by (simp_all add: loc_flood_mark_def nbr_count_def status_nbrs_def)

lemma status_query_silent:
  assumes "status_query buf net n" "sint (now - g_last_status_ms n) < 30000"
  shows "\<exists>n'. on_telem_rx now buf net lh n = Some n' \<and> g_txq n' = g_txq n \<and> g_arq n' = g_arq n \<and> g_last_status_ms n' = g_last_status_ms n"
proof -
  have "sint STATUS_REPLY_COOLDOWN_MS = 30000" by code_simp
  then show ?thesis using assms by (simp add: on_telem_rx_query telem_on_query_def)
qed

text \<open>C39. A status query is answered at most once per thirty seconds, and only by a node with few neighbours. A flooded query
  for the node that comes inside the cooldown queues nothing and leaves the cooldown as it is. One that comes after it
  starts the cooldown anew, so that no query in the next thirty seconds is answered, whoever asks. A node with at most
  eight neighbours queues a reply to the asker that parses to its battery, power and neighbour list; a node with ten or
  more neighbours builds a reply that exceeds the 214 bytes of a frame's payload: nothing is queued, and the cooldown
  runs all the same. (The frame's TTL of 1 rules out the re-flood, which is independent of the reply.)\<close>

theorem status_query_reply:
  assumes "status_query buf net n" "\<not> loc_flood_seen (nh_src net) (nh_pkt_id net) n" "txq_ok (g_txq n)" "txq_count (g_txq n) < TXQ_DEPTH"
  shows "\<exists>n'. on_telem_rx now buf net lh n = Some n'
    \<and> (sint (now - g_last_status_ms n) < 30000 \<longrightarrow> g_txq n' = g_txq n \<and> g_arq n' = g_arq n \<and> g_last_status_ms n' = g_last_status_ms n)
    \<and> (30000 \<le> sint (now - g_last_status_ms n) \<longrightarrow> g_last_status_ms n' = now
        \<and> (\<forall>later buf2 net2 lh2. sint (later - now) < 30000 \<and> status_query buf2 net2 n' \<longrightarrow>
             (\<exists>n2. on_telem_rx later buf2 net2 lh2 n' = Some n2 \<and> g_txq n2 = g_txq n' \<and> g_arq n2 = g_arq n' \<and> g_last_status_ms n2 = now)))
    \<and> (30000 \<le> sint (now - g_last_status_ms n) \<and> nbr_count n \<le> 8 \<longrightarrow>
        (\<exists>l h r m. txq_contents (g_txq n') = txq_contents (g_txq n) @ [mk_frame l h r] \<and> nh_dst h = nh_src net
          \<and> telem_parse r = Some (Some m) \<and> tm_kind m = TELEM_REPLY \<and> tm_mv m = g_batt_mv n
          \<and> tm_power_dbm m = rc_power_dbm (hs_cfg (g_radio n)) \<and> tm_nbrs m = status_nbrs n))
    \<and> (30000 \<le> sint (now - g_last_status_ms n) \<and> 10 \<le> nbr_count n \<longrightarrow> g_txq n' = g_txq n \<and> g_arq n' = g_arq n)"
proof -
  let ?m = "loc_flood_mark (nh_src net) (nh_pkt_id net) n"
  define n' where "n' = telem_on_query now (nh_src net) ?m"
  have rx: "on_telem_rx now buf net lh n = Some n'" using on_telem_rx_query [OF assms(1)] assms(2) by (simp add: n'_def)
  have "txq_ok (g_txq ?m)" "txq_count (g_txq ?m) < TXQ_DEPTH" using assms(3,4) by simp_all
  note q = telem_on_query_effect [OF this n'_def, unfolded mark_parts g_loc_simps]
  have later: "\<exists>n2. on_telem_rx later buf2 net2 lh2 n' = Some n2 \<and> g_txq n2 = g_txq n' \<and> g_arq n2 = g_arq n' \<and> g_last_status_ms n2 = now"
    if "30000 \<le> sint (now - g_last_status_ms n)" "sint (later - now) < 30000" "status_query buf2 net2 n'" for later buf2 net2 lh2
    using status_query_silent [OF that(3), of later lh2] that(2) q(2) [OF that(1)] by simp
  have 1: "sint (now - g_last_status_ms n) < 30000 \<longrightarrow> g_txq n' = g_txq n \<and> g_arq n' = g_arq n \<and> g_last_status_ms n' = g_last_status_ms n"
    by (rule impI, drule q(1)) simp
  have 2: "30000 \<le> sint (now - g_last_status_ms n) \<and> 10 \<le> nbr_count n \<longrightarrow> g_txq n' = g_txq n \<and> g_arq n' = g_arq n"
  proof
    assume "30000 \<le> sint (now - g_last_status_ms n) \<and> 10 \<le> nbr_count n"
    then have "n' = ?m\<lparr>g_last_status_ms := now\<rparr>" using q(4) by blast
    then show "g_txq n' = g_txq n \<and> g_arq n' = g_arq n" by simp
  qed
  show ?thesis
  proof (intro exI [of _ n'] conjI rx 1 2 impI)
    assume "30000 \<le> sint (now - g_last_status_ms n)"
    then show "g_last_status_ms n' = now" by (rule q(2))
  next
    assume "30000 \<le> sint (now - g_last_status_ms n)"
    then show "\<forall>later buf2 net2 lh2. sint (later - now) < 30000 \<and> status_query buf2 net2 n' \<longrightarrow>
        (\<exists>n2. on_telem_rx later buf2 net2 lh2 n' = Some n2 \<and> g_txq n2 = g_txq n' \<and> g_arq n2 = g_arq n' \<and> g_last_status_ms n2 = now)"
      using later by blast
  qed (elim conjE, rule q(3))
qed

text \<open>A node with ten neighbours.\<close>

definition demo_crowd :: node where
  "demo_crowd = (let n = node_boot (nid_from_u32 1) (replicate 32 0) [] demo_cfg; r = g_router n; t = ro_neighbors r in
     n\<lparr>g_router := r\<lparr>ro_neighbors := t\<lparr>nt_slots := map (\<lambda>k. Neighbor_init\<lparr>n_id := nid_from_u32 (of_nat k + 2), n_used := True\<rparr>) [0..<10]
        @ replicate 22 Neighbor_init\<rparr>\<rparr>\<rparr>)"

definition demo_status :: bytes where
  "demo_status = mk_frame demo_link demo_net ([TELEM_QUERY] @ nid_write (nid_from_u32 1))"

theorem status_query_reply_witness:
  "nbr_count demo_crowd = 10 \<and> (\<exists>n'. on_telem_rx 40000 demo_status demo_net demo_link demo_crowd = Some n'
     \<and> g_txq n' = TxQueue_init \<and> g_last_status_ms n' = 40000)"
proof -
  have t: "g_txq demo_crowd = TxQueue_init" "g_last_status_ms demo_crowd = 0" "g_my_id demo_crowd = nid_from_u32 1"
    by (simp_all add: demo_crowd_def Let_def node_boot_def)
  have c: "nbr_count demo_crowd = 10" by code_simp
  have q: "status_query demo_status demo_net demo_crowd" unfolding status_query_def t by code_simp
  have u: "\<not> loc_flood_seen (nh_src demo_net) (nh_pkt_id demo_net) demo_crowd" by code_simp
  have r: "txq_ok (g_txq demo_crowd)" "txq_count (g_txq demo_crowd) < TXQ_DEPTH"
    unfolding t by (simp_all add: txq_ok_init) (simp add: TxQueue_init_def TXQ_DEPTH_def)
  have "30000 \<le> sint (40000 - g_last_status_ms demo_crowd)" unfolding t by code_simp
  then show ?thesis using status_query_reply [OF q u r, of 40000 demo_link] c t(1) by auto
qed

section \<open>Floods\<close>

lemma fold_flood_mark:
  "ls_seen (g_loc (fold (\<lambda>(s, i). loc_flood_mark s i) ks n)) = fold ring_put (map se_mk ks) (ls_seen (g_loc n))"
  by (induction ks arbitrary: n) (auto simp: loc_flood_mark_def)

lemma flood_window:
  assumes "ring_ok LOC_SEEN_CAP (ls_seen (g_loc n))" "length ks < LOC_SEEN_CAP"
  shows "loc_flood_seen src pid (fold (\<lambda>(s, i). loc_flood_mark s i) ks (loc_flood_mark src pid n))"
  using fld.seen_window [OF assms, of "(src, pid)"] by (simp add: loc_flood_seen_def fold_flood_mark) (simp add: loc_flood_mark_def)

end
