(* ===== verification/Config.thy ===== *)
theory Config
  imports Node
begin

text \<open>
  The configuration a node keeps in flash and the way back from it (\<^verbatim>\<open>src/src/main.cpp\<close>, the \<^verbatim>\<open>*_cfg_load\<close> and
  \<^verbatim>\<open>*_cfg_save\<close> functions, \<^verbatim>\<open>node_key_init\<close> and the boot order of \<^verbatim>\<open>setup()\<close>). Two levels: the records as bytes in a
  file, magic number first, with the round trip of each; and the node's flash as the fields those files hold. A write to
  flash succeeds. A save that would write what is already there is skipped by the code; the flash is the same either way.
\<close>

section \<open>Records in files\<close>

text \<open>A record is read whole: a file of another length or with another magic number counts as absent.\<close>

definition store_read :: "u32 \<Rightarrow> nat \<Rightarrow> bytes option \<Rightarrow> bytes option" where
  "store_read magic sz file = (case file of
     None \<Rightarrow> None
   | Some f \<Rightarrow>
       (let rec = take sz f in
        if length rec = sz \<and> take 4 rec = put_u32 magic then Some (drop 4 rec) else None))"

definition store_write :: "u32 \<Rightarrow> bytes \<Rightarrow> bytes option" where
  "store_write magic body = Some (put_u32 magic @ body)"

definition store_load :: "u32 \<Rightarrow> nat \<Rightarrow> (bytes \<Rightarrow> 'a) \<Rightarrow> bytes option \<Rightarrow> 'a option" where
  "store_load magic sz dec file = map_option dec (store_read magic sz file)"

locale flash_record =
  fixes magic :: u32 and sz :: nat and enc :: "'a \<Rightarrow> bytes" and dec :: "bytes \<Rightarrow> 'a" and valid :: "'a \<Rightarrow> bool"
  assumes enc_size: "valid x \<Longrightarrow> length (enc x) + 4 = sz"
    and dec_enc: "valid x \<Longrightarrow> dec (enc x) = x"
begin

lemma load_save: "valid x \<Longrightarrow> store_load magic sz dec (store_write magic (enc x)) = Some x"
  using enc_size [of x] dec_enc [of x] by (auto simp: store_load_def store_read_def store_write_def Let_def)

text \<open>The record of another store, or a torn one, is no record of this store.\<close>

lemma load_other:
  "store_load magic sz dec None = None"
  "take 4 f \<noteq> put_u32 magic \<Longrightarrow> store_load magic sz dec (Some f) = None"
  "length f < sz \<Longrightarrow> store_load magic sz dec (Some f) = None"
proof -
  have "4 \<le> sz" if "take 4 (take sz f) = put_u32 magic" using arg_cong [OF that, of length] by (simp add: min_def split: if_splits)
  then show "take 4 f \<noteq> put_u32 magic \<Longrightarrow> store_load magic sz dec (Some f) = None"
    by (auto simp: store_load_def store_read_def Let_def min_def split: if_splits)
qed (simp_all add: store_load_def store_read_def Let_def)

end

definition RF_MAGIC :: u32 where "RF_MAGIC = 0x46524741"
definition KISS_MAGIC :: u32 where "KISS_MAGIC = 0x534B4741"
definition NODE_MAGIC :: u32 where "NODE_MAGIC = 0x324E4741"
definition NET_MAGIC :: u32 where "NET_MAGIC = 0x544E4741"
definition KEY_MAGIC :: u32 where "KEY_MAGIC = 0x59454B41"
definition CFG_MAGIC :: u32 where "CFG_MAGIC = 0x314E4741"
definition CTRL_MAGIC :: u32 where "CTRL_MAGIC = 0x4C434741"
definition AGN_NAME_MAX :: nat where "AGN_NAME_MAX = 20"

lemmas magics = RF_MAGIC_def KISS_MAGIC_def NODE_MAGIC_def NET_MAGIC_def KEY_MAGIC_def CFG_MAGIC_def CTRL_MAGIC_def

text \<open>\<^verbatim>\<open>strncpy\<close> into a field of \<open>k\<close> bytes.\<close>

definition strncpy :: "nat \<Rightarrow> bytes \<Rightarrow> bytes" where
  "strncpy k s = cstr k s @ replicate (k - length (cstr k s)) 0"

text \<open>The record of the radio configuration ends in two bytes of padding, \<open>pad\<close>.\<close>

definition rf_enc :: "u16 \<Rightarrow> radio_cfg \<Rightarrow> bytes" where
  "rf_enc pad c = put_u32 (rc_freq_hz c) @ put_u32 (rc_bw_hz c) @ [rc_sf c, rc_cr c, rc_power_dbm c, rc_sync c] @ put_u16 (rc_preamble c) @ put_u16 pad"

definition rf_dec :: "bytes \<Rightarrow> radio_cfg" where
  "rf_dec b = \<lparr>rc_freq_hz = mk_u32 (b ! 0) (b ! 1) (b ! 2) (b ! 3), rc_bw_hz = mk_u32 (b ! 4) (b ! 5) (b ! 6) (b ! 7),
     rc_sf = b ! 8, rc_cr = b ! 9, rc_power_dbm = b ! 10, rc_sync = b ! 11, rc_preamble = mk_u16 (b ! 12) (b ! 13)\<rparr>"

definition kiss_enc :: "node_id \<times> bool \<Rightarrow> bytes" where
  "kiss_enc k = nid_write (fst k) @ [if snd k then 1 else 0]"

definition kiss_dec :: "bytes \<Rightarrow> node_id \<times> bool" where
  "kiss_dec b = (nid_read (take 16 b), b ! 16 \<noteq> 0)"

definition node_enc :: "bool \<times> bytes \<Rightarrow> bytes" where
  "node_enc k = [if fst k then 1 else 0] @ strncpy AGN_NAME_MAX (snd k) @ [0]"

definition node_dec :: "bytes \<Rightarrow> bool \<times> bytes" where
  "node_dec b = (b ! 0 \<noteq> 0, cstr AGN_NAME_MAX (drop 1 b))"

definition net_enc :: "u32 \<Rightarrow> bytes" where "net_enc = put_u32"

definition net_dec :: "bytes \<Rightarrow> u32" where "net_dec b = mk_u32 (b ! 0) (b ! 1) (b ! 2) (b ! 3)"

definition key_enc :: "bytes \<times> bytes \<Rightarrow> bytes" where "key_enc k = fst k @ snd k"

definition key_dec :: "bytes \<Rightarrow> bytes \<times> bytes" where "key_dec b = (take 64 b, take 32 (drop 64 b))"

definition ble_enc :: "bytes \<times> bool \<Rightarrow> bytes" where
  "ble_enc k = strncpy 6 (fst k) @ [0, if snd k then 1 else 0]"

definition ble_dec :: "bytes \<Rightarrow> bytes \<times> bool" where "ble_dec b = (cstr 6 (take 7 b), b ! 7 \<noteq> 0)"

definition ctrl_enc :: "bytes \<times> u32 \<Rightarrow> bytes" where "ctrl_enc k = fst k @ put_u32 (snd k)"

definition ctrl_dec :: "bytes \<Rightarrow> bytes \<times> u32" where
  "ctrl_dec b = (take 32 b, mk_u32 (b ! 32) (b ! 33) (b ! 34) (b ! 35))"

text \<open>A C string of at most \<open>k\<close> characters.\<close>

definition cstr_ok :: "nat \<Rightarrow> bytes \<Rightarrow> bool" where
  "cstr_ok k s \<longleftrightarrow> length s \<le> k \<and> 0 \<notin> set s"

lemma length_strncpy [simp]: "length (strncpy k s) = k"
  by (simp add: strncpy_def cstr_def)

lemma cstr_ok_cstr [simp]: "cstr_ok k (cstr k s)"
  by (auto simp: cstr_ok_def cstr_def dest!: in_set_takeD set_takeWhileD)

lemma takeWhile_nz: "0 \<notin> set s \<Longrightarrow> takeWhile (\<lambda>c. c \<noteq> 0) s = s" "0 \<notin> set s \<Longrightarrow> takeWhile (\<lambda>c. c \<noteq> 0) (s @ 0 # t) = s"
  by (induction s) auto

lemma cstr_id: "cstr_ok k s \<Longrightarrow> cstr k s = s"
  by (simp add: cstr_ok_def cstr_def takeWhile_nz)

lemma cstr_strncpy: "cstr_ok k s \<Longrightarrow> cstr k (strncpy k s @ 0 # t) = s"
proof -
  assume s: "cstr_ok k s"
  then have "takeWhile (\<lambda>c. c \<noteq> 0) (s @ replicate (k - length s) 0 @ 0 # t) = s"
    by (cases "k - length s") (simp_all add: cstr_ok_def takeWhile_nz)
  then show ?thesis using s by (simp add: strncpy_def cstr_id) (simp add: cstr_def cstr_ok_def)
qed

lemma nth_append_at: "length xs = k \<Longrightarrow> k \<le> i \<Longrightarrow> (xs @ ys) ! i = ys ! (i - k)"
  by (simp add: nth_append)

interpretation rf_store: flash_record RF_MAGIC 20 "rf_enc pad" rf_dec "\<lambda>_. True" for pad
  by unfold_locales (simp_all add: rf_enc_def rf_dec_def put_u32_def put_u16_def)

interpretation kiss_store: flash_record KISS_MAGIC 21 kiss_enc kiss_dec "\<lambda>_. True"
  by unfold_locales (auto simp: kiss_enc_def kiss_dec_def nid_write_def nth_append_at)

interpretation node_store: flash_record NODE_MAGIC 26 node_enc node_dec "\<lambda>k. cstr_ok AGN_NAME_MAX (snd k)"
  by unfold_locales (auto simp: node_enc_def node_dec_def cstr_strncpy prod_eq_iff, simp add: AGN_NAME_MAX_def)

interpretation net_store: flash_record NET_MAGIC 8 net_enc net_dec "\<lambda>_. True"
  by unfold_locales (simp_all add: net_enc_def net_dec_def put_u32_def)

interpretation key_store: flash_record KEY_MAGIC 100 key_enc key_dec "\<lambda>k. length (fst k) = 64 \<and> length (snd k) = 32"
  by unfold_locales (auto simp: key_enc_def key_dec_def)

interpretation ble_store: flash_record CFG_MAGIC 12 ble_enc ble_dec "\<lambda>k. cstr_ok 6 (fst k)"
  by unfold_locales (auto simp: ble_enc_def ble_dec_def nth_append_at cstr_strncpy [of 6 _ "[]"] prod_eq_iff)

interpretation ctrl_store: flash_record CTRL_MAGIC 40 ctrl_enc ctrl_dec "\<lambda>k. length (fst k) = 32"
  by unfold_locales (auto simp: ctrl_enc_def ctrl_dec_def nth_append_at put_u32_def)

section \<open>The radio configuration\<close>

text \<open>\<^verbatim>\<open>lroundf\<close> rounds halves away from zero; the products are binary32.\<close>

definition lroundf :: "float32 \<Rightarrow> int" where
  "lroundf x = (if 0 \<le> x then \<lfloor>x + 1 / 2\<rfloor> else \<lceil>x - 1 / 2\<rceil>)"

definition PHY_FREQ_MHZ :: float32 where "PHY_FREQ_MHZ = 906625 / 1000"
definition PHY_BW_KHZ :: float32 where "PHY_BW_KHZ = 625 / 10"
definition PHY_TX_POWER_DBM :: u8 where "PHY_TX_POWER_DBM = 22"

definition radio_default_config :: radio_cfg where
  "radio_default_config = \<lparr>rc_freq_hz = word_of_int (lroundf (fmul PHY_FREQ_MHZ 1000000)), rc_bw_hz = word_of_int (lroundf (fmul PHY_BW_KHZ 1000)),
     rc_sf = 7, rc_cr = 5, rc_power_dbm = PHY_TX_POWER_DBM, rc_sync = 0x4D, rc_preamble = 16\<rparr>"

definition rf_load :: "flash \<Rightarrow> radio_cfg" where
  "rf_load fs = (case fs_rf fs of Some c \<Rightarrow> c | None \<Rightarrow> radio_default_config)"

definition rf_save :: "radio_cfg \<Rightarrow> node \<Rightarrow> node" where
  "rf_save c n = n\<lparr>g_flash := (g_flash n)\<lparr>fs_rf := Some c\<rparr>\<rparr>"

section \<open>The other settings\<close>

definition ctrl_cfg_load :: "node \<Rightarrow> node" where
  "ctrl_cfg_load n = (case fs_ctrl (g_flash n) of
     None \<Rightarrow> n
   | Some (pk, c) \<Rightarrow> n\<lparr>g_ctrl := (g_ctrl n)\<lparr>cs_pubkey := pk, cs_counter := c, cs_have_key := True\<rparr>\<rparr>)"

definition ctrl_cfg_save :: "node \<Rightarrow> node" where
  "ctrl_cfg_save n = n\<lparr>g_flash := (g_flash n)\<lparr>fs_ctrl := Some (cs_pubkey (g_ctrl n), cs_counter (g_ctrl n))\<rparr>\<rparr>"

definition batt_cfg_load :: "node \<Rightarrow> node" where
  "batt_cfg_load n = (case fs_batt (g_flash n) of None \<Rightarrow> n | Some s \<Rightarrow> n\<lparr>g_batt_scale := s\<rparr>)"

definition batt_cfg_save :: "node \<Rightarrow> node" where
  "batt_cfg_save n = n\<lparr>g_flash := (g_flash n)\<lparr>fs_batt := Some (g_batt_scale n)\<rparr>\<rparr>"

definition kiss_cfg_load :: "node \<Rightarrow> node" where
  "kiss_cfg_load n = (case fs_kiss (g_flash n) of
     None \<Rightarrow> n
   | Some (dst, en) \<Rightarrow> n\<lparr>g_kiss_dst := dst, g_kiss_mode := (en \<and> \<not> is_zero dst)\<rparr>)"

definition kiss_cfg_save :: "node \<Rightarrow> node" where
  "kiss_cfg_save n = n\<lparr>g_flash := (g_flash n)\<lparr>fs_kiss := Some (g_kiss_dst n, g_kiss_mode n)\<rparr>\<rparr>"

definition node_cfg_load :: "node \<Rightarrow> node" where
  "node_cfg_load n = (case fs_node (g_flash n) of
     None \<Rightarrow> n
   | Some (mobile, name) \<Rightarrow> n\<lparr>g_mobile := mobile, g_name := cstr AGN_NAME_MAX name\<rparr>)"

definition node_cfg_save :: "node \<Rightarrow> node" where
  "node_cfg_save n = n\<lparr>g_flash := (g_flash n)\<lparr>fs_node := Some (g_mobile n, cstr AGN_NAME_MAX (g_name n))\<rparr>\<rparr>"

definition net_cfg_load :: "node \<Rightarrow> node" where
  "net_cfg_load n = (case fs_net (g_flash n) of None \<Rightarrow> n | Some ms \<Rightarrow> n\<lparr>g_beacon_cfg := ms\<rparr>)"

definition net_cfg_save :: "node \<Rightarrow> node" where
  "net_cfg_save n = n\<lparr>g_flash := (g_flash n)\<lparr>fs_net := Some (g_beacon_cfg n)\<rparr>\<rparr>"

definition ble_cfg_save :: "node \<Rightarrow> node" where
  "ble_cfg_save n = n\<lparr>g_flash := (g_flash n)\<lparr>fs_ble := Some (cstr 6 (g_ble_pin n), g_ble_advertising n)\<rparr>\<rparr>"

text \<open>The PIN and whether to advertise; without a record a fresh PIN, \<open>newpin\<close>, and the mark of a first boot.\<close>

definition ble_cfg_load :: "bytes \<Rightarrow> node \<Rightarrow> node \<times> bool \<times> bool" where
  "ble_cfg_load newpin n = (case fs_ble (g_flash n) of
     Some (p, en) \<Rightarrow> (n\<lparr>g_ble_pin := cstr 6 p\<rparr>, en, False)
   | None \<Rightarrow> (n\<lparr>g_ble_pin := newpin\<rparr>, False, True))"

text \<open>Whether the stack starts to advertise is the argument \<open>ok\<close>.\<close>

definition ble_start_adv :: "bool \<Rightarrow> node \<Rightarrow> node" where
  "ble_start_adv ok n = n\<lparr>g_ble_inited := True, g_ble_advertising := ok\<rparr>"

definition ble_stop_adv :: "node \<Rightarrow> node" where
  "ble_stop_adv n = n\<lparr>g_ble_advertising := False\<rparr>"

section \<open>Identity and boot\<close>

text \<open>\<^verbatim>\<open>AGN_NODE_ID\<close> is \<open>agn_id\<close>, the key derivation of Monocypher \<open>kp\<close>, the entropy drawn \<open>seed\<close>. The result: whether the
  node holds a key, the secret and public key, the id, the flash.\<close>

definition node_key_init :: "u32 \<Rightarrow> (bytes \<Rightarrow> bytes) \<Rightarrow> (bytes \<Rightarrow> bytes \<times> bytes) \<Rightarrow> bytes \<Rightarrow> flash \<Rightarrow> bool \<times> bytes \<times> bytes \<times> node_id \<times> flash" where
  "node_key_init agn_id b2 kp seed fs =
     (if agn_id \<noteq> 0 then (False, replicate 64 0, replicate 32 0, nid_from_u32 agn_id, fs)
      else case fs_key fs of
        Some (sk, pk) \<Rightarrow> (True, sk, pk, nid_from_pubkey b2 pk, fs)
      | None \<Rightarrow> (let (sk, pk) = kp seed in (True, sk, pk, nid_from_pubkey b2 pk, fs\<lparr>fs_key := Some (sk, pk)\<rparr>)))"

record boot_env =
  be_batt_raw :: u16
  be_pin :: bytes
  be_adv_ok :: bool

definition boot_ble :: "boot_env \<Rightarrow> node \<Rightarrow> node" where
  "boot_ble e n =
     (let (n, en, first) = ble_cfg_load (be_pin e) n;
          n = (if first then ble_cfg_save n else n)
      in if en then ble_start_adv (be_adv_ok e) n else n)"

definition boot_settings :: "boot_env \<Rightarrow> node \<Rightarrow> node" where
  "boot_settings e n =
     (let n = batt_refresh (be_batt_raw e) (batt_cfg_load n);
          n = ctrl_cfg_load (node_cfg_load (kiss_cfg_load (net_cfg_load n)))
      in if g_ble n then boot_ble e n else n)"

text \<open>\<open>setup()\<close> up to the first deadlines, with the radio up: \<open>ble\<close> and \<open>fw\<close> are the build's.\<close>

definition node_setup :: "(bytes \<Rightarrow> bytes) \<Rightarrow> (bytes \<Rightarrow> bytes \<times> bytes) \<Rightarrow> u32 \<Rightarrow> bool \<Rightarrow> bytes \<Rightarrow> boot_env \<Rightarrow> bytes \<Rightarrow> flash \<Rightarrow> node" where
  "node_setup b2 kp agn_id ble fw e seed fs =
     (let (have, sk, pk, me, fs) = node_key_init agn_id b2 kp seed fs
      in boot_settings e ((node_boot me pk sk (rf_load fs))\<lparr>g_flash := fs, g_have_key := have, g_ble := ble, g_fw := fw\<rparr>))"

text \<open>A reboot: the same start for a node that has its identity.\<close>

definition reboot :: "boot_env \<Rightarrow> node \<Rightarrow> node" where
  "reboot e n = boot_settings e ((node_boot (g_my_id n) (g_pk n) (g_sk n) (rf_load (g_flash n)))
     \<lparr>g_flash := g_flash n, g_have_key := g_have_key n, g_ble := g_ble n, g_fw := g_fw n\<rparr>)"

lemmas cfg_loads = ctrl_cfg_load_def batt_cfg_load_def kiss_cfg_load_def node_cfg_load_def net_cfg_load_def ble_cfg_load_def

lemmas cfg_saves = ctrl_cfg_save_def batt_cfg_save_def kiss_cfg_save_def node_cfg_save_def net_cfg_save_def ble_cfg_save_def rf_save_def

lemma node_inv_saves [simp]:
  "node_inv cr (ctrl_cfg_save n) = node_inv cr n" "node_inv cr (rf_save c n) = node_inv cr n" "node_inv cr (ble_cfg_save n) = node_inv cr n"
  "node_inv cr (batt_cfg_save n) = node_inv cr n" "node_inv cr (kiss_cfg_save n) = node_inv cr n" "node_inv cr (node_cfg_save n) = node_inv cr n"
  "node_inv cr (net_cfg_save n) = node_inv cr n" "node_inv cr (ble_start_adv ok n) = node_inv cr n" "node_inv cr (ble_stop_adv n) = node_inv cr n"
  by (simp_all add: cfg_saves ble_start_adv_def ble_stop_adv_def)

lemma node_inv_loads [simp]:
  "node_inv cr (batt_cfg_load n) = node_inv cr n" "node_inv cr (kiss_cfg_load n) = node_inv cr n" "node_inv cr (node_cfg_load n) = node_inv cr n"
  "node_inv cr (net_cfg_load n) = node_inv cr n" "node_inv cr (batt_refresh raw n) = node_inv cr n" "node_inv cr (boot_ble e n) = node_inv cr n"
  by (simp_all add: cfg_loads batt_refresh_def boot_ble_def Let_def split: option.split)

lemma node_inv_ctrl_cfg_load [inv_intros]: "node_inv cr n \<Longrightarrow> node_inv cr (ctrl_cfg_load n)"
  using node_invD(10) [of cr n] by (simp add: ctrl_cfg_load_def node_inv_part(12) split: option.split)

lemma node_inv_boot_settings [inv_intros]: "node_inv cr n \<Longrightarrow> node_inv cr (boot_settings e n)"
  by (simp add: boot_settings_def Let_def inv_intros)

lemma reboot_inv: "length (g_pk n) = 32 \<Longrightarrow> node_inv cr (reboot e n)"
  unfolding reboot_def by (intro inv_intros) (simp add: boot_inv)

lemma setup_reboot:
  "fs_key (g_flash n) = Some (g_sk n, g_pk n) \<Longrightarrow> g_my_id n = nid_from_pubkey b2 (g_pk n) \<Longrightarrow> g_have_key n \<Longrightarrow>
     node_setup b2 kp 0 (g_ble n) (g_fw n) e seed (g_flash n) = reboot e n"
  by (simp add: node_setup_def node_key_init_def reboot_def)

section \<open>What survives a reboot\<close>

text \<open>The settings: name, mobility flag, beacon period, battery calibration, and the controller's key with the replay floor.\<close>

definition settings :: "node \<Rightarrow> bytes \<times> bool \<times> u32 \<times> float32 \<times> (bytes \<times> u32) option" where
  "settings n = (g_name n, g_mobile n, g_beacon_cfg n, g_batt_scale n,
     if cs_have_key (g_ctrl n) then Some (cs_pubkey (g_ctrl n), cs_counter (g_ctrl n)) else None)"

definition saved :: "node \<Rightarrow> bool" where
  "saved n \<longleftrightarrow> settings n =
     (let fs = g_flash n in
      (case fs_node fs of None \<Rightarrow> [] | Some k \<Rightarrow> cstr AGN_NAME_MAX (snd k), case fs_node fs of None \<Rightarrow> False | Some k \<Rightarrow> fst k,
       case fs_net fs of None \<Rightarrow> 0 | Some ms \<Rightarrow> ms, case fs_batt fs of None \<Rightarrow> 0 | Some s \<Rightarrow> s, fs_ctrl fs))"

lemma settings_ble: "settings (boot_ble e n) = settings n"
  by (auto simp: boot_ble_def settings_def ble_cfg_load_def ble_cfg_save_def ble_start_adv_def Let_def split: option.split)

text \<open>The loads as updates.\<close>

lemma cfg_load_updates:
  "batt_cfg_load n = n\<lparr>g_batt_scale := case fs_batt (g_flash n) of None \<Rightarrow> g_batt_scale n | Some s \<Rightarrow> s\<rparr>"
  "net_cfg_load n = n\<lparr>g_beacon_cfg := case fs_net (g_flash n) of None \<Rightarrow> g_beacon_cfg n | Some ms \<Rightarrow> ms\<rparr>"
  "node_cfg_load n = n\<lparr>g_mobile := case fs_node (g_flash n) of None \<Rightarrow> g_mobile n | Some k \<Rightarrow> fst k,
     g_name := case fs_node (g_flash n) of None \<Rightarrow> g_name n | Some k \<Rightarrow> cstr AGN_NAME_MAX (snd k)\<rparr>"
  "kiss_cfg_load n = n\<lparr>g_kiss_dst := case fs_kiss (g_flash n) of None \<Rightarrow> g_kiss_dst n | Some k \<Rightarrow> fst k,
     g_kiss_mode := case fs_kiss (g_flash n) of None \<Rightarrow> g_kiss_mode n | Some k \<Rightarrow> snd k \<and> \<not> is_zero (fst k)\<rparr>"
  by (simp_all add: cfg_loads case_prod_unfold split: option.split)

lemma settings_ctrl_load:
  "settings (ctrl_cfg_load n) = (g_name n, g_mobile n, g_beacon_cfg n, g_batt_scale n,
     case fs_ctrl (g_flash n) of None \<Rightarrow> if cs_have_key (g_ctrl n) then Some (cs_pubkey (g_ctrl n), cs_counter (g_ctrl n)) else None | Some k \<Rightarrow> Some k)"
  by (simp add: settings_def ctrl_cfg_load_def case_prod_unfold split: option.split)

lemma settings_boot:
  "settings (boot_settings e n) =
     (case fs_node (g_flash n) of None \<Rightarrow> g_name n | Some k \<Rightarrow> cstr AGN_NAME_MAX (snd k), case fs_node (g_flash n) of None \<Rightarrow> g_mobile n | Some k \<Rightarrow> fst k,
      case fs_net (g_flash n) of None \<Rightarrow> g_beacon_cfg n | Some ms \<Rightarrow> ms, case fs_batt (g_flash n) of None \<Rightarrow> g_batt_scale n | Some s \<Rightarrow> s,
      case fs_ctrl (g_flash n) of None \<Rightarrow> if cs_have_key (g_ctrl n) then Some (cs_pubkey (g_ctrl n), cs_counter (g_ctrl n)) else None | Some k \<Rightarrow> Some k)"
  by (simp add: boot_settings_def Let_def settings_ble settings_ctrl_load) (simp add: cfg_load_updates batt_refresh_def cong: option.case_cong)

lemma reboot_settings: "settings (reboot e n) = settings n \<longleftrightarrow> saved n"
proof -
  let ?b = "(node_boot (g_my_id n) (g_pk n) (g_sk n) (rf_load (g_flash n)))\<lparr>g_flash := g_flash n, g_have_key := g_have_key n, g_ble := g_ble n, g_fw := g_fw n\<rparr>"
  have b: "g_name ?b = []" "g_mobile ?b = False" "g_beacon_cfg ?b = 0" "g_batt_scale ?b = 0" "cs_have_key (g_ctrl ?b) = False" "g_flash ?b = g_flash n"
    by (simp_all add: node_boot_def)
  have "(case x of None \<Rightarrow> None | Some k \<Rightarrow> Some k) = x" for x :: "(bytes \<times> u32) option" by (cases x) simp_all
  then show ?thesis unfolding saved_def Let_def reboot_def settings_boot b by auto
qed

end
