(* ===== verification/Node_Control.thy ===== *)
theory Node_Control
  imports Node_Services Config
begin

text \<open>
  The control plane of \<^verbatim>\<open>src/main.cpp\<close>: signed commands and the rails that keep a remote command from stranding the
  node (provisional power, block lifetimes, the heartbeat watchdog). Firmware built with BLE (\<^verbatim>\<open>AGN_BLE\<close>).

  Whether the radio accepts a configuration is the argument \<open>ok\<close>. The flash holds what \<^verbatim>\<open>rf_save\<close>, \<^verbatim>\<open>ctrl_cfg_save\<close>
  and \<^verbatim>\<open>cfg_save\<close> last wrote; signed bytes (\<^verbatim>\<open>int8_t\<close>) are compared with \<open>sint\<close>.
\<close>

section \<open>Constants\<close>

definition CTRL_REVERT_WINDOW_MS :: u32 where "CTRL_REVERT_WINDOW_MS = 60000"
definition CTRL_HEARTBEAT_MS :: u32 where "CTRL_HEARTBEAT_MS = 6 * 3600 * 1000"
definition CTRL_BLOCK_TTL_DEFAULT_MIN :: u8 where "CTRL_BLOCK_TTL_DEFAULT_MIN = 30"
definition CTRL_BLOCK_TTL_MAX_MIN :: u8 where "CTRL_BLOCK_TTL_MAX_MIN = 120"

definition set_ctrl :: "ctrl_state \<Rightarrow> node \<Rightarrow> node" where
  "set_ctrl c n = n\<lparr>g_ctrl := c\<rparr>"

section \<open>Block lifetimes\<close>

definition blk_free :: block_ttl where
  "blk_free = \<lparr>bt_victim = nid_zero, bt_expiry_ms = 0\<rparr>"

definition ctrl_blk_set :: "u32 \<Rightarrow> node_id \<Rightarrow> u8 \<Rightarrow> block_ttl list \<Rightarrow> block_ttl list" where
  "ctrl_blk_set now victim ttl_min bs =
     (let e = now + ucast ttl_min * 60000; e = (if e = 0 then 1 else e) in
      case find_idx (\<lambda>b. bt_expiry_ms b \<noteq> 0 \<and> bt_victim b = victim) bs of
        Some i \<Rightarrow> upd_at i (\<lambda>b. b\<lparr>bt_expiry_ms := e\<rparr>) bs
      | None \<Rightarrow>
          (case find_idx (\<lambda>b. bt_expiry_ms b = 0) bs of
             Some i \<Rightarrow> bs[i := \<lparr>bt_victim = victim, bt_expiry_ms = e\<rparr>]
           | None \<Rightarrow> bs))"

definition ctrl_blk_clear :: "node_id \<Rightarrow> block_ttl list \<Rightarrow> block_ttl list" where
  "ctrl_blk_clear victim = map (\<lambda>b. if bt_victim b = victim then blk_free else b)"

definition blk_due :: "u32 \<Rightarrow> block_ttl \<Rightarrow> bool" where
  "blk_due now b \<longleftrightarrow> bt_expiry_ms b \<noteq> 0 \<and> \<not> before32 now (bt_expiry_ms b)"

definition ctrl_blk_sweep :: "u32 \<Rightarrow> node \<Rightarrow> node" where
  "ctrl_blk_sweep now n =
     (let bs = cs_blk (g_ctrl n) in
      n\<lparr>g_router := foldl unblock (g_router n) (map bt_victim (filter (blk_due now) bs)),
        g_ctrl := (g_ctrl n)\<lparr>cs_blk := map (\<lambda>b. if blk_due now b then blk_free else b) bs\<rparr>\<rparr>)"

section \<open>Power\<close>

definition ctrl_apply_power :: "bool \<Rightarrow> u8 \<Rightarrow> bool \<Rightarrow> node \<Rightarrow> node" where
  "ctrl_apply_power ok dbm persist n =
     (let c = (hs_cfg (g_radio n))\<lparr>rc_power_dbm := dbm\<rparr>; (done_ok, h) = apply_config ok c (g_radio n); n = n\<lparr>g_radio := h\<rparr>
      in if done_ok then let n = n\<lparr>g_rf_work := c\<rparr> in if persist then rf_save c n else n else n)"

definition flash_power :: "node \<Rightarrow> u8" where
  "flash_power n = (case fs_rf (g_flash n) of Some c \<Rightarrow> rc_power_dbm c | None \<Rightarrow> PHY_TX_POWER_DBM)"

definition ctrl_heartbeat_sweep :: "u32 \<Rightarrow> bool \<Rightarrow> node \<Rightarrow> node" where
  "ctrl_heartbeat_sweep now ok n =
     (if \<not> cs_power_managed (g_ctrl n) then n
      else if before32 now (cs_contact_ms (g_ctrl n) + CTRL_HEARTBEAT_MS) then n
      else
        let def = flash_power n;
            n = (if rc_power_dbm (hs_cfg (g_radio n)) \<noteq> def then ctrl_apply_power ok def False n else n)
        in n\<lparr>g_ctrl := (g_ctrl n)\<lparr>cs_power_managed := False\<rparr>\<rparr>)"

text \<open>The dead-man branch of the main loop.\<close>

definition ctrl_deadman :: "u32 \<Rightarrow> bool \<Rightarrow> node \<Rightarrow> node" where
  "ctrl_deadman now ok n =
     (if cs_revert_ms (g_ctrl n) \<noteq> 0 \<and> \<not> before32 now (cs_revert_ms (g_ctrl n))
      then ctrl_apply_power ok (cs_revert_dbm (g_ctrl n)) False (n\<lparr>g_ctrl := (g_ctrl n)\<lparr>cs_revert_ms := 0\<rparr>\<rparr>)
      else n)"

section \<open>Commands\<close>

definition ctrl_send_ack :: "u32 \<Rightarrow> ctrl_msg \<Rightarrow> node_id \<Rightarrow> u8 \<Rightarrow> u8 \<Rightarrow> node \<Rightarrow> node" where
  "ctrl_send_ack now m reply_to applied prov n =
     (if reply_to = g_my_id n then n
      else case ctrl_build_ack (cm_cmd m) (g_my_id n) applied prov (cm_counter m) CTRL_ACK_BYTES of
        None \<Rightarrow> n
      | Some a \<Rightarrow> send_loc_unicast now reply_to a PKT_CONTROL n)"

definition ctrl_power :: "u32 \<Rightarrow> bool \<Rightarrow> ctrl_msg \<Rightarrow> node_id \<Rightarrow> node \<Rightarrow> node" where
  "ctrl_power now ok m reply_to n =
     (let cur = rc_power_dbm (hs_cfg (g_radio n));
          want = (if sint LORA_MAX_TX_POWER_DBM < sint (cm_arg m) then LORA_MAX_TX_POWER_DBM else cm_arg m);
          prov = (if sint want < sint cur then 1 else 0);
          n = (if sint want < sint cur
               then ctrl_apply_power ok want False (n\<lparr>g_ctrl := (g_ctrl n)\<lparr>cs_revert_dbm := cur, cs_pending_dbm := want,
                      cs_revert_ms := now + CTRL_REVERT_WINDOW_MS\<rparr>\<rparr>)
               else (let n = ctrl_apply_power ok want False n in n\<lparr>g_ctrl := (g_ctrl n)\<lparr>cs_revert_ms := 0\<rparr>\<rparr>));
          n = n\<lparr>g_ctrl := (g_ctrl n)\<lparr>cs_power_managed := True\<rparr>\<rparr>
      in ctrl_send_ack now m reply_to want prov n)"

definition ctrl_confirm :: "u32 \<Rightarrow> bool \<Rightarrow> ctrl_msg \<Rightarrow> node_id \<Rightarrow> node \<Rightarrow> node" where
  "ctrl_confirm now ok m reply_to n =
     (if cs_revert_ms (g_ctrl n) \<noteq> 0 \<and> cm_arg m = cs_pending_dbm (g_ctrl n) then
        let p = cs_pending_dbm (g_ctrl n);
            n = ctrl_apply_power ok p False (n\<lparr>g_ctrl := (g_ctrl n)\<lparr>cs_revert_ms := 0\<rparr>\<rparr>)
        in ctrl_send_ack now m reply_to p 0 n
      else n)"

definition ctrl_block :: "u32 \<Rightarrow> ctrl_msg \<Rightarrow> node_id \<Rightarrow> node \<Rightarrow> node" where
  "ctrl_block now m reply_to n =
     (if \<not> is_zero (cm_aux m) \<and> cm_aux m \<noteq> g_my_id n then
        let ttl = (if 0 < sint (cm_arg m) then cm_arg m else CTRL_BLOCK_TTL_DEFAULT_MIN);
            ttl = (if CTRL_BLOCK_TTL_MAX_MIN < ttl then CTRL_BLOCK_TTL_MAX_MIN else ttl);
            (blocked, r) = block (g_router n) (cm_aux m);
            n = n\<lparr>g_router := r\<rparr>;
            n = (if blocked then n\<lparr>g_ctrl := (g_ctrl n)\<lparr>cs_blk := ctrl_blk_set now (cm_aux m) ttl (cs_blk (g_ctrl n))\<rparr>\<rparr> else n)
        in ctrl_send_ack now m reply_to (if blocked then 1 else 0) 1 n
      else n)"

definition ctrl_unblock :: "u32 \<Rightarrow> ctrl_msg \<Rightarrow> node_id \<Rightarrow> node \<Rightarrow> node" where
  "ctrl_unblock now m reply_to n =
     (if \<not> is_zero (cm_aux m) then
        let n = n\<lparr>g_router := unblock (g_router n) (cm_aux m),
                  g_ctrl := (g_ctrl n)\<lparr>cs_blk := ctrl_blk_clear (cm_aux m) (cs_blk (g_ctrl n))\<rparr>\<rparr>
        in ctrl_send_ack now m reply_to 0 0 n
      else n)"

definition ctrl_ble :: "u32 \<Rightarrow> ctrl_msg \<Rightarrow> node_id \<Rightarrow> node \<Rightarrow> node" where
  "ctrl_ble now m reply_to n =
     (let on = (cm_arg m \<noteq> 0);
          n = ble_cfg_save (n\<lparr>g_ble_advertising := on\<rparr>);
          n = n\<lparr>g_reboot_at := now + 3000\<rparr>
      in ctrl_send_ack now m reply_to (if on then 1 else 0) 0 n)"

text \<open>The 13 signed bytes over the current configuration; the power field is not among them.\<close>

definition retune_cfg :: "bytes \<Rightarrow> radio_cfg \<Rightarrow> radio_cfg" where
  "retune_cfg p c = c\<lparr>rc_freq_hz := mk_u32 (p ! 0) (p ! 1) (p ! 2) (p ! 3), rc_bw_hz := mk_u32 (p ! 4) (p ! 5) (p ! 6) (p ! 7),
     rc_sf := p ! 8, rc_cr := p ! 9, rc_sync := p ! 10, rc_preamble := mk_u16 (p ! 11) (p ! 12)\<rparr>"

definition phy_ok :: "radio_cfg \<Rightarrow> bool" where
  "phy_ok c \<longleftrightarrow> 5 \<le> rc_sf c \<and> rc_sf c \<le> 12 \<and> 5 \<le> rc_cr c \<and> rc_cr c \<le> 8 \<and> rc_freq_hz c \<noteq> 0 \<and> rc_bw_hz c \<noteq> 0"

definition ctrl_retune :: "u32 \<Rightarrow> ctrl_msg \<Rightarrow> node_id \<Rightarrow> node \<Rightarrow> node" where
  "ctrl_retune now m reply_to n =
     (let c = retune_cfg (cm_cfg m) (hs_cfg (g_radio n)) in
      if \<not> phy_ok c then ctrl_send_ack now m reply_to 0 0 n
      else
        let n = rf_save c n;
            n = ble_cfg_save (n\<lparr>g_ble_advertising := True\<rparr>);
            n = ctrl_send_ack now m reply_to 1 0 n
        in n\<lparr>g_reboot_at := now + 3000\<rparr>)"

definition ctrl_apply_verified :: "u32 \<Rightarrow> bool \<Rightarrow> ctrl_msg \<Rightarrow> node_id \<Rightarrow> node \<Rightarrow> node" where
  "ctrl_apply_verified now ok m reply_to n =
     (let n = ctrl_cfg_save (n\<lparr>g_ctrl := (g_ctrl n)\<lparr>cs_counter := cm_counter m\<rparr>\<rparr>);
          n = n\<lparr>g_ctrl := (g_ctrl n)\<lparr>cs_contact_ms := now\<rparr>\<rparr>
      in if cm_cmd m = CTRL_POWER then ctrl_power now ok m reply_to n
         else if cm_cmd m = CTRL_CONFIRM then ctrl_confirm now ok m reply_to n
         else if cm_cmd m = CTRL_BLOCK then ctrl_block now m reply_to n
         else if cm_cmd m = CTRL_UNBLOCK then ctrl_unblock now m reply_to n
         else if cm_cmd m = CTRL_BLE then ctrl_ble now m reply_to n
         else if cm_cmd m = CTRL_RETUNE then ctrl_retune now m reply_to n
         else n)"

definition ctrl_for_me :: "bytes \<Rightarrow> node \<Rightarrow> bool option" where
  "ctrl_for_me pay n =
     (if CTRL_MSG_BYTES \<le> length pay \<and> cs_have_key (g_ctrl n)
      then do { tgt \<leftarrow> rd_nid pay 2; Some (tgt = g_my_id n) } else Some False)"

definition ctrl_command :: "crypto \<Rightarrow> u32 \<Rightarrow> bool \<Rightarrow> bytes \<Rightarrow> node_id \<Rightarrow> node \<Rightarrow> node option" where
  "ctrl_command cr now ok pay src n = do {
     (v, m) \<leftarrow> ctrl_verify (ed_check cr) pay (cs_pubkey (g_ctrl n)) (cs_counter (g_ctrl n)) CtrlMsg_init;
     Some (if v \<noteq> CTRL_OK then emit (Ctrl_rejected v) n else ctrl_apply_verified now ok m src n) }"

definition on_control_rx :: "crypto \<Rightarrow> u32 \<Rightarrow> bool \<Rightarrow> bytes \<Rightarrow> net_header \<Rightarrow> link_header \<Rightarrow> node \<Rightarrow> node option" where
  "on_control_rx cr now ok buf net lh n =
     (let pay = drop HEADER_BYTES buf in
      if nh_dst net = NODE_ID_BROADCAST then
        if loc_flood_seen (nh_src net) (nh_pkt_id net) n then Some n
        else do {
          let n = loc_flood_mark (nh_src net) (nh_pkt_id net) n;
          for_me \<leftarrow> ctrl_for_me pay n;
          n \<leftarrow> (if for_me then ctrl_command cr now ok pay (nh_src net) n else Some n);
          Some (reflood buf net n) }
      else
        let (d, n) = relay_decide net n in
        if d_action d = DELIVER then do {
          a \<leftarrow> ctrl_parse_ack pay;
          Some (case a of None \<Rightarrow> n | Some a \<Rightarrow> emit (Ctrl_ack_line a) n) }
        else Some (relay_unicast now buf lh d n))"

section \<open>The control plane keeps the invariant\<close>

lemma length_ctrl_blk [simp]:
  "length (ctrl_blk_set now v t bs) = length bs" "length (ctrl_blk_clear v bs) = length bs"
  by (simp_all add: ctrl_blk_set_def ctrl_blk_clear_def Let_def split: option.split)

lemma blk_live_update:
  assumes "i < length bs" "bt_expiry_ms b \<noteq> 0" "bt_expiry_ms (bs ! i) = 0 \<or> bt_victim (bs ! i) = bt_victim b"
    and "distinct (blk_live bs)" "bt_expiry_ms (bs ! i) = 0 \<longrightarrow> bt_victim b \<notin> set (blk_live bs)"
  shows "distinct (blk_live (bs[i := b]))" "set (blk_live (bs[i := b])) = insert (bt_victim b) (set (blk_live bs))"
proof -
  have bs: "bs = take i bs @ bs ! i # drop (Suc i) bs" using assms(1) by (rule id_take_nth_drop)
  have up: "bs[i := b] = take i bs @ b # drop (Suc i) bs" using assms(1) by (rule upd_conv_take_nth_drop)
  have l: "blk_live bs = blk_live (take i bs) @ (if bt_expiry_ms (bs ! i) = 0 then [] else [bt_victim (bs ! i)]) @ blk_live (drop (Suc i) bs)"
    by (subst bs) (simp add: blk_live_def)
  have m: "blk_live (bs[i := b]) = blk_live (take i bs) @ bt_victim b # blk_live (drop (Suc i) bs)"
    unfolding up using assms(2) by (simp add: blk_live_def)
  show "distinct (blk_live (bs[i := b]))" "set (blk_live (bs[i := b])) = insert (bt_victim b) (set (blk_live bs))"
    using assms(3-5) unfolding m by (auto simp: l split: if_splits)
qed

lemma find_live: "find_idx (\<lambda>b. bt_expiry_ms b \<noteq> 0 \<and> bt_victim b = v) bs = None \<longleftrightarrow> v \<notin> set (blk_live bs)"
  by (auto simp: find_idx_None_iff blk_live_def)

lemma blk_free_slot: "length (blk_live bs) < length bs \<Longrightarrow> find_idx (\<lambda>b. bt_expiry_ms b = 0) bs \<noteq> None"
proof
  assume "length (blk_live bs) < length bs" "find_idx (\<lambda>b. bt_expiry_ms b = 0) bs = None"
  then show False by (simp add: find_idx_None_iff blk_live_def)
qed

text \<open>The deadline \<^verbatim>\<open>ctrl_blk_set\<close> stores is never 0.\<close>

definition blk_deadline :: "u32 \<Rightarrow> u8 \<Rightarrow> u32" where
  "blk_deadline now ttl = (let e = now + ucast ttl * 60000 in if e = 0 then 1 else e)"

lemma ctrl_blk_set_live:
  assumes "distinct (blk_live bs)" "v \<in> set (blk_live bs) \<or> length (blk_live bs) < length bs"
  shows "distinct (blk_live (ctrl_blk_set now v ttl bs))" "set (blk_live (ctrl_blk_set now v ttl bs)) = insert v (set (blk_live bs))"
    "\<lparr>bt_victim = v, bt_expiry_ms = blk_deadline now ttl\<rparr> \<in> set (ctrl_blk_set now v ttl bs)"
proof -
  let ?b = "\<lparr>bt_victim = v, bt_expiry_ms = blk_deadline now ttl\<rparr>"
  have e: "blk_deadline now ttl \<noteq> 0" by (simp add: blk_deadline_def Let_def)
  have "\<exists>i. i < length bs \<and> ctrl_blk_set now v ttl bs = bs[i := ?b] \<and> (bt_expiry_ms (bs ! i) = 0 \<or> bt_victim (bs ! i) = v)
     \<and> (bt_expiry_ms (bs ! i) = 0 \<longrightarrow> v \<notin> set (blk_live bs))"
  proof (cases "find_idx (\<lambda>b. bt_expiry_ms b \<noteq> 0 \<and> bt_victim b = v) bs")
    case (Some i)
    have b: "(bs ! i)\<lparr>bt_expiry_ms := blk_deadline now ttl\<rparr> = ?b" using find_idx_sat [OF Some] by (cases "bs ! i") simp
    have "ctrl_blk_set now v ttl bs = upd_at i (\<lambda>b. b\<lparr>bt_expiry_ms := blk_deadline now ttl\<rparr>) bs"
      using Some by (simp add: ctrl_blk_set_def blk_deadline_def Let_def)
    then have "ctrl_blk_set now v ttl bs = bs[i := ?b]" using find_idx_lt [OF Some] unfolding upd_at_def b by (simp only: if_True)
    then show ?thesis using find_idx_lt [OF Some] find_idx_sat [OF Some] by (intro exI [of _ i]) simp
  next
    case None
    then have v: "v \<notin> set (blk_live bs)" by (simp add: find_live)
    then obtain i where i: "find_idx (\<lambda>b. bt_expiry_ms b = 0) bs = Some i" using blk_free_slot assms(2) by blast
    then show ?thesis using find_idx_lt [OF i] find_idx_sat [OF i] v None
      by (intro exI [of _ i]) (simp add: ctrl_blk_set_def blk_deadline_def Let_def)
  qed
  then obtain i where i: "i < length bs" "ctrl_blk_set now v ttl bs = bs[i := ?b]"
      "bt_expiry_ms (bs ! i) = 0 \<or> bt_victim (bs ! i) = v" "bt_expiry_ms (bs ! i) = 0 \<longrightarrow> v \<notin> set (blk_live bs)" by blast
  then show "distinct (blk_live (ctrl_blk_set now v ttl bs))" "set (blk_live (ctrl_blk_set now v ttl bs)) = insert v (set (blk_live bs))"
    using blk_live_update [of i bs ?b] e assms(1) by simp_all
  show "?b \<in> set (ctrl_blk_set now v ttl bs)" unfolding i(2) using i(1) by (simp add: set_update_memI)
qed

lemma blk_live_cleared:
  assumes "distinct (blk_live bs)"
  shows "distinct (blk_live (map (\<lambda>b. if P b then blk_free else b) bs))"
    "set (blk_live (map (\<lambda>b. if P b then blk_free else b) bs)) = bt_victim ` {b \<in> set bs. bt_expiry_ms b \<noteq> 0 \<and> \<not> P b}"
proof -
  have f: "filter (\<lambda>b. bt_expiry_ms b \<noteq> 0) (map (\<lambda>b. if P b then blk_free else b) bs) = filter (\<lambda>b. bt_expiry_ms b \<noteq> 0 \<and> \<not> P b) bs"
    by (induction bs) (auto simp: blk_free_def)
  have "filter (\<lambda>b. bt_expiry_ms b \<noteq> 0 \<and> \<not> P b) bs = filter (\<lambda>b. \<not> P b) (filter (\<lambda>b. bt_expiry_ms b \<noteq> 0) bs)"
    by (simp add: conj_commute)
  then show "distinct (blk_live (map (\<lambda>b. if P b then blk_free else b) bs))"
    using assms unfolding blk_live_def f by (metis distinct_map_filter)
  show "set (blk_live (map (\<lambda>b. if P b then blk_free else b) bs)) = bt_victim ` {b \<in> set bs. bt_expiry_ms b \<noteq> 0 \<and> \<not> P b}"
    by (simp add: blk_live_def f)
qed

lemma blk_live_unique:
  assumes "distinct (blk_live bs)" "b \<in> set bs" "c \<in> set bs" "bt_expiry_ms b \<noteq> 0" "bt_expiry_ms c \<noteq> 0" "bt_victim b = bt_victim c"
  shows "b = c"
  using assms by (auto simp: blk_live_def distinct_map inj_on_def)

lemma blk_inv_set [simp]: "blk_inv bs \<Longrightarrow> blk_inv (ctrl_blk_set now v t bs)"
proof (cases "v \<in> set (blk_live bs) \<or> length (blk_live bs) < length bs")
  case True
  then show "blk_inv bs \<Longrightarrow> ?thesis" using ctrl_blk_set_live(1) by (simp add: blk_inv_def)
next
  case False
  have "bt_expiry_ms b \<noteq> 0" if "b \<in> set bs" for b
    using False length_filter_less [OF that, of "\<lambda>b. bt_expiry_ms b \<noteq> 0"] by (auto simp: blk_live_def)
  then have "find_idx (\<lambda>b. bt_expiry_ms b = 0) bs = None" by (auto simp: find_idx_None_iff)
  moreover have "find_idx (\<lambda>b. bt_expiry_ms b \<noteq> 0 \<and> bt_victim b = v) bs = None" using False by (simp add: find_live)
  ultimately have "ctrl_blk_set now v t bs = bs" by (simp add: ctrl_blk_set_def)
  then show "blk_inv bs \<Longrightarrow> ?thesis" by simp
qed

lemma blk_inv_cleared [simp]:
  "blk_inv bs \<Longrightarrow> blk_inv (map (\<lambda>b. if P b then blk_free else b) bs)" "blk_inv bs \<Longrightarrow> blk_inv (ctrl_blk_clear v bs)"
  using blk_live_cleared(1) [of bs] by (simp_all add: blk_inv_def ctrl_blk_clear_def)

lemma unblock_all_keeps:
  "router_inv r \<Longrightarrow> router_inv (foldl unblock r vs) \<and> ro_my_id (foldl unblock r vs) = ro_my_id r"
  by (induction vs arbitrary: r) (simp_all add: router_inv_unblock)

lemma node_inv_ctrl [inv_intros]:
  "node_inv cr n \<Longrightarrow> blk_inv (cs_blk c) \<Longrightarrow> node_inv cr (n\<lparr>g_ctrl := c\<rparr>)"
  by (rule node_inv_part(12))

lemma tx_inv_apply_config: "tx_inv q a h \<Longrightarrow> tx_inv q a (snd (apply_config ok c h))"
proof -
  assume t: "tx_inv q a h"
  then have "hal_wf h" by (simp add: tx_inv_def)
  with t show ?thesis by (intro tx_inv_radio [OF t]) (auto simp: apply_config_def arm_rx_def hal_wf_def inflight_def)
qed

lemma node_inv_ctrl_apply_power [inv_intros]: "node_inv cr n \<Longrightarrow> node_inv cr (ctrl_apply_power ok dbm persist n)"
  using node_inv_part(4) [OF _ tx_inv_apply_config [OF node_invD(1)], of cr n] by (simp add: ctrl_apply_power_def Let_def case_prod_unfold)

lemma node_inv_ctrl_blk_sweep [inv_intros]: "node_inv cr n \<Longrightarrow> node_inv cr (ctrl_blk_sweep now n)"
proof -
  assume n: "node_inv cr n"
  let ?r = "foldl unblock (g_router n) (map bt_victim (filter (blk_due now) (cs_blk (g_ctrl n))))"
  have "router_inv ?r \<and> ro_my_id ?r = g_my_id n"
    using unblock_all_keeps [OF node_invD(2) [OF n]] node_invD(3) [OF n] by simp
  then have "node_inv cr (n\<lparr>g_router := ?r\<rparr>)" by (simp add: node_inv_part(5) [OF n])
  then show ?thesis unfolding ctrl_blk_sweep_def Let_def by (rule node_inv_ctrl) (simp add: node_invD(10) [OF n])
qed

lemma ctrl_blk_apply_power [simp]:
  "g_ctrl (ctrl_apply_power ok dbm persist n) = g_ctrl n" "g_my_id (ctrl_apply_power ok dbm persist n) = g_my_id n"
  "g_router (ctrl_apply_power ok dbm persist n) = g_router n"
  by (simp_all add: ctrl_apply_power_def apply_config_def rf_save_def Let_def)

lemma node_inv_ctrl_sweeps [inv_intros]:
  "node_inv cr n \<Longrightarrow> node_inv cr (ctrl_heartbeat_sweep now ok n)" "node_inv cr n \<Longrightarrow> node_inv cr (ctrl_deadman now ok n)"
  using node_invD(10) [of cr n]
  by (auto simp: ctrl_heartbeat_sweep_def ctrl_deadman_def Let_def intro!: inv_intros)

lemma node_inv_ctrl_send_ack [inv_intros]: "node_inv cr n \<Longrightarrow> node_inv cr (ctrl_send_ack now m r a p n)"
  by (auto simp: ctrl_send_ack_def intro!: inv_intros split: option.split)

lemma node_inv_ctrl_commands [inv_intros]:
  assumes "node_inv cr n"
  shows "node_inv cr (ctrl_power now ok m r n)" "node_inv cr (ctrl_confirm now ok m r n)" "node_inv cr (ctrl_block now m r n)"
    "node_inv cr (ctrl_unblock now m r n)" "node_inv cr (ctrl_ble now m r n)" "node_inv cr (ctrl_retune now m r n)"
proof -
  note d = node_invD [OF assms]
  have b: "node_inv cr (n\<lparr>g_router := snd (block (g_router n) i)\<rparr>)" for i
    by (rule node_inv_part(5) [OF assms]) (simp_all add: d router_inv_block)
  have u: "node_inv cr (n\<lparr>g_router := unblock (g_router n) i\<rparr>)" for i
    by (rule node_inv_part(5) [OF assms]) (simp_all add: d router_inv_unblock)
  show "node_inv cr (ctrl_power now ok m r n)" "node_inv cr (ctrl_confirm now ok m r n)"
    using assms d(10) by (auto simp: ctrl_power_def ctrl_confirm_def Let_def intro!: inv_intros)
  show "node_inv cr (ctrl_block now m r n)"
    using b d(10) assms by (auto simp: ctrl_block_def Let_def case_prod_unfold intro!: node_inv_ctrl_send_ack node_inv_ctrl)
  show "node_inv cr (ctrl_unblock now m r n)"
    using node_inv_ctrl [OF u, of "(g_ctrl n)\<lparr>cs_blk := ctrl_blk_clear (cm_aux m) (cs_blk (g_ctrl n))\<rparr>" "cm_aux m"] d(10) assms
    by (auto simp: ctrl_unblock_def Let_def intro!: node_inv_ctrl_send_ack)
  show "node_inv cr (ctrl_ble now m r n)" "node_inv cr (ctrl_retune now m r n)"
    using assms by (auto simp: ctrl_ble_def ctrl_retune_def Let_def intro!: node_inv_ctrl_send_ack)
qed

lemma node_inv_ctrl_apply_verified [inv_intros]: "node_inv cr n \<Longrightarrow> node_inv cr (ctrl_apply_verified now ok m r n)"
proof -
  assume n: "node_inv cr n"
  define n1 where "n1 = ctrl_cfg_save (n\<lparr>g_ctrl := (g_ctrl n)\<lparr>cs_counter := cm_counter m\<rparr>\<rparr>)"
  define n2 where "n2 = n1\<lparr>g_ctrl := (g_ctrl n1)\<lparr>cs_contact_ms := now\<rparr>\<rparr>"
  have "blk_inv (cs_blk (g_ctrl n1))" "node_inv cr n1"
    using n node_invD(10) [OF n] by (simp_all add: n1_def node_inv_ctrl) (simp add: ctrl_cfg_save_def)
  then have "node_inv cr n2" by (simp add: n2_def node_inv_ctrl)
  then show ?thesis by (simp add: ctrl_apply_verified_def n1_def [symmetric] n2_def [symmetric] Let_def inv_intros)
qed

lemma ctrl_for_me_total: "\<exists>b. ctrl_for_me pay n = Some b"
proof (cases "CTRL_MSG_BYTES \<le> length pay \<and> cs_have_key (g_ctrl n)")
  case True
  then have "\<exists>t. rd_nid pay 2 = Some t" by (simp add: rd_safe ctrl_sizes)
  then show ?thesis by (auto simp: ctrl_for_me_def)
qed (auto simp: ctrl_for_me_def)

lemma ctrl_command_keeps:
  assumes "node_inv cr n"
  shows "\<exists>n'. ctrl_command cr now ok pay src n = Some n' \<and> node_inv cr n'"
proof -
  obtain v m where "ctrl_verify (ed_check cr) pay (cs_pubkey (g_ctrl n)) (cs_counter (g_ctrl n)) CtrlMsg_init = Some (v, m)"
    by (cases rule: ctrl_verify_cases [of "ed_check cr" pay "cs_pubkey (g_ctrl n)" "cs_counter (g_ctrl n)"])
  then show ?thesis using assms by (auto simp: ctrl_command_def intro!: inv_intros)
qed

lemma on_control_rx_keeps:
  assumes "node_inv cr n" "frame_ok buf"
  shows "\<exists>n'. on_control_rx cr now ok buf net lh n = Some n' \<and> node_inv cr n'"
proof -
  define n1 where "n1 = loc_flood_mark (nh_src net) (nh_pkt_id net) n"
  have n1: "node_inv cr n1" using assms(1) by (simp add: n1_def inv_intros)
  let ?pay = "drop HEADER_BYTES buf"
  obtain fm where fm: "ctrl_for_me ?pay n1 = Some fm" using ctrl_for_me_total by blast
  have c: "\<exists>k. (if fm then ctrl_command cr now ok ?pay (nh_src net) n1 else Some n1) = Some k \<and> node_inv cr k"
    using n1 ctrl_command_keeps [OF n1] by simp
  obtain a where a: "ctrl_parse_ack ?pay = Some a" using ctrl_parse_ack_total by blast
  show ?thesis
  proof (cases "nh_dst net = NODE_ID_BROADCAST")
    case True
    with c fm assms show ?thesis by (auto simp: on_control_rx_def Let_def n1_def [symmetric] intro!: inv_intros)
  next
    case False
    then show ?thesis using assms
      by (auto simp: on_control_rx_def Let_def a case_prod_unfold intro!: inv_intros split: option.splits)
  qed
qed

section \<open>Authentication and replay\<close>

text \<open>A command that this node has to obey: it is signed with the provisioned key over exactly its bytes, names this node
  and its counter is above the floor.\<close>

definition ctrl_valid :: "crypto \<Rightarrow> node \<Rightarrow> bytes \<Rightarrow> ctrl_msg \<Rightarrow> bool" where
  "ctrl_valid cr n pay m \<longleftrightarrow> cs_have_key (g_ctrl n) \<and> ctrl_msg_ok m \<and> cm_target m = g_my_id n \<and> cs_counter (g_ctrl n) < cm_counter m
     \<and> (\<exists>sig rest. pay = ctrl_wire m @ sig @ rest \<and> length sig = 64 \<and> ed_check cr sig (cs_pubkey (g_ctrl n)) (signed_view (ctrl_wire m)))"

text \<open>What the commands other than key provisioning leave alone.\<close>

definition ctrl_ident :: "node \<Rightarrow> node_id \<times> bool \<times> bytes \<times> u32 \<times> (bytes \<times> u32) option" where
  "ctrl_ident n = (g_my_id n, cs_have_key (g_ctrl n), cs_pubkey (g_ctrl n), cs_counter (g_ctrl n), fs_ctrl (g_flash n))"

lemma ctrl_ident_view: "ctl_view n' = ctl_view n \<Longrightarrow> ctrl_ident n' = ctrl_ident n"
  using ctl_viewD [of n' n] by (simp add: ctrl_ident_def)

lemma ctrl_ident_ack [simp]: "ctrl_ident (ctrl_send_ack now m r a p n) = ctrl_ident n"
  by (rule ctrl_ident_view) (simp add: ctrl_send_ack_def split: option.split)

lemma ctrl_ident_power [simp]: "ctrl_ident (ctrl_apply_power ok dbm persist n) = ctrl_ident n"
  by (simp add: ctrl_ident_def ctrl_apply_power_def apply_config_def rf_save_def Let_def)

lemma ctrl_ident_updates [simp]:
  "ctrl_ident (n\<lparr>g_ctrl := (g_ctrl n)\<lparr>cs_revert_ms := t\<rparr>\<rparr>) = ctrl_ident n"
  "ctrl_ident (n\<lparr>g_ctrl := (g_ctrl n)\<lparr>cs_revert_dbm := p, cs_pending_dbm := q, cs_revert_ms := t\<rparr>\<rparr>) = ctrl_ident n"
  "ctrl_ident (n\<lparr>g_ctrl := (g_ctrl n)\<lparr>cs_power_managed := b\<rparr>\<rparr>) = ctrl_ident n"
  "ctrl_ident (n\<lparr>g_ctrl := (g_ctrl n)\<lparr>cs_blk := bs\<rparr>\<rparr>) = ctrl_ident n"
  "ctrl_ident (n\<lparr>g_ctrl := (g_ctrl n)\<lparr>cs_contact_ms := t\<rparr>\<rparr>) = ctrl_ident n"
  "ctrl_ident (n\<lparr>g_reboot_at := t\<rparr>) = ctrl_ident n" "ctrl_ident (n\<lparr>g_ble_advertising := b\<rparr>) = ctrl_ident n"
  "ctrl_ident (n\<lparr>g_router := ro\<rparr>) = ctrl_ident n" "ctrl_ident (ble_cfg_save n) = ctrl_ident n" "ctrl_ident (rf_save c n) = ctrl_ident n"
  "ctrl_ident (n\<lparr>g_router := ro, g_ctrl := (g_ctrl n)\<lparr>cs_blk := bs\<rparr>\<rparr>) = ctrl_ident n"
  by (simp_all add: ctrl_ident_def ble_cfg_save_def rf_save_def)

lemma ctrl_ident_commands [simp]:
  "ctrl_ident (ctrl_power now ok m r n) = ctrl_ident n" "ctrl_ident (ctrl_confirm now ok m r n) = ctrl_ident n"
  "ctrl_ident (ctrl_block now m r n) = ctrl_ident n" "ctrl_ident (ctrl_unblock now m r n) = ctrl_ident n"
  "ctrl_ident (ctrl_ble now m r n) = ctrl_ident n" "ctrl_ident (ctrl_retune now m r n) = ctrl_ident n"
proof -
  have c: "ctrl_ident (n\<lparr>g_ctrl := c\<rparr>) = ctrl_ident n" if "cs_have_key c = cs_have_key (g_ctrl n)" "cs_pubkey c = cs_pubkey (g_ctrl n)"
    "cs_counter c = cs_counter (g_ctrl n)" for c n using that by (simp add: ctrl_ident_def)
  show "ctrl_ident (ctrl_power now ok m r n) = ctrl_ident n" by (simp add: ctrl_power_def Let_def c)
  show "ctrl_ident (ctrl_confirm now ok m r n) = ctrl_ident n" by (simp add: ctrl_confirm_def Let_def)
  show "ctrl_ident (ctrl_block now m r n) = ctrl_ident n"
    by (cases "block (g_router n) (cm_aux m)") (auto simp: ctrl_block_def Let_def c)
  show "ctrl_ident (ctrl_unblock now m r n) = ctrl_ident n" by (simp add: ctrl_unblock_def Let_def)
  show "ctrl_ident (ctrl_ble now m r n) = ctrl_ident n" by (simp add: ctrl_ble_def Let_def)
  show "ctrl_ident (ctrl_retune now m r n) = ctrl_ident n" by (simp add: ctrl_retune_def Let_def)
qed

lemma ctrl_ident_apply_verified:
  "ctrl_ident (ctrl_apply_verified now ok m r n) =
     (g_my_id n, cs_have_key (g_ctrl n), cs_pubkey (g_ctrl n), cm_counter m, Some (cs_pubkey (g_ctrl n), cm_counter m))"
proof -
  define n1 where "n1 = ctrl_cfg_save (n\<lparr>g_ctrl := (g_ctrl n)\<lparr>cs_counter := cm_counter m\<rparr>\<rparr>)"
  have "ctrl_ident (ctrl_apply_verified now ok m r n) = ctrl_ident n1"
    by (simp add: ctrl_apply_verified_def n1_def [symmetric] Let_def)
  then show ?thesis by (simp add: n1_def ctrl_ident_def ctrl_cfg_save_def)
qed

lemma ctrl_valid_verify:
  assumes "ctrl_for_me pay n = Some True"
    and "ctrl_verify (ed_check cr) pay (cs_pubkey (g_ctrl n)) (cs_counter (g_ctrl n)) CtrlMsg_init = Some (CTRL_OK, m)"
  shows "ctrl_valid cr n pay m"
proof (cases rule: ctrl_verify_cases [of "ed_check cr" pay "cs_pubkey (g_ctrl n)" "cs_counter (g_ctrl n)"])
  case (accept k)
  with assms(2) have k: "k = m" by simp
  let ?d = "drop (unsigned_len (cm_cmd m)) pay"
  have p: "pay = ctrl_wire m @ take 64 ?d @ drop 64 ?d" "length (take 64 ?d) = 64"
    using accept(3,6) unfolding append_take_drop_id k by simp_all
  have t: "rd_nid pay 2 = Some (g_my_id n)" "cs_have_key (g_ctrl n)"
    using assms(1) by (auto simp: ctrl_for_me_def bind_eq_Some_conv split: if_splits)
  have "rd_nid pay 2 = Some (cm_target m)"
    by (subst p(1)) (simp add: ctrl_wire_def rd_nid_at codec_simps)
  with t accept(2,4,5) p k show ?thesis unfolding ctrl_valid_def by auto
qed (use assms(2) in simp_all)

lemma on_control_rx_outcome:
  assumes "on_control_rx cr now ok buf net lh n = Some n'"
  obtains (same) "ctl_view n' = ctl_view n"
  | (obeyed) m n1 where "ctrl_valid cr n (drop HEADER_BYTES buf) m" "nh_dst net = NODE_ID_BROADCAST" "ctl_view n1 = ctl_view n"
      "ctl_view n' = ctl_view (ctrl_apply_verified now ok m (nh_src net) n1)"
proof (cases "nh_dst net = NODE_ID_BROADCAST \<and> \<not> loc_flood_seen (nh_src net) (nh_pkt_id net) n")
  case False
  obtain a where a: "ctrl_parse_ack (drop HEADER_BYTES buf) = Some a" using ctrl_parse_ack_total by blast
  have "ctl_view n' = ctl_view n" using assms False
    by (auto simp: on_control_rx_def Let_def a case_prod_unfold split: if_splits option.splits)
  then show thesis by (rule same)
next
  case True
  define n1 where "n1 = loc_flood_mark (nh_src net) (nh_pkt_id net) n"
  have n1: "ctl_view n1 = ctl_view n" by (simp add: n1_def)
  let ?pay = "drop HEADER_BYTES buf"
  obtain fm where fm: "ctrl_for_me ?pay n1 = Some fm" using ctrl_for_me_total by blast
  obtain v m where v: "ctrl_verify (ed_check cr) ?pay (cs_pubkey (g_ctrl n1)) (cs_counter (g_ctrl n1)) CtrlMsg_init = Some (v, m)"
    by (cases rule: ctrl_verify_cases [of "ed_check cr" ?pay "cs_pubkey (g_ctrl n1)" "cs_counter (g_ctrl n1)"])
  have r: "n' = reflood buf net (if fm then if v \<noteq> CTRL_OK then emit (Ctrl_rejected v) n1 else ctrl_apply_verified now ok m (nh_src net) n1 else n1)"
    using assms True fm v by (auto simp: on_control_rx_def Let_def n1_def [symmetric] ctrl_command_def)
  show thesis
  proof (cases "fm \<and> v = CTRL_OK")
    case True
    then have "ctrl_valid cr n1 ?pay m" using fm v by (intro ctrl_valid_verify) simp_all
    then have "ctrl_valid cr n ?pay m" using ctl_viewD [OF n1] by (simp add: ctrl_valid_def)
    then show thesis using True r n1 \<open>nh_dst net = NODE_ID_BROADCAST \<and> _\<close> by (intro obeyed) simp_all
  next
    case False
    then show thesis using r n1 by (intro same) auto
  qed
qed

text \<open>C3. Nothing on the air changes the control state but a signed command. Whatever control frame arrives, either the
  control state, the flash, the radio, the router, the pending reboot and the transfer state stay as they are, or the frame
  is a flood whose payload is a command signed under the provisioned key over exactly its bytes, for this node, with a
  counter above the floor; then that counter is the new floor, in memory and in flash.\<close>

theorem control_authenticated:
  assumes "on_control_rx cr now ok buf net lh n = Some n'"
  shows "g_ctrl n' = g_ctrl n \<and> g_flash n' = g_flash n \<and> g_radio n' = g_radio n \<and> g_router n' = g_router n
      \<and> g_reboot_at n' = g_reboot_at n \<and> g_xfer n' = g_xfer n
    \<or> (\<exists>m. nh_dst net = NODE_ID_BROADCAST \<and> ctrl_valid cr n (drop HEADER_BYTES buf) m
        \<and> cs_counter (g_ctrl n') = cm_counter m \<and> fs_ctrl (g_flash n') = Some (cs_pubkey (g_ctrl n), cm_counter m))"
  using assms
proof (cases rule: on_control_rx_outcome)
  case same
  then show ?thesis using ctl_viewD by blast
next
  case (obeyed m n1)
  have "ctrl_ident n' = ctrl_ident (ctrl_apply_verified now ok m (nh_src net) n1)" using obeyed(4) by (rule ctrl_ident_view)
  then have "cs_counter (g_ctrl n') = cm_counter m" "fs_ctrl (g_flash n') = Some (cs_pubkey (g_ctrl n), cm_counter m)"
    using ctl_viewD(4) [OF obeyed(3)] unfolding ctrl_ident_apply_verified by (simp_all add: ctrl_ident_def)
  then show ?thesis using obeyed(1,2) by blast
qed

definition toy_crypto :: crypto where
  "toy_crypto = \<lparr>ed_sign = toy_sign, ed_check = toy_check, blake = (\<lambda>k. take 16 k)\<rparr>"

definition demo_ctrl_node :: node where
  "demo_ctrl_node = (let n = node_boot (nid_from_u32 1) (replicate 32 0) [] demo_cfg in
     n\<lparr>g_ctrl := (g_ctrl n)\<lparr>cs_have_key := True, cs_pubkey := [1]\<rparr>\<rparr>)"

definition demo_ctrl_pay :: bytes where
  "demo_ctrl_pay = the (ctrl_build toy_sign CTRL_POWER (nid_from_u32 1) 10 5 [1] 87)"

definition demo_ctrl_frame :: bytes where
  "demo_ctrl_frame = mk_frame demo_link demo_net demo_ctrl_pay"

theorem control_authenticated_witness:
  "\<exists>n' m. on_control_rx toy_crypto 9 True demo_ctrl_frame demo_net demo_link demo_ctrl_node = Some n'
     \<and> cs_counter (g_ctrl n') = 5 \<and> ctrl_valid toy_crypto demo_ctrl_node demo_ctrl_pay m \<and> cm_counter m = 5"
proof -
  have "map_option (\<lambda>n. cs_counter (g_ctrl n)) (on_control_rx toy_crypto 9 True demo_ctrl_frame demo_net demo_link demo_ctrl_node) = Some 5"
    by code_simp
  then obtain n' where n': "on_control_rx toy_crypto 9 True demo_ctrl_frame demo_net demo_link demo_ctrl_node = Some n'"
      "cs_counter (g_ctrl n') = 5" by blast
  moreover have "cs_counter (g_ctrl demo_ctrl_node) = 0" by (simp add: demo_ctrl_node_def Let_def node_boot_def)
  moreover have "drop HEADER_BYTES demo_ctrl_frame = demo_ctrl_pay"
    by (simp add: demo_ctrl_frame_def mk_frame_def HEADER_BYTES_def)
  ultimately show ?thesis using control_authenticated [OF n'(1)] by auto
qed

text \<open>Control frames and reboots, in any order. A reboot starts from the flash.\<close>

datatype ctrl_event = Ctrl_frame u32 bool bytes net_header link_header | Ctrl_reboot boot_env

fun ctrl_steps :: "crypto \<Rightarrow> ctrl_event list \<Rightarrow> node \<Rightarrow> node option" where
  "ctrl_steps cr [] n = Some n"
| "ctrl_steps cr (Ctrl_frame now ok buf net lh # evs) n = do { n \<leftarrow> on_control_rx cr now ok buf net lh n; ctrl_steps cr evs n }"
| "ctrl_steps cr (Ctrl_reboot e # evs) n = ctrl_steps cr evs (reboot e n)"

definition ctrl_persisted :: "node \<Rightarrow> bool" where
  "ctrl_persisted n \<longleftrightarrow> cs_have_key (g_ctrl n) \<and> fs_ctrl (g_flash n) = Some (cs_pubkey (g_ctrl n), cs_counter (g_ctrl n))"

lemma ctrl_ident_reboot: "ctrl_persisted n \<Longrightarrow> ctrl_ident (reboot e n) = ctrl_ident n"
proof -
  assume p: "ctrl_persisted n"
  have b: "ctrl_ident (boot_ble e m) = ctrl_ident m" for m
    by (simp add: boot_ble_def ble_cfg_load_def ble_cfg_save_def ble_start_adv_def ctrl_ident_def Let_def split: option.split)
  show ?thesis using p
    by (simp add: reboot_def boot_settings_def b Let_def) (simp add: ctrl_cfg_load_def cfg_load_updates batt_refresh_def ctrl_persisted_def ctrl_ident_def node_boot_def)
qed

lemma ctrl_persisted_ident: "ctrl_ident n' = ctrl_ident n \<Longrightarrow> ctrl_persisted n' = ctrl_persisted n"
  by (simp add: ctrl_persisted_def ctrl_ident_def)

lemma on_control_rx_floor:
  assumes "on_control_rx cr now ok buf net lh n = Some n'" "ctrl_persisted n"
  shows "ctrl_persisted n' \<and> cs_pubkey (g_ctrl n') = cs_pubkey (g_ctrl n) \<and> cs_counter (g_ctrl n) \<le> cs_counter (g_ctrl n')"
  using assms(1)
proof (cases rule: on_control_rx_outcome)
  case same
  have "ctrl_persisted n'" using ctrl_persisted_ident [OF ctrl_ident_view [OF same]] assms(2) by blast
  then show ?thesis by (simp add: ctl_viewD(4) [OF same])
next
  case (obeyed m n1)
  have "ctrl_ident n' = ctrl_ident (ctrl_apply_verified now ok m (nh_src net) n1)" using obeyed(4) by (rule ctrl_ident_view)
  then show ?thesis using ctl_viewD(4) [OF obeyed(3)] obeyed(1) assms(2)
    unfolding ctrl_ident_apply_verified by (auto simp: ctrl_ident_def ctrl_persisted_def ctrl_valid_def)
qed

lemma ctrl_steps_floor:
  "ctrl_steps cr evs n = Some n' \<Longrightarrow> ctrl_persisted n \<Longrightarrow>
     ctrl_persisted n' \<and> cs_pubkey (g_ctrl n') = cs_pubkey (g_ctrl n) \<and> cs_counter (g_ctrl n) \<le> cs_counter (g_ctrl n')"
proof (induction cr evs n rule: ctrl_steps.induct)
  case (2 cr now ok buf net lh evs n)
  then obtain k where k: "on_control_rx cr now ok buf net lh n = Some k" "ctrl_steps cr evs k = Some n'"
    by (auto simp: bind_eq_Some_conv)
  note f = on_control_rx_floor [OF k(1) 2(3)]
  have "cs_counter (g_ctrl k) \<le> cs_counter (g_ctrl n')" "cs_pubkey (g_ctrl n') = cs_pubkey (g_ctrl k)" "ctrl_persisted n'"
    using 2(1) [OF k] f by blast+
  then show ?case using f order_trans by metis
next
  case (3 cr e evs n)
  have "ctrl_ident (reboot e n) = ctrl_ident n" using 3(3) by (rule ctrl_ident_reboot)
  moreover from this have "ctrl_persisted (reboot e n)" using 3(3) ctrl_persisted_ident by blast
  ultimately show ?case using 3(1) [of] 3(2) by (auto simp: ctrl_ident_def)
qed simp

text \<open>C4. A command is obeyed at most once. After a command has been obeyed, no control frames and reboots, in whatever
  order and number, lead to a state in which a frame with that command, or with any other of a counter up to it, would be
  obeyed again.\<close>

theorem control_no_replay:
  assumes "on_control_rx cr now ok buf net lh n = Some n1" "ctrl_persisted n" "cs_counter (g_ctrl n) < cs_counter (g_ctrl n1)"
    and "ctrl_steps cr evs n1 = Some n'"
  shows "(\<exists>m. ctrl_valid cr n (drop HEADER_BYTES buf) m \<and> cs_counter (g_ctrl n1) = cm_counter m)
    \<and> cs_pubkey (g_ctrl n') = cs_pubkey (g_ctrl n)
    \<and> (cm_counter m' \<le> cs_counter (g_ctrl n1) \<longrightarrow> \<not> ctrl_valid cr n' pay m')"
proof -
  note f = on_control_rx_floor [OF assms(1,2)]
  have g: "cs_counter (g_ctrl n1) \<le> cs_counter (g_ctrl n')" "cs_pubkey (g_ctrl n') = cs_pubkey (g_ctrl n)"
    using ctrl_steps_floor [OF assms(4)] f by auto
  have "\<exists>m. ctrl_valid cr n (drop HEADER_BYTES buf) m \<and> cs_counter (g_ctrl n1) = cm_counter m"
    using assms(1)
  proof (cases rule: on_control_rx_outcome)
    case same
    then show ?thesis using assms(3) ctl_viewD(4) [OF same] by simp
  next
    case (obeyed m k)
    have "ctrl_ident n1 = ctrl_ident (ctrl_apply_verified now ok m (nh_src net) k)" using obeyed(4) by (rule ctrl_ident_view)
    then show ?thesis using obeyed(1) unfolding ctrl_ident_apply_verified by (auto simp: ctrl_ident_def)
  qed
  then show ?thesis using g by (auto simp: ctrl_valid_def)
qed

definition demo_boot :: boot_env where
  "demo_boot = \<lparr>be_batt_raw = 0, be_pin = [], be_adv_ok = True\<rparr>"

definition demo_ctrl_saved :: node where
  "demo_ctrl_saved = ctrl_cfg_save demo_ctrl_node"

theorem control_no_replay_witness:
  "\<exists>n1 n'. on_control_rx toy_crypto 9 True demo_ctrl_frame demo_net demo_link demo_ctrl_saved = Some n1
     \<and> ctrl_steps toy_crypto [Ctrl_reboot demo_boot] n1 = Some n' \<and> cs_counter (g_ctrl n1) = 5
     \<and> \<not> ctrl_valid toy_crypto n' demo_ctrl_pay (CtrlMsg_init\<lparr>cm_counter := 5\<rparr>)"
proof -
  have "map_option (\<lambda>n. cs_counter (g_ctrl n)) (on_control_rx toy_crypto 9 True demo_ctrl_frame demo_net demo_link demo_ctrl_saved) = Some 5"
    by code_simp
  then obtain n1 where n1: "on_control_rx toy_crypto 9 True demo_ctrl_frame demo_net demo_link demo_ctrl_saved = Some n1"
      "cs_counter (g_ctrl n1) = 5" by blast
  have z: "cs_counter (g_ctrl demo_ctrl_saved) = 0" "ctrl_persisted demo_ctrl_saved"
    by (simp_all add: demo_ctrl_saved_def ctrl_cfg_save_def demo_ctrl_node_def Let_def node_boot_def ctrl_persisted_def)
  then have "cs_counter (g_ctrl demo_ctrl_saved) < cs_counter (g_ctrl n1)" by (simp add: n1(2))
  moreover have "ctrl_steps toy_crypto [Ctrl_reboot demo_boot] n1 = Some (reboot demo_boot n1)" by simp
  ultimately show ?thesis
    using control_no_replay [OF n1(1) z(2), of "[Ctrl_reboot demo_boot]" "reboot demo_boot n1" "CtrlMsg_init\<lparr>cm_counter := 5\<rparr>" demo_ctrl_pay] n1
    by auto
qed

section \<open>The power rails\<close>

definition power :: "node \<Rightarrow> u8" where
  "power n = rc_power_dbm (hs_cfg (g_radio n))"

text \<open>Power, rail and saved configuration, which the acknowledgement does not touch.\<close>

definition rail :: "node \<Rightarrow> u8 \<times> u8 \<times> u8 \<times> u32 \<times> radio_cfg option" where
  "rail n = (power n, cs_revert_dbm (g_ctrl n), cs_pending_dbm (g_ctrl n), cs_revert_ms (g_ctrl n), fs_rf (g_flash n))"

lemma rail_ack [simp]: "rail (ctrl_send_ack now m r a p n) = rail n"
proof -
  have "ctl_view (ctrl_send_ack now m r a p n) = ctl_view n" by (simp add: ctrl_send_ack_def split: option.split)
  from ctl_viewD [OF this] show ?thesis by (simp add: rail_def power_def)
qed

lemma rail_apply_power [simp]:
  "rail (ctrl_apply_power True dbm False n) = (dbm, cs_revert_dbm (g_ctrl n), cs_pending_dbm (g_ctrl n), cs_revert_ms (g_ctrl n), fs_rf (g_flash n))"
  by (simp add: rail_def power_def ctrl_apply_power_def apply_config_def arm_rx_def Let_def)

lemma rail_ctrl [simp]:
  "rail (n\<lparr>g_ctrl := c\<rparr>) = (power n, cs_revert_dbm c, cs_pending_dbm c, cs_revert_ms c, fs_rf (g_flash n))"
  by (simp add: rail_def power_def)

lemma rail_parts [simp]:
  "power (ctrl_apply_power True dbm False n) = dbm" "fs_rf (g_flash (ctrl_apply_power True dbm False n)) = fs_rf (g_flash n)"
  using rail_apply_power [of dbm n] by (simp_all add: rail_def)

lemma rail_ctrl_power:
  assumes "sint (cm_arg m) \<le> 22"
  shows "sint (cm_arg m) < sint (power n) \<Longrightarrow> rail (ctrl_power now True m r n) = (cm_arg m, power n, cm_arg m, now + 60000, fs_rf (g_flash n))"
    and "\<not> sint (cm_arg m) < sint (power n) \<Longrightarrow>
      rail (ctrl_power now True m r n) = (cm_arg m, cs_revert_dbm (g_ctrl n), cs_pending_dbm (g_ctrl n), 0, fs_rf (g_flash n))"
proof -
  have w: "\<not> sint LORA_MAX_TX_POWER_DBM < sint (cm_arg m)" using assms by (simp add: LORA_MAX_TX_POWER_DBM_def)
  show "sint (cm_arg m) < sint (power n) \<Longrightarrow> rail (ctrl_power now True m r n) = (cm_arg m, power n, cm_arg m, now + 60000, fs_rf (g_flash n))"
    using w by (simp add: ctrl_power_def power_def [symmetric] Let_def CTRL_REVERT_WINDOW_MS_def)
  show "\<not> sint (cm_arg m) < sint (power n) \<Longrightarrow>
      rail (ctrl_power now True m r n) = (cm_arg m, cs_revert_dbm (g_ctrl n), cs_pending_dbm (g_ctrl n), 0, fs_rf (g_flash n))"
    using w by (simp add: ctrl_power_def power_def [symmetric] Let_def)
qed

lemma rail_apply_verified:
  shows "cm_cmd m = CTRL_POWER \<Longrightarrow> sint (cm_arg m) \<le> 22 \<Longrightarrow> sint (cm_arg m) < sint (power n) \<Longrightarrow>
      rail (ctrl_apply_verified now True m r n) = (cm_arg m, power n, cm_arg m, now + 60000, fs_rf (g_flash n))"
    and "cm_cmd m = CTRL_CONFIRM \<Longrightarrow> cs_revert_ms (g_ctrl n) \<noteq> 0 \<Longrightarrow> cm_arg m = cs_pending_dbm (g_ctrl n) \<Longrightarrow>
      rail (ctrl_apply_verified now True m r n) = (cm_arg m, cs_revert_dbm (g_ctrl n), cm_arg m, 0, fs_rf (g_flash n))"
    and "cm_cmd m = CTRL_POWER \<Longrightarrow> sint (cm_arg m) \<le> 22 \<Longrightarrow> \<not> sint (cm_arg m) < sint (power n) \<Longrightarrow>
      rail (ctrl_apply_verified now True m r n) = (cm_arg m, cs_revert_dbm (g_ctrl n), cs_pending_dbm (g_ctrl n), 0, fs_rf (g_flash n))"
proof -
  define n1 where "n1 = ctrl_cfg_save (n\<lparr>g_ctrl := (g_ctrl n)\<lparr>cs_counter := cm_counter m\<rparr>\<rparr>)"
  define n2 where "n2 = n1\<lparr>g_ctrl := (g_ctrl n1)\<lparr>cs_contact_ms := now\<rparr>\<rparr>"
  have n2: "power n2 = power n" "fs_rf (g_flash n2) = fs_rf (g_flash n)" "cs_revert_ms (g_ctrl n2) = cs_revert_ms (g_ctrl n)"
    "cs_pending_dbm (g_ctrl n2) = cs_pending_dbm (g_ctrl n)" "cs_revert_dbm (g_ctrl n2) = cs_revert_dbm (g_ctrl n)"
    by (simp_all add: n2_def n1_def power_def ctrl_cfg_save_def)
  have v: "ctrl_apply_verified now True m r n = (if cm_cmd m = CTRL_POWER then ctrl_power now True m r n2
      else if cm_cmd m = CTRL_CONFIRM then ctrl_confirm now True m r n2 else ctrl_apply_verified now True m r n)"
    by (simp add: ctrl_apply_verified_def n1_def [symmetric] n2_def [symmetric] Let_def)
  show "cm_cmd m = CTRL_POWER \<Longrightarrow> sint (cm_arg m) \<le> 22 \<Longrightarrow> sint (cm_arg m) < sint (power n) \<Longrightarrow>
      rail (ctrl_apply_verified now True m r n) = (cm_arg m, power n, cm_arg m, now + 60000, fs_rf (g_flash n))"
    by (subst v) (simp add: rail_ctrl_power(1) n2)
  show "cm_cmd m = CTRL_CONFIRM \<Longrightarrow> cs_revert_ms (g_ctrl n) \<noteq> 0 \<Longrightarrow> cm_arg m = cs_pending_dbm (g_ctrl n) \<Longrightarrow>
      rail (ctrl_apply_verified now True m r n) = (cm_arg m, cs_revert_dbm (g_ctrl n), cm_arg m, 0, fs_rf (g_flash n))"
    by (subst v) (simp add: ctrl_confirm_def n2 Let_def ctrl_cmds)
  show "cm_cmd m = CTRL_POWER \<Longrightarrow> sint (cm_arg m) \<le> 22 \<Longrightarrow> \<not> sint (cm_arg m) < sint (power n) \<Longrightarrow>
      rail (ctrl_apply_verified now True m r n) = (cm_arg m, cs_revert_dbm (g_ctrl n), cs_pending_dbm (g_ctrl n), 0, fs_rf (g_flash n))"
    by (subst v) (simp add: rail_ctrl_power(2) n2)
qed

lemma rail_deadman:
  "cs_revert_ms (g_ctrl n) \<noteq> 0 \<Longrightarrow> power (ctrl_deadman now True n) = (if before32 now (cs_revert_ms (g_ctrl n)) then power n else cs_revert_dbm (g_ctrl n))"
  "cs_revert_ms (g_ctrl n) = 0 \<Longrightarrow> power (ctrl_deadman now True n) = power n"
  "cs_revert_ms (g_ctrl (ctrl_deadman now True n)) = (if before32 now (cs_revert_ms (g_ctrl n)) then cs_revert_ms (g_ctrl n) else 0)"
  using rail_apply_power [of "cs_revert_dbm (g_ctrl n)" "n\<lparr>g_ctrl := (g_ctrl n)\<lparr>cs_revert_ms := 0\<rparr>\<rparr>"]
  by (auto simp: ctrl_deadman_def rail_def)

text \<open>C21. The dead-man rail. A signed command that lowers the power takes effect at once and is never written to flash.
  Unless it is confirmed, the main loop restores the power it replaced sixty seconds later, not earlier, wherever the
  clock wraps (except when the deadline itself would be 0, the value for a disarmed rail), and it does so once: the rail
  is armed until then and disarmed afterwards. A confirmation of the
  pending value keeps it, and a command that does not lower the power again takes effect and disarms the rail for good. The rail remembers one step only: after a second lowering before the confirmation, what is
  restored is the first, never confirmed value and not the power the node had.\<close>

theorem deadman_rail:
  assumes "cm_cmd m = CTRL_POWER" "sint (cm_arg m) \<le> 22" "sint (cm_arg m) < sint (power n)" "now + 60000 \<noteq> 0" "unat e < 2 ^ 31"
    and "n1 = ctrl_apply_verified now True m r n"
  shows "power n1 = cm_arg m \<and> fs_rf (g_flash n1) = fs_rf (g_flash n)
    \<and> power (ctrl_deadman (now + e) True n1) = (if unat e < 60000 then cm_arg m else power n)
    \<and> cs_revert_ms (g_ctrl (ctrl_deadman (now + e) True n1)) = (if unat e < 60000 then now + 60000 else 0)
    \<and> (cm_cmd c = CTRL_CONFIRM \<and> cm_arg c = cm_arg m \<longrightarrow>
         power (ctrl_deadman (now + e) True (ctrl_apply_verified t True c r n1)) = cm_arg m)
    \<and> (cm_cmd m2 = CTRL_POWER \<and> sint (cm_arg m2) < sint (cm_arg m) \<and> 60000 \<le> unat e \<longrightarrow>
         power (ctrl_deadman (now + e) True (ctrl_apply_verified now True m2 r n1)) = cm_arg m)
    \<and> (cm_cmd m3 = CTRL_POWER \<and> sint (cm_arg m3) \<le> 22 \<and> \<not> sint (cm_arg m3) < sint (cm_arg m) \<and> n3 = ctrl_apply_verified t3 True m3 r n1 \<longrightarrow>
         power n3 = cm_arg m3 \<and> cs_revert_ms (g_ctrl n3) = 0 \<and> power (ctrl_deadman (now + e) True n3) = cm_arg m3)"
proof -
  have r1: "rail n1 = (cm_arg m, power n, cm_arg m, now + 60000, fs_rf (g_flash n))"
    unfolding assms(6) using assms(1-3) by (rule rail_apply_verified)
  then have f: "power n1 = cm_arg m" "cs_revert_dbm (g_ctrl n1) = power n" "cs_pending_dbm (g_ctrl n1) = cm_arg m"
    "cs_revert_ms (g_ctrl n1) = now + 60000" "fs_rf (g_flash n1) = fs_rf (g_flash n)" by (simp_all add: rail_def)
  have b: "before32 (now + e) (now + 60000) \<longleftrightarrow> unat e < 60000"
    using before32_deadline [of 60000 e now] assms(5) by simp
  have "power (ctrl_deadman (now + e) True (ctrl_apply_verified t True c r n1)) = cm_arg m"
    if "cm_cmd c = CTRL_CONFIRM" "cm_arg c = cm_arg m"
  proof -
    have "rail (ctrl_apply_verified t True c r n1) = (cm_arg c, cs_revert_dbm (g_ctrl n1), cm_arg c, 0, fs_rf (g_flash n1))"
      using that(1) by (rule rail_apply_verified(2)) (simp_all add: f assms(4) that)
    then show ?thesis using that(2) by (simp add: rail_def rail_deadman)
  qed
  moreover have "power (ctrl_deadman (now + e) True (ctrl_apply_verified now True m2 r n1)) = cm_arg m"
    if "cm_cmd m2 = CTRL_POWER" "sint (cm_arg m2) < sint (cm_arg m)" "60000 \<le> unat e"
  proof -
    have "rail (ctrl_apply_verified now True m2 r n1) = (cm_arg m2, power n1, cm_arg m2, now + 60000, fs_rf (g_flash n1))"
      using that(1) by (rule rail_apply_verified(1)) (use that assms(2) f in simp_all)
    then show ?thesis using that(3) b f assms(4) by (simp add: rail_def rail_deadman)
  qed
  moreover have "power n3 = cm_arg m3 \<and> cs_revert_ms (g_ctrl n3) = 0 \<and> power (ctrl_deadman (now + e) True n3) = cm_arg m3"
    if "cm_cmd m3 = CTRL_POWER" "sint (cm_arg m3) \<le> 22" "\<not> sint (cm_arg m3) < sint (cm_arg m)" "n3 = ctrl_apply_verified t3 True m3 r n1"
    using rail_apply_verified(3) [of m3 n1 t3 r] f(1) that by (auto simp: rail_def rail_deadman(2))
  ultimately show ?thesis using f b assms(4) by (simp add: rail_deadman)
qed

definition demo_power :: "u8 \<Rightarrow> ctrl_msg" where
  "demo_power dbm = CtrlMsg_init\<lparr>cm_cmd := CTRL_POWER, cm_arg := dbm\<rparr>"

theorem deadman_rail_witness:
  "power (ctrl_deadman (1000 + 70000) True (ctrl_apply_verified 1000 True (demo_power 10) (nid_from_u32 1) demo_ctrl_node)) = 22
   \<and> power (ctrl_deadman (1000 + 70000) True (ctrl_apply_verified 1000 True (demo_power 5) (nid_from_u32 1)
        (ctrl_apply_verified 1000 True (demo_power 10) (nid_from_u32 1) demo_ctrl_node))) = 10"
proof -
  have p: "power demo_ctrl_node = 22" by (simp add: power_def demo_ctrl_node_def Let_def node_boot_def demo_cfg_def)
  have m: "cm_cmd (demo_power d) = CTRL_POWER" "cm_arg (demo_power d) = d" for d by (simp_all add: demo_power_def)
  have c: "sint (cm_arg (demo_power 10)) \<le> 22" "sint (cm_arg (demo_power 10)) < sint (power demo_ctrl_node)"
    "sint (cm_arg (demo_power 5)) < sint (cm_arg (demo_power 10))" unfolding m p by code_simp+
  have e: "(1000 :: u32) + 60000 \<noteq> 0" "unat (70000 :: u32) < 2 ^ 31" "\<not> unat (70000 :: u32) < 60000" "60000 \<le> unat (70000 :: u32)" by simp_all
  note d = deadman_rail [OF m(1) c(1,2) e(1,2) refl, of "nid_from_u32 1" "demo_power 0" 0 "demo_power 5", of "demo_power 0" demo_ctrl_node 0, unfolded m p]
  show ?thesis using d e c(3) unfolding m p by (simp only: if_False simp_thms)
qed

lemma flash_ack: "g_flash (ctrl_send_ack now m r a p n) = g_flash n" "g_radio (ctrl_send_ack now m r a p n) = g_radio n"
  "g_reboot_at (ctrl_send_ack now m r a p n) = g_reboot_at n"
proof -
  have "ctl_view (ctrl_send_ack now m r a p n) = ctl_view n" by (simp add: ctrl_send_ack_def split: option.split)
  from ctl_viewD [OF this] show "g_flash (ctrl_send_ack now m r a p n) = g_flash n" "g_radio (ctrl_send_ack now m r a p n) = g_radio n"
    "g_reboot_at (ctrl_send_ack now m r a p n) = g_reboot_at n" by simp_all
qed

text \<open>A retune is all or nothing, and saves more than the PHY: a blob with a spreading factor, coding rate, frequency or
  bandwidth out of range changes nothing in flash; a good one is saved whole and a reboot is scheduled, and with it the
  power the radio has at that moment becomes the saved power, provisional or not, which is the one the heartbeat
  watchdog later restores.\<close>

theorem retune_saves_power:
  assumes "c = retune_cfg (cm_cfg m) (hs_cfg (g_radio n))" "n' = ctrl_retune now m r n"
  shows "(\<not> phy_ok c \<longrightarrow> g_flash n' = g_flash n \<and> g_reboot_at n' = g_reboot_at n)
    \<and> (phy_ok c \<longrightarrow> fs_rf (g_flash n') = Some c \<and> flash_power n' = power n \<and> g_reboot_at n' = now + 3000 \<and> g_radio n' = g_radio n)"
  unfolding assms
  by (auto simp: ctrl_retune_def Let_def flash_ack flash_power_def rf_save_def ble_cfg_save_def retune_cfg_def power_def)

section \<open>Block lifetimes\<close>

lemma unblock_blocked:
  assumes "distinct (ro_blocked r)"
  shows "set (ro_blocked (unblock r i)) = set (ro_blocked r) - {i}" "distinct (ro_blocked (unblock r i))"
proof -
  have "set (ro_blocked (unblock r i)) = set (ro_blocked r) - {i} \<and> distinct (ro_blocked (unblock r i))"
  proof (cases "find_idx (\<lambda>b. b = i) (ro_blocked r)")
    case None
    then have "unblock r i = r" by (simp add: unblock_def)
    moreover have "i \<notin> set (ro_blocked r)" using None by (auto simp: find_idx_None_iff)
    ultimately show ?thesis using assms by simp
  next
    case (Some k)
    then show ?thesis using unblock_set [OF assms Some] by (simp add: unblock_def)
  qed
  then show "set (ro_blocked (unblock r i)) = set (ro_blocked r) - {i}" "distinct (ro_blocked (unblock r i))" by blast+
qed

lemma unblock_all_blocked:
  "distinct (ro_blocked r) \<Longrightarrow> set (ro_blocked (foldl unblock r vs)) = set (ro_blocked r) - set vs"
  by (induction vs arbitrary: r) (auto simp: unblock_blocked)

lemma blocked_ack: "g_router (ctrl_send_ack now m r a p n) = g_router n" "g_ctrl (ctrl_send_ack now m r a p n) = g_ctrl n"
proof -
  have "ctl_view (ctrl_send_ack now m r a p n) = ctl_view n" by (simp add: ctrl_send_ack_def split: option.split)
  from ctl_viewD [OF this] show "g_router (ctrl_send_ack now m r a p n) = g_router n" "g_ctrl (ctrl_send_ack now m r a p n) = g_ctrl n" by simp_all
qed

definition block_ttl_min :: "u8 \<Rightarrow> u8" where
  "block_ttl_min arg = (let t = (if 0 < sint arg then arg else CTRL_BLOCK_TTL_DEFAULT_MIN) in
     if CTRL_BLOCK_TTL_MAX_MIN < t then CTRL_BLOCK_TTL_MAX_MIN else t)"

lemma ctrl_block_effect:
  assumes "\<not> is_zero (cm_aux m)" "cm_aux m \<noteq> g_my_id n"
  shows "g_router (ctrl_block now m r n) = snd (block (g_router n) (cm_aux m))"
    "cs_blk (g_ctrl (ctrl_block now m r n)) = (if fst (block (g_router n) (cm_aux m))
       then ctrl_blk_set now (cm_aux m) (block_ttl_min (cm_arg m)) (cs_blk (g_ctrl n)) else cs_blk (g_ctrl n))"
  using assms by (simp_all add: ctrl_block_def block_ttl_min_def Let_def case_prod_unfold blocked_ack)

lemma block_blocked:
  "fst (block r i) \<Longrightarrow> set (ro_blocked (snd (block r i))) = insert i (set (ro_blocked r))"
  "fst (block r i) \<Longrightarrow> i \<in> set (ro_blocked r) \<or> length (ro_blocked r) < MAX_BLOCKED"
  "\<not> fst (block r i) \<Longrightarrow> snd (block r i) = r"
  by (auto simp: block_def is_blocked_def split: if_splits)

lemma block_ttl_min_bounds: "block_ttl_min arg \<noteq> 0" "unat (block_ttl_min arg) \<le> 120"
proof -
  show "block_ttl_min arg \<noteq> 0"
    by (auto simp: block_ttl_min_def CTRL_BLOCK_TTL_DEFAULT_MIN_def CTRL_BLOCK_TTL_MAX_MIN_def Let_def)
  have "block_ttl_min arg \<le> 120"
    by (auto simp: block_ttl_min_def CTRL_BLOCK_TTL_DEFAULT_MIN_def CTRL_BLOCK_TTL_MAX_MIN_def Let_def not_less)
  then show "unat (block_ttl_min arg) \<le> 120" by (simp add: word_le_nat_alt)
qed

lemma unat_block_ms: "unat t \<le> 120 \<Longrightarrow> unat (ucast (t :: u8) * 60000 :: u32) = unat t * 60000"
proof -
  assume "unat t \<le> 120"
  moreover from this have "unat (ucast t :: u32) = unat t" by (simp add: unsigned_ucast_eq take_bit_nat_eq_self)
  ultimately show ?thesis by (simp add: unat_word_ariths)
qed

lemma blocked_sweep:
  assumes "node_inv cr n"
  shows "is_blocked (g_router (ctrl_blk_sweep t n)) v \<longleftrightarrow>
    is_blocked (g_router n) v \<and> (\<forall>b\<in>set (cs_blk (g_ctrl n)). blk_due t b \<longrightarrow> bt_victim b \<noteq> v)"
  using unblock_all_blocked [OF router_invD(8) [OF node_invD(2) [OF assms]]]
  by (auto simp: ctrl_blk_sweep_def Let_def is_blocked_def)

lemma blk_sweep: "cs_blk (g_ctrl (ctrl_blk_sweep t n)) = map (\<lambda>b. if blk_due t b then blk_free else b) (cs_blk (g_ctrl n))"
  by (simp add: ctrl_blk_sweep_def Let_def)

text \<open>Sweeps as the main loop runs them, one after the other.\<close>

definition blk_sweeps :: "u32 list \<Rightarrow> node \<Rightarrow> node" where
  "blk_sweeps ts n = fold ctrl_blk_sweep ts n"

text \<open>A block with a lifetime stands until a sweep finds it due.\<close>

lemma timed_block_swept:
  assumes "node_inv cr n" "b \<in> set (cs_blk (g_ctrl n))" "bt_expiry_ms b \<noteq> 0" "is_blocked (g_router n) (bt_victim b)"
  shows "is_blocked (g_router (ctrl_blk_sweep t n)) (bt_victim b) \<longleftrightarrow> \<not> blk_due t b"
proof -
  have "distinct (blk_live (cs_blk (g_ctrl n)))" using node_invD(10) [OF assms(1)] by (simp add: blk_inv_def)
  then have "c = b" if "c \<in> set (cs_blk (g_ctrl n))" "blk_due t c" "bt_victim c = bt_victim b" for c
    using blk_live_unique [OF _ that(1) assms(2) _ assms(3) that(3)] that(2) by (simp add: blk_due_def)
  then show ?thesis using assms(2,4) by (auto simp: blocked_sweep [OF assms(1)])
qed

lemma timed_block_stands:
  assumes "node_inv cr n" "b \<in> set (cs_blk (g_ctrl n))" "bt_expiry_ms b \<noteq> 0" "is_blocked (g_router n) (bt_victim b)"
    and "\<forall>t\<in>set ts. \<not> blk_due t b"
  shows "node_inv cr (blk_sweeps ts n) \<and> b \<in> set (cs_blk (g_ctrl (blk_sweeps ts n))) \<and> is_blocked (g_router (blk_sweeps ts n)) (bt_victim b)"
  using assms
proof (induction ts arbitrary: n)
  case (Cons t ts)
  have "b \<in> set (cs_blk (g_ctrl (ctrl_blk_sweep t n)))" using Cons.prems(2,5) by (force simp: blk_sweep)
  moreover have "is_blocked (g_router (ctrl_blk_sweep t n)) (bt_victim b)" using timed_block_swept [OF Cons.prems(1-4)] Cons.prems(5) by simp
  ultimately show ?case using Cons.IH [of "ctrl_blk_sweep t n"] Cons.prems(1,3,5) by (simp add: blk_sweeps_def inv_intros)
qed (simp add: blk_sweeps_def)

text \<open>A block without one stands for ever.\<close>

lemma untimed_block_stands:
  assumes "node_inv cr n" "v \<notin> set (blk_live (cs_blk (g_ctrl n)))" "is_blocked (g_router n) v"
  shows "is_blocked (g_router (blk_sweeps ts n)) v"
  using assms
proof (induction ts arbitrary: n)
  case (Cons t ts)
  have "is_blocked (g_router (ctrl_blk_sweep t n)) v"
    using Cons.prems(2,3) by (auto simp: blocked_sweep [OF Cons.prems(1)] blk_live_def blk_due_def)
  moreover have "v \<notin> set (blk_live (cs_blk (g_ctrl (ctrl_blk_sweep t n))))"
    using Cons.prems(2) by (auto simp: blk_sweep blk_live_def blk_free_def)
  ultimately show ?case using Cons.IH [of "ctrl_blk_sweep t n"] Cons.prems(1) by (simp add: blk_sweeps_def inv_intros)
qed (simp add: blk_sweeps_def)

text \<open>Whether \<^verbatim>\<open>ctrl_blk_set\<close> finds a slot for a link: it has one, or one is free.\<close>

definition blk_room :: "node_id \<Rightarrow> block_ttl list \<Rightarrow> bool" where
  "blk_room v bs \<longleftrightarrow> (\<exists>b\<in>set bs. bt_expiry_ms b = 0 \<or> bt_victim b = v)"

lemma blk_room_iff: "blk_room v bs \<longleftrightarrow> v \<in> set (blk_live bs) \<or> length (blk_live bs) < length bs"
proof
  assume "blk_room v bs"
  then obtain b where b: "b \<in> set bs" "bt_expiry_ms b = 0 \<or> bt_victim b = v" by (auto simp: blk_room_def)
  then show "v \<in> set (blk_live bs) \<or> length (blk_live bs) < length bs"
    using length_filter_less [OF b(1), of "\<lambda>b. bt_expiry_ms b \<noteq> 0"] by (auto simp: blk_live_def)
next
  assume "v \<in> set (blk_live bs) \<or> length (blk_live bs) < length bs"
  then show "blk_room v bs"
  proof
    assume "length (blk_live bs) < length bs"
    then obtain i where i: "find_idx (\<lambda>b. bt_expiry_ms b = 0) bs = Some i" using blk_free_slot by blast
    then show ?thesis using find_idx_sat [OF i] nth_mem [OF find_idx_lt [OF i]] by (auto simp: blk_room_def)
  qed (auto simp: blk_room_def blk_live_def)
qed

lemma blk_no_room: "\<not> blk_room v bs \<Longrightarrow> ctrl_blk_set now v ttl bs = bs \<and> v \<notin> set (blk_live bs)"
proof -
  assume n: "\<not> blk_room v bs"
  then have "find_idx (\<lambda>b. bt_expiry_ms b = 0) bs = None" "find_idx (\<lambda>b. bt_expiry_ms b \<noteq> 0 \<and> bt_victim b = v) bs = None"
    by (auto simp: find_idx_None_iff blk_room_def)
  then show ?thesis using find_live [of v bs, THEN iffD1] by (simp add: ctrl_blk_set_def)
qed

text \<open>There is room for every link the router accepts, while no lifetime outlives its block.\<close>

lemma blk_room_exact:
  assumes "node_inv cr n" "fst (block (g_router n) v)" "set (blk_live (cs_blk (g_ctrl n))) \<subseteq> set (ro_blocked (g_router n))"
  shows "blk_room v (cs_blk (g_ctrl n))"
proof (rule ccontr)
  let ?L = "blk_live (cs_blk (g_ctrl n))" and ?B = "ro_blocked (g_router n)"
  assume "\<not> blk_room v (cs_blk (g_ctrl n))"
  then have L: "v \<notin> set ?L" "length ?L = MAX_BLOCKED" "distinct ?L"
    using node_invD(10) [OF assms(1)] length_filter_le [of "\<lambda>b. bt_expiry_ms b \<noteq> 0" "cs_blk (g_ctrl n)"]
    by (auto simp: blk_room_iff blk_inv_def) (simp add: blk_live_def)
  have c: "card (set ?L) = MAX_BLOCKED" using distinct_card [OF L(3)] L(2) by simp
  have "card (set ?L) \<le> card (set ?B)" using assms(3) by (simp add: card_mono)
  moreover have "card (set ?B) \<le> length ?B" by (rule card_length)
  ultimately have "v \<in> set ?B" using block_blocked(2) [OF assms(2)] c by auto
  then have "card (insert v (set ?L)) \<le> card (set ?B)" using assms(3) by (intro card_mono) auto
  with c L(1) \<open>card (set ?B) \<le> length ?B\<close> router_invD(7) [OF node_invD(2) [OF assms(1)]] show False by simp
qed

text \<open>C22. When a signed block ends by itself, and when it never does. A BLOCK that the router accepts blocks the link at
  once. When the link already has a lifetime or one of the eight is free, it gets one between one minute and two hours: it
  outlasts every sweep of the main loop before that time and the first sweep from then on lifts it, wherever the clock
  wraps (except when the deadline would be 0, which is stored as 1). When all eight lifetimes belong to other links, the
  block gets none and no number of sweeps ever lifts it. The first case is the only one while every lifetime belongs to
  a link that is still blocked; unblocking a link at the console leaves its lifetime behind and opens the second,
  although the source says that a stale block can never partition the mesh for good.\<close>

theorem signed_block_expires:
  assumes "node_inv cr n" "\<not> is_zero (cm_aux m)" "cm_aux m \<noteq> g_my_id n" "fst (block (g_router n) (cm_aux m))"
    and "now + ucast (block_ttl_min (cm_arg m)) * 60000 \<noteq> 0" "n1 = ctrl_block now m r n"
    and "timed \<longleftrightarrow> blk_room (cm_aux m) (cs_blk (g_ctrl n))" "ms = unat (block_ttl_min (cm_arg m)) * 60000"
    and "\<forall>d\<in>set ds. unat d < ms" "unat e < 2 ^ 31"
  shows "is_blocked (g_router n1) (cm_aux m) \<and> 60000 \<le> ms \<and> ms \<le> 7200000
    \<and> (timed \<longrightarrow> is_blocked (g_router (blk_sweeps (map (\<lambda>d. now + d) ds) n1)) (cm_aux m)
        \<and> (is_blocked (g_router (ctrl_blk_sweep (now + e) (blk_sweeps (map (\<lambda>d. now + d) ds) n1))) (cm_aux m) \<longleftrightarrow> unat e < ms))
    \<and> (\<not> timed \<longrightarrow> is_blocked (g_router (blk_sweeps ts n1)) (cm_aux m))
    \<and> (set (blk_live (cs_blk (g_ctrl n))) \<subseteq> set (ro_blocked (g_router n)) \<longrightarrow> timed)"
proof -
  let ?v = "cm_aux m" and ?t = "block_ttl_min (cm_arg m)" and ?bs = "cs_blk (g_ctrl n)"
  let ?b = "\<lparr>bt_victim = ?v, bt_expiry_ms = blk_deadline now ?t\<rparr>"
  note t = block_ttl_min_bounds [of "cm_arg m"]
  have inv: "node_inv cr n1" unfolding assms(6) using assms(1) by (rule node_inv_ctrl_commands)
  have bl: "is_blocked (g_router n1) ?v"
    unfolding assms(6) ctrl_block_effect(1) [OF assms(2,3)] is_blocked_def block_blocked(1) [OF assms(4)] by blast
  have bs: "cs_blk (g_ctrl n1) = ctrl_blk_set now ?v ?t ?bs"
    unfolding assms(6) ctrl_block_effect(2) [OF assms(2,3)] using assms(4) by simp
  have d: "blk_deadline now ?t = now + ucast ?t * 60000" using assms(5) by (simp add: blk_deadline_def)
  have due: "blk_due (now + x) ?b \<longleftrightarrow> \<not> unat x < ms" if "unat x < 2 ^ 31" for x
    using before32_deadline [of "ucast ?t * 60000" x now] assms(5,8) that t unat_block_ms [OF t(2)] by (simp add: blk_due_def d)
  have ms: "60000 \<le> ms" "ms \<le> 7200000" using t unfolding assms(8) by (simp_all add: unat_gt_0 Suc_le_eq)
  have "is_blocked (g_router (blk_sweeps (map (\<lambda>d. now + d) ds) n1)) ?v
        \<and> (is_blocked (g_router (ctrl_blk_sweep (now + e) (blk_sweeps (map (\<lambda>d. now + d) ds) n1))) ?v \<longleftrightarrow> unat e < ms)" if timed
  proof -
    have b: "?b \<in> set (cs_blk (g_ctrl n1))"
      unfolding bs using that node_invD(10) [OF assms(1)] by (intro ctrl_blk_set_live) (simp_all add: assms(7) blk_room_iff blk_inv_def)
    have nz: "bt_expiry_ms ?b \<noteq> 0" using assms(5) by (simp add: d)
    have "\<forall>x\<in>set (map (\<lambda>d. now + d) ds). \<not> blk_due x ?b" using assms(9) ms(2) due by auto
    from timed_block_stands [OF inv b nz _ this] bl timed_block_swept [OF _ _ nz, of cr "blk_sweeps (map (\<lambda>d. now + d) ds) n1" "now + e"] due [OF assms(10)]
    show ?thesis by simp
  qed
  moreover have "is_blocked (g_router (blk_sweeps ts n1)) ?v" if "\<not> timed"
    using untimed_block_stands [OF inv _ bl] blk_no_room [of ?v ?bs now ?t] that unfolding bs assms(7) by simp
  ultimately show ?thesis using bl ms blk_room_exact [OF assms(1,4)] assms(7) by blast
qed

definition demo_block :: "node_id \<Rightarrow> ctrl_msg" where
  "demo_block v = CtrlMsg_init\<lparr>cm_cmd := CTRL_BLOCK, cm_arg := 30, cm_aux := v\<rparr>"

theorem signed_block_expires_witness:
  "is_blocked (g_router (ctrl_blk_sweep (1000 + 1799999) (blk_sweeps [1000 + 1000, 1000 + 60000] (ctrl_block 1000 (demo_block (nid_from_u32 9)) (nid_from_u32 1) demo_ctrl_node)))) (nid_from_u32 9)
   \<and> \<not> is_blocked (g_router (ctrl_blk_sweep (1000 + 1800000) (blk_sweeps [1000 + 1000, 1000 + 60000] (ctrl_block 1000 (demo_block (nid_from_u32 9)) (nid_from_u32 1) demo_ctrl_node)))) (nid_from_u32 9)"
proof -
  have a: "cm_aux (demo_block (nid_from_u32 9)) = nid_from_u32 9" by (simp add: demo_block_def)
  have r: "g_router demo_ctrl_node = Router_init (nid_from_u32 1)" "g_my_id demo_ctrl_node = nid_from_u32 1"
    by (simp_all add: demo_ctrl_node_def Let_def node_boot_def)
  have ne: "\<not> is_zero (cm_aux (demo_block (nid_from_u32 9)))" "cm_aux (demo_block (nid_from_u32 9)) \<noteq> g_my_id demo_ctrl_node"
    "fst (block (g_router demo_ctrl_node) (cm_aux (demo_block (nid_from_u32 9))))" unfolding r a by code_simp+
  have t: "block_ttl_min (cm_arg (demo_block (nid_from_u32 9))) = 30" by code_simp
  have "node_inv toy_crypto (node_boot (nid_from_u32 1) (replicate 32 0) [] demo_cfg)" by (simp add: boot_inv)
  then have inv: "node_inv toy_crypto demo_ctrl_node"
    by (simp add: demo_ctrl_node_def Let_def node_inv_ctrl node_invD(10))
  have bs: "cs_blk (g_ctrl demo_ctrl_node) = replicate MAX_BLOCKED \<lparr>bt_victim = nid_zero, bt_expiry_ms = 0\<rparr>"
    by (simp add: demo_ctrl_node_def Let_def node_boot_def)
  have live: "set (blk_live (cs_blk (g_ctrl demo_ctrl_node))) \<subseteq> set (ro_blocked (g_router demo_ctrl_node))" unfolding bs by (simp add: blk_live_def)
  have nz: "(1000 :: u32) + ucast (30 :: u8) * 60000 \<noteq> 0" "unat (1799999 :: u32) < 2 ^ 31" "unat (1800000 :: u32) < 2 ^ 31"
    "unat (1799999 :: u32) < unat (30 :: u8) * 60000" "\<not> unat (1800000 :: u32) < unat (30 :: u8) * 60000" by simp_all
  have ds: "\<forall>d\<in>set [1000, 60000 :: u32]. unat d < unat (30 :: u8) * 60000" by simp
  note b = signed_block_expires [OF inv ne, of 1000, unfolded t, OF nz(1) refl refl refl, of "[1000, 60000]" _ "nid_from_u32 1", unfolded a, OF ds]
  from b [OF nz(2)] b [OF nz(3)] nz(4,5) live show ?thesis by (simp only: simp_thms) (simp add: blk_sweeps_def)
qed

end
