(* ===== verification/Node_Transfer.thy ===== *)
theory Node_Transfer
  imports Node_Control
begin

text \<open>
  The application side of \<^verbatim>\<open>src/main.cpp\<close>: the host tunnel (HDLC and KISS framing), the pacing of segmented
  transfers, the missing-fragment requests and the queue of host payloads waiting for the transfer slot.

  \<open>xs_buf\<close> is the first \<^verbatim>\<open>sar_len\<close> bytes of \<^verbatim>\<open>sar_buf\<close>; \<open>xs_resend\<close> the first \<^verbatim>\<open>sar_resend_n\<close> entries of \<^verbatim>\<open>sar_resend\<close>.
\<close>

section \<open>Constants\<close>

definition HDLC_FLAG :: u8 where "HDLC_FLAG = 0x7E"
definition HDLC_ESC :: u8 where "HDLC_ESC = 0x7D"
definition HDLC_ESC_MASK :: u8 where "HDLC_ESC_MASK = 0x20"
definition TUN_ADDR_LOCATOR :: u8 where "TUN_ADDR_LOCATOR = 1"
definition TUN_ADDR_IDENTITY :: u8 where "TUN_ADDR_IDENTITY = 2"
definition TUN_HOST_MAX :: nat where "TUN_HOST_MAX = 768"
definition SAR_NACK_TIMEOUT_MS :: u32 where "SAR_NACK_TIMEOUT_MS = 6000"
definition SAR_MAX_NACK_ROUNDS :: u8 where "SAR_MAX_NACK_ROUNDS = 6"
definition SAR_RX_DEFER_MS :: u32 where "SAR_RX_DEFER_MS = 10000"
definition TQ_CAP :: nat where "TQ_CAP = 4"
definition TQ_DRAIN_GRACE_MS :: u32 where "TQ_DRAIN_GRACE_MS = SAR_NACK_TIMEOUT_MS + 4000"
definition TQ_DONE_GAP_MS :: u32 where "TQ_DONE_GAP_MS = 1500"

section \<open>Framing toward the host\<close>

fun hdlc_stuff :: "bytes \<Rightarrow> bytes" where
  "hdlc_stuff [] = []"
| "hdlc_stuff (b # bs) =
     (if b = HDLC_FLAG \<or> b = HDLC_ESC then HDLC_ESC # (b XOR HDLC_ESC_MASK) # hdlc_stuff bs else b # hdlc_stuff bs)"

definition hdlc_frame :: "bytes \<Rightarrow> bytes" where
  "hdlc_frame d = [HDLC_FLAG] @ hdlc_stuff d @ [HDLC_FLAG]"

definition host_write :: "bytes \<Rightarrow> node \<Rightarrow> node" where
  "host_write d n = emit (Host_bytes d) n"

definition hdlc_write :: "bytes \<Rightarrow> node \<Rightarrow> node" where
  "hdlc_write d n = host_write (hdlc_frame d) n"

definition host_tunnel_active :: "node \<Rightarrow> bool" where
  "host_tunnel_active n \<longleftrightarrow> (if g_ble_connected n then True else g_tunnel_mode n)"

definition envelope :: "node_id \<Rightarrow> bytes \<Rightarrow> bytes" where
  "envelope src payload = [TUN_ADDR_LOCATOR, 16] @ nid_write src @ payload"

definition tunnel_emit :: "node_id \<Rightarrow> bytes \<Rightarrow> node \<Rightarrow> node" where
  "tunnel_emit src payload n =
     (let payload = take TUN_HOST_MAX payload in
      if g_kiss_mode n \<and> \<not> g_ble_connected n then
        (case kiss_encode KISS_CMD_DATA payload (2 * KISS_MAX_FRAME + 3) of
           None \<Rightarrow> n
         | Some kf \<Rightarrow> host_write kf n)
      else hdlc_write (envelope src payload) n)"

section \<open>The transfer slot\<close>

definition set_xfer :: "xfer_state \<Rightarrow> node \<Rightarrow> node" where
  "set_xfer x n = n\<lparr>g_xfer := x\<rparr>"

definition sar_nack_rearm :: "u32 \<Rightarrow> u32 \<Rightarrow> node \<Rightarrow> node" where
  "sar_nack_rearm now rnd n =
     n\<lparr>g_xfer := (g_xfer n)\<lparr>xs_rx_last_ms := now, xs_nack_jit := (nid_fold (g_my_id n) AND 0x3FF) + rnd\<rparr>\<rparr>"

definition sar_rx_busy :: "u32 \<Rightarrow> node \<Rightarrow> bool" where
  "sar_rx_busy now n \<longleftrightarrow>
     (let x = g_xfer n in sr_active (xs_rx x) \<and> \<not> sar_complete (xs_rx x)
        \<and> sint (now - xs_rx_last_ms x) < sint SAR_RX_DEFER_MS)"

definition sar_start :: "node_id \<Rightarrow> bytes \<Rightarrow> node \<Rightarrow> node" where
  "sar_start dst payload n =
     n\<lparr>g_xfer := (g_xfer n)\<lparr>xs_buf := payload, xs_crc := sar_crc32 payload, xs_xfer_id := xs_xfer_id (g_xfer n) + 1,
        xs_tx_dst := dst, xs_tx_count := sar_frag_count (of_nat (length payload)), xs_tx_idx := 0, xs_tx_active := True\<rparr>\<rparr>"

definition tq_contents :: "xfer_state \<Rightarrow> (node_id \<times> bytes) list" where
  "tq_contents x = ring_list (xs_tq x) (xs_tq_head x) (xs_tq_count x)"

definition tq_push :: "node_id \<times> bytes \<Rightarrow> xfer_state \<Rightarrow> xfer_state" where
  "tq_push p x = x\<lparr>xs_tq := (xs_tq x)[(xs_tq_head x + xs_tq_count x) mod TQ_CAP := p], xs_tq_count := xs_tq_count x + 1\<rparr>"

definition tq_pop :: "xfer_state \<Rightarrow> xfer_state" where
  "tq_pop x = x\<lparr>xs_tq_head := (xs_tq_head x + 1) mod TQ_CAP, xs_tq_count := xs_tq_count x - 1\<rparr>"

text \<open>The scan of the queue for an identical payload.\<close>

definition tun_dup :: "node_id \<Rightarrow> bytes \<Rightarrow> xfer_state \<Rightarrow> bool" where
  "tun_dup dst payload x \<longleftrightarrow>
     (xs_tx_active x \<or> xs_resend_active x) \<and> xs_tx_dst x = dst \<and> xs_buf x = payload
     \<or> (\<exists>k\<in>set [0..<xs_tq_count x]. xs_tq x ! ((xs_tq_head x + k) mod TQ_CAP) = (dst, payload))"

definition tunnel_send :: "u32 \<Rightarrow> node_id \<Rightarrow> bytes \<Rightarrow> node \<Rightarrow> node" where
  "tunnel_send now dst payload n =
     (let x = g_xfer n in
      if dst = g_my_id n then tunnel_emit (g_my_id n) payload n
      else if length payload \<le> MAX_PAYLOAD - HEADER_BYTES then send_data_bytes now dst payload n
      else if \<not> xs_tx_active x \<and> \<not> xs_resend_active x \<and> xs_tq_count x = 0 \<and> length payload \<le> SAR_MAX_FILE
      then sar_start dst payload n
      else if xs_tq_count x < TQ_CAP \<and> length payload \<le> TUN_HOST_MAX
      then if tun_dup dst payload x then n else set_xfer (tq_push (dst, payload) x) n
      else n)"

definition tunnel_rx_frame :: "u32 \<Rightarrow> bytes \<Rightarrow> node \<Rightarrow> node option" where
  "tunnel_rx_frame now f n =
     (if length f < 2 then Some n
      else do {
        t \<leftarrow> rd8 f 0;
        l \<leftarrow> rd8 f 1;
        if length f < 2 + unat l \<or> t = TUN_ADDR_IDENTITY \<or> t \<noteq> TUN_ADDR_LOCATOR \<or> l \<noteq> 16 then Some n
        else do { dst \<leftarrow> rd_nid f 2; Some (tunnel_send now dst (drop (2 + unat l) f) n) } })"

section \<open>Ticks\<close>

text \<open>The fragment the sender picks, and the transfer state after picking it; a resend index past the array is a read
  outside it.\<close>

definition sar_pick :: "u32 \<Rightarrow> xfer_state \<Rightarrow> (u16 \<times> xfer_state) option" where
  "sar_pick now x =
     (if xs_tx_active x then
        let idx = xs_tx_idx x; x = x\<lparr>xs_tx_idx := idx + 1\<rparr>
        in Some (idx, if xs_tx_count x \<le> xs_tx_idx x then x\<lparr>xs_tx_active := False, xs_tx_done_ms := now\<rparr> else x)
      else if xs_resend_idx x < length (xs_resend x) then
        let idx = xs_resend x ! xs_resend_idx x; x = x\<lparr>xs_resend_idx := xs_resend_idx x + 1\<rparr>
        in Some (idx, if length (xs_resend x) \<le> xs_resend_idx x then x\<lparr>xs_resend_active := False, xs_tx_done_ms := now\<rparr> else x)
      else None)"

definition sar_tx_tick :: "u32 \<Rightarrow> node \<Rightarrow> node option" where
  "sar_tx_tick now n =
     (let x = g_xfer n in
      if \<not> xs_tx_active x \<and> \<not> xs_resend_active x then Some n
      else if hal_busy (g_radio n) \<or> 0 < txq_count (g_txq n) \<or> 0 < pending_count (g_arq n) then Some n
      else if \<not> xs_resend_active x \<and> sar_rx_busy now n then Some n
      else do {
        (idx, x) \<leftarrow> sar_pick now x;
        let n = set_xfer x n;
        Some (case sar_build_fragment (xs_buf x) (xs_xfer_id x) (xs_crc x) idx (1 + SAR_HDR_BYTES + SAR_CHUNK) of
                None \<Rightarrow> n
              | Some frag \<Rightarrow> send_data_bytes now (xs_tx_dst x) frag n) })"

definition tun_queue_tick :: "u32 \<Rightarrow> node \<Rightarrow> node" where
  "tun_queue_tick now n =
     (let x = g_xfer n in
      if xs_tq_count x = 0 \<or> xs_tx_active x \<or> xs_resend_active x then n
      else if sint (now - xs_tx_done_ms x) < sint TQ_DRAIN_GRACE_MS then n
      else if sar_rx_busy now n then n
      else let (dst, payload) = xs_tq x ! xs_tq_head x; n = sar_start dst payload n
           in set_xfer (tq_pop (g_xfer n)) n)"

definition sar_rx_tick :: "u32 \<Rightarrow> u32 \<Rightarrow> node \<Rightarrow> node" where
  "sar_rx_tick now rnd n =
     (let x = g_xfer n; r = xs_rx x in
      if \<not> sr_active r \<or> sar_complete r then n
      else if sint (now - xs_rx_last_ms x) < sint (SAR_NACK_TIMEOUT_MS + xs_nack_jit x) then n
      else if SAR_MAX_NACK_ROUNDS \<le> xs_nack_rounds x then n
      else
        let miss = sar_missing r SAR_MAX_FRAGS in
        if miss = [] then n
        else
          let nack = (case sar_build_nack (sr_xfer_id r) miss (MAX_PAYLOAD - HEADER_BYTES) of None \<Rightarrow> [] | Some b \<Rightarrow> b);
              n = send_data_bytes now (xs_rx_sender x) nack n;
              n = n\<lparr>g_xfer := (g_xfer n)\<lparr>xs_nack_rounds := xs_nack_rounds (g_xfer n) + 1\<rparr>\<rparr>;
              n = sar_nack_rearm now rnd n
          in n\<lparr>g_xfer := (g_xfer n)\<lparr>xs_quiet_until := now + 8000\<rparr>\<rparr>)"

section \<open>Input from the host\<close>

definition HDLC_FRAME_MAX :: nat where "HDLC_FRAME_MAX = 2 + 16 + TUN_HOST_MAX"

text \<open>One byte of the HDLC stream (tunnel mode and BLE): the new decoder state and the frame that is complete. A flag also ends
  the text line in assembly.\<close>

definition hdlc_feed :: "u8 \<Rightarrow> con_state \<Rightarrow> con_state \<times> bytes option" where
  "hdlc_feed c s =
     (if c = HDLC_FLAG then
        if co_in_frame s then (s\<lparr>co_in_frame := False, co_line := []\<rparr>, if co_frame s = [] then None else Some (co_frame s))
        else (s\<lparr>co_in_frame := True, co_frame := [], co_esc := False, co_line := []\<rparr>, None)
      else if co_in_frame s then
        if length (co_frame s) < HDLC_FRAME_MAX then
          if c = HDLC_ESC then (s\<lparr>co_esc := True\<rparr>, None)
          else (s\<lparr>co_frame := co_frame s @ [if co_esc s then c XOR HDLC_ESC_MASK else c], co_esc := False\<rparr>, None)
        else (s, None)
      else (s, None))"

definition kiss_input :: "u32 \<Rightarrow> u8 \<Rightarrow> node \<Rightarrow> node option" where
  "kiss_input now c n =
     (let (f, k) = kiss_feed c (co_kiss (g_con n)); n = n\<lparr>g_con := (g_con n)\<lparr>co_kiss := k\<rparr>\<rparr> in
      case f of
        None \<Rightarrow> Some n
      | Some fr \<Rightarrow> do {
          cmd \<leftarrow> rd8 fr 0;
          Some (if cmd = KISS_CMD_RETURN then n\<lparr>g_kiss_mode := False\<rparr>
                else if cmd AND 0x0F = KISS_CMD_DATA \<and> 1 < length fr then tunnel_send now (g_kiss_dst n) (drop 1 fr) n
                else n) })"

definition tunnel_input :: "u32 \<Rightarrow> u8 \<Rightarrow> node \<Rightarrow> node option" where
  "tunnel_input now c n =
     (let (s, f) = hdlc_feed c (g_con n); n = n\<lparr>g_con := s\<rparr> in
      case f of None \<Rightarrow> Some n | Some fr \<Rightarrow> tunnel_rx_frame now fr n)"

section \<open>The tunnel keeps the invariant\<close>

lemma node_inv_tunnel_emit [simp]: "node_inv cr (tunnel_emit src p n) = node_inv cr n"
  by (simp add: tunnel_emit_def hdlc_write_def host_write_def Let_def split: option.split)

lemma node_inv_set_xfer [inv_intros]: "node_inv cr n \<Longrightarrow> xfer_inv x \<Longrightarrow> node_inv cr (set_xfer x n)"
  by (simp add: set_xfer_def node_inv_part(11))

lemma node_inv_sar_nack_rearm [inv_intros]: "node_inv cr n \<Longrightarrow> node_inv cr (sar_nack_rearm now rnd n)"
  using node_invD(9) [of cr n] by (simp add: sar_nack_rearm_def node_inv_part(11) xfer_inv_def tq_ok_def)

lemma node_inv_quiet [inv_intros]: "node_inv cr n \<Longrightarrow> node_inv cr (n\<lparr>g_xfer := (g_xfer n)\<lparr>xs_quiet_until := t\<rparr>\<rparr>)"
  using node_invD(9) [of cr n] by (simp add: node_inv_part(11) xfer_inv_def tq_ok_def)

lemma xfer_inv_start:
  "xfer_inv x \<Longrightarrow> length p \<le> SAR_MAX_FILE \<Longrightarrow>
     xfer_inv (x\<lparr>xs_buf := p, xs_crc := c, xs_xfer_id := i, xs_tx_dst := d, xs_tx_count := k, xs_tx_idx := 0, xs_tx_active := True\<rparr>)"
  by (simp add: xfer_inv_def tq_ok_def)

lemma node_inv_sar_start [inv_intros]: "node_inv cr n \<Longrightarrow> length p \<le> SAR_MAX_FILE \<Longrightarrow> node_inv cr (sar_start dst p n)"
  unfolding sar_start_def by (intro node_inv_part(11) xfer_inv_start node_invD)

lemma xfer_inv_push: "xfer_inv x \<Longrightarrow> length (snd p) \<le> TUN_HOST_MAX \<Longrightarrow> xs_tq_count x < TQ_CAP \<Longrightarrow> xfer_inv (tq_push p x)"
  by (auto simp: xfer_inv_def tq_ok_def tq_push_def TUN_HOST_MAX_def TQ_CAP_def sar_sizes dest!: subsetD [OF set_update_subset_insert])

lemma xfer_inv_pop: "xfer_inv x \<Longrightarrow> xfer_inv (tq_pop x)"
  by (auto simp: xfer_inv_def tq_ok_def tq_pop_def TQ_CAP_def)

lemma node_inv_tunnel_send [inv_intros]: "node_inv cr n \<Longrightarrow> node_inv cr (tunnel_send now dst p n)"
  using node_invD(9) [of cr n] by (auto simp: tunnel_send_def Let_def intro!: inv_intros xfer_inv_push)

lemma tunnel_rx_frame_keeps: "node_inv cr n \<Longrightarrow> \<exists>n'. tunnel_rx_frame now f n = Some n' \<and> node_inv cr n'"
proof (cases "length f < 2")
  case False
  moreover assume "node_inv cr n"
  moreover have "rd8 f 0 = Some (f ! 0)" "rd8 f 1 = Some (f ! 1)" using False by (cases f; auto simp: rd8_def)+
  moreover have "unat (f ! 1) = 16" if "f ! 1 = 16" using that by simp
  ultimately show ?thesis by (auto simp: tunnel_rx_frame_def rd_safe intro!: inv_intros)
qed (simp add: tunnel_rx_frame_def)

lemma sar_pick_some:
  assumes "xfer_inv x" "xs_tx_active x \<or> xs_resend_active x"
  shows "\<exists>i x'. sar_pick now x = Some (i, x') \<and> xfer_inv x'"
  using assms by (auto simp: sar_pick_def xfer_inv_def tq_ok_def Let_def)

lemma sar_tx_tick_keeps: "node_inv cr n \<Longrightarrow> \<exists>n'. sar_tx_tick now n = Some n' \<and> node_inv cr n'"
proof (cases "xs_tx_active (g_xfer n) \<or> xs_resend_active (g_xfer n)")
  case True
  assume n: "node_inv cr n"
  obtain i x' where p: "sar_pick now (g_xfer n) = Some (i, x')" "xfer_inv x'" using sar_pick_some [OF node_invD(9) [OF n] True] by blast
  then have "node_inv cr (set_xfer x' n)" using n by (simp add: inv_intros)
  then show ?thesis using n p by (auto simp: sar_tx_tick_def Let_def intro!: inv_intros split: option.split)
qed (simp add: sar_tx_tick_def)

lemma node_inv_tun_queue_tick [inv_intros]: "node_inv cr n \<Longrightarrow> node_inv cr (tun_queue_tick now n)"
proof (cases "xs_tq_count (g_xfer n) = 0")
  case False
  assume n: "node_inv cr n"
  obtain dst p where q: "xs_tq (g_xfer n) ! xs_tq_head (g_xfer n) = (dst, p)" by (cases "xs_tq (g_xfer n) ! xs_tq_head (g_xfer n)")
  have t: "tq_ok (g_xfer n)" using node_invD(9) [OF n] by (simp add: xfer_inv_def)
  then have "(dst, p) \<in> set (xs_tq (g_xfer n))" unfolding q [symmetric] by (intro nth_mem) (simp add: tq_ok_def)
  then have "length p \<le> SAR_MAX_FILE" using t by (auto simp: tq_ok_def)
  then have m: "node_inv cr (sar_start dst p n)" using n by (simp add: inv_intros)
  then have "node_inv cr (set_xfer (tq_pop (g_xfer (sar_start dst p n))) (sar_start dst p n))"
    by (intro node_inv_set_xfer xfer_inv_pop node_invD)
  then show ?thesis using n by (simp add: tun_queue_tick_def Let_def q)
qed (simp add: tun_queue_tick_def Let_def)

lemma node_inv_sar_rx_tick [inv_intros]: "node_inv cr n \<Longrightarrow> node_inv cr (sar_rx_tick now rnd n)"
proof -
  assume n: "node_inv cr n"
  have r: "node_inv cr (k\<lparr>g_xfer := (g_xfer k)\<lparr>xs_nack_rounds := v\<rparr>\<rparr>)" if "node_inv cr k" for k v
    using node_invD(9) [OF that] that by (simp add: node_inv_part(11) xfer_inv_def tq_ok_def)
  show ?thesis using n by (simp add: sar_rx_tick_def Let_def inv_intros r)
qed

lemma tunnel_input_keeps: "node_inv cr n \<Longrightarrow> \<exists>n'. tunnel_input now c n = Some n' \<and> node_inv cr n'"
  using tunnel_rx_frame_keeps [of cr] by (auto simp: tunnel_input_def case_prod_unfold Let_def split: option.split)

lemma kiss_feed_nonempty: "fst (kiss_feed c d) = Some f \<Longrightarrow> f \<noteq> []"
  by (auto simp: kiss_feed_def split: if_splits)

lemma kiss_input_keeps: "node_inv cr n \<Longrightarrow> \<exists>n'. kiss_input now c n = Some n' \<and> node_inv cr n'"
proof -
  assume n: "node_inv cr n"
  obtain f k where f: "kiss_feed c (co_kiss (g_con n)) = (f, k)" by (cases "kiss_feed c (co_kiss (g_con n))")
  show ?thesis
  proof (cases f)
    case (Some fr)
    then have "fr \<noteq> []" using kiss_feed_nonempty f by (metis fst_conv)
    then have "rd8 fr 0 = Some (fr ! 0)" by (simp add: rd_safe)
    then show ?thesis using n Some by (auto simp: kiss_input_def f Let_def intro!: inv_intros)
  qed (use n in \<open>simp add: kiss_input_def f Let_def\<close>)
qed

end
