(* ===== verification/Host_Tunnel.thy ===== *)
theory Host_Tunnel
  imports Node_Transfer
begin

text \<open>What the host tunnel of \<^verbatim>\<open>src/src/main.cpp\<close> promises its host: the HDLC stream the host writes is sent payload by
  payload (\<^verbatim>\<open>poll_console\<close>, \<^verbatim>\<open>tunnel_rx_frame\<close>), and the ring of waiting payloads (\<^verbatim>\<open>tunnel_send\<close>,
  \<^verbatim>\<open>tun_queue_tick\<close>) is a slot and a bounded queue without repetitions.\<close>

section \<open>The host's frames\<close>

text \<open>A stream of host bytes through the decoder: the state it leaves and the frames it completed.\<close>

fun hdlc_run :: "bytes \<Rightarrow> con_state \<Rightarrow> con_state \<times> bytes list" where
  "hdlc_run [] s = (s, [])"
| "hdlc_run (c # cs) s =
     (let (s1, f) = hdlc_feed c s; (s2, fs) = hdlc_run cs s1 in (s2, (case f of None \<Rightarrow> [] | Some x \<Rightarrow> [x]) @ fs))"

lemma hdlc_stuff_no_flag: "HDLC_FLAG \<notin> set (hdlc_stuff d)"
  by (induction d) (auto simp: HDLC_FLAG_def HDLC_ESC_def HDLC_ESC_MASK_def)

lemma hdlc_run_append: "hdlc_run (xs @ ys) s = (let (s1, f1) = hdlc_run xs s; (s2, f2) = hdlc_run ys s1 in (s2, f1 @ f2))"
  by (induction xs arbitrary: s) (simp_all add: Let_def case_prod_unfold)

lemma esc_mask [simp]: "(b XOR HDLC_ESC_MASK) XOR HDLC_ESC_MASK = b"
  by (simp add: xor.assoc)

lemma hdlc_escaped: "b = HDLC_FLAG \<or> b = HDLC_ESC \<Longrightarrow> b XOR HDLC_ESC_MASK \<noteq> HDLC_FLAG \<and> b XOR HDLC_ESC_MASK \<noteq> HDLC_ESC"
  by (elim disjE) (simp_all add: HDLC_FLAG_def HDLC_ESC_def HDLC_ESC_MASK_def)

lemma hdlc_codes [simp]: "HDLC_ESC \<noteq> HDLC_FLAG" "HDLC_FLAG \<noteq> HDLC_ESC"
  by (simp_all add: HDLC_FLAG_def HDLC_ESC_def)

lemma hdlc_run_body:
  "co_in_frame s \<Longrightarrow> \<not> co_esc s \<Longrightarrow> length (co_frame s) \<le> HDLC_FRAME_MAX \<Longrightarrow>
     hdlc_run (hdlc_stuff d) s = (s\<lparr>co_frame := take HDLC_FRAME_MAX (co_frame s @ d)\<rparr>, [])"
proof (induction d arbitrary: s)
  case Nil
  then show ?case by simp
next
  case (Cons b d)
  show ?case
  proof (cases "length (co_frame s) < HDLC_FRAME_MAX")
    case True
    with Cons.IH [of "s\<lparr>co_frame := co_frame s @ [b], co_esc := False\<rparr>"] Cons.prems show ?thesis
      using hdlc_escaped [of b] by (auto simp: hdlc_feed_def Let_def)
  next
    case False
    with Cons.IH [of s] Cons.prems show ?thesis using hdlc_escaped [of b] by (auto simp: hdlc_feed_def Let_def)
  qed
qed

lemma hdlc_run_outside: "\<not> co_in_frame s \<Longrightarrow> HDLC_FLAG \<notin> set junk \<Longrightarrow> hdlc_run junk s = (s, [])"
  by (induction junk) (auto simp: hdlc_feed_def)

lemma hdlc_run_frame:
  assumes "\<not> co_in_frame s"
  shows "hdlc_run (hdlc_frame d) s =
    (s\<lparr>co_in_frame := False, co_frame := take HDLC_FRAME_MAX d, co_esc := False, co_line := []\<rparr>, if d = [] then [] else [take HDLC_FRAME_MAX d])"
  using assms hdlc_run_body [of "s\<lparr>co_in_frame := True, co_frame := [], co_esc := False, co_line := []\<rparr>" d]
  by (simp add: hdlc_frame_def hdlc_run_append hdlc_feed_def Let_def HDLC_FRAME_MAX_def)

text \<open>The same through the node.\<close>

fun feed_all :: "('b \<Rightarrow> 'a \<Rightarrow> 'a option) \<Rightarrow> 'b list \<Rightarrow> 'a \<Rightarrow> 'a option" where
  "feed_all f [] a = Some a"
| "feed_all f (x # xs) a = do { a \<leftarrow> f x a; feed_all f xs a }"

lemma feed_all_append: "feed_all f (xs @ ys) a = do { a \<leftarrow> feed_all f xs a; feed_all f ys a }"
proof (induction xs arbitrary: a)
  case (Cons x xs)
  then show ?case by (cases "f x a") simp_all
qed simp

lemma txq_put_con: "txq_put f (n\<lparr>g_con := c\<rparr>) = (txq_put f n)\<lparr>g_con := c\<rparr>"
  by (simp add: txq_put_def)

lemma tx_unicast_con: "tx_unicast now f nh (n\<lparr>g_con := c\<rparr>) = (tx_unicast now f nh n)\<lparr>g_con := c\<rparr>"
  by (simp add: tx_unicast_def Let_def txq_put_def case_prod_unfold)

lemma send_data_con:
  "send_data_bytes now dst p (n\<lparr>g_con := c\<rparr>) = (send_data_bytes now dst p n)\<lparr>g_con := c\<rparr>"
proof -
  have "tx_unicast now f nh (n\<lparr>g_con := c, g_forwarder := w\<rparr>) = (tx_unicast now f nh (n\<lparr>g_forwarder := w\<rparr>))\<lparr>g_con := c\<rparr>" for f nh w
    unfolding tx_unicast_con [symmetric] by (rule arg_cong [of _ _ "tx_unicast now f nh"]) simp
  then show ?thesis by (simp add: send_data_bytes_def Let_def)
qed

lemma tunnel_send_con: "tunnel_send now dst p (n\<lparr>g_con := c\<rparr>) = (tunnel_send now dst p n)\<lparr>g_con := c\<rparr>"
proof -
  have "tunnel_emit i p (n\<lparr>g_con := c\<rparr>) = (tunnel_emit i p n)\<lparr>g_con := c\<rparr>" for i
    by (simp add: tunnel_emit_def Let_def hdlc_write_def host_write_def emit_def split: option.split)
  moreover have "sar_start dst p (n\<lparr>g_con := c\<rparr>) = (sar_start dst p n)\<lparr>g_con := c\<rparr>" by (simp add: sar_start_def)
  moreover have "set_xfer x (n\<lparr>g_con := c\<rparr>) = (set_xfer x n)\<lparr>g_con := c\<rparr>" for x by (simp add: set_xfer_def)
  ultimately show ?thesis by (simp add: tunnel_send_def Let_def send_data_con)
qed

lemma tunnel_input_quiet:
  "hdlc_run cs (g_con n) = (s, []) \<Longrightarrow> feed_all (tunnel_input now) cs n = Some (n\<lparr>g_con := s\<rparr>)"
proof (induction cs arbitrary: n)
  case (Cons c cs)
  obtain s1 f where f: "hdlc_feed c (g_con n) = (s1, f)" by (cases "hdlc_feed c (g_con n)")
  with Cons.prems have "f = None" "hdlc_run cs s1 = (s, [])" by (auto simp: Let_def case_prod_unfold prod_eq_iff split: option.splits)
  then show ?case using Cons.IH [of "n\<lparr>g_con := s1\<rparr>"] f by (simp add: tunnel_input_def Let_def)
qed simp

lemma tunnel_rx_envelope:
  "tunnel_rx_frame now (envelope dst p) n = Some (tunnel_send now dst p n)"
proof -
  have "rd_nid (envelope dst p) 2 = Some dst"
    using rd_nid_at [of "[TUN_ADDR_LOCATOR, 16]" 2 dst p] by (simp add: envelope_def)
  then show ?thesis by (simp add: tunnel_rx_frame_def envelope_def rd8_def TUN_ADDR_LOCATOR_def TUN_ADDR_IDENTITY_def)
qed

lemma take_envelope: "take HDLC_FRAME_MAX (envelope dst p) = envelope dst (take TUN_HOST_MAX p)"
  by (simp add: envelope_def HDLC_FRAME_MAX_def take_Cons' numeral_eq_Suc)

lemma tunnel_input_frame:
  assumes "\<not> co_in_frame (g_con n)"
  shows "\<exists>c. feed_all (tunnel_input now) (hdlc_frame (envelope dst p)) n = Some ((tunnel_send now dst (take TUN_HOST_MAX p) n)\<lparr>g_con := c\<rparr>)
    \<and> \<not> co_in_frame c"
proof -
  let ?e = "envelope dst p"
  define s where "s = (g_con n)\<lparr>co_in_frame := True, co_frame := [], co_esc := False, co_line := []\<rparr>"
  have 1: "hdlc_run [HDLC_FLAG] (g_con n) = (s, [])" using assms by (simp add: hdlc_feed_def s_def Let_def)
  have "hdlc_run (hdlc_stuff ?e) s = (s\<lparr>co_frame := take HDLC_FRAME_MAX ?e\<rparr>, [])"
    using hdlc_run_body [of s ?e] by (simp add: s_def)
  with 1 have "hdlc_run ([HDLC_FLAG] @ hdlc_stuff ?e) (g_con n) = (s\<lparr>co_frame := take HDLC_FRAME_MAX ?e\<rparr>, [])"
    unfolding hdlc_run_append by simp
  note q = tunnel_input_quiet [OF this, of now]
  have "tunnel_input now HDLC_FLAG (n\<lparr>g_con := s\<lparr>co_frame := take HDLC_FRAME_MAX ?e\<rparr>\<rparr>)
      = Some ((tunnel_send now dst (take TUN_HOST_MAX p) n)\<lparr>g_con := s\<lparr>co_frame := take HDLC_FRAME_MAX ?e, co_in_frame := False\<rparr>\<rparr>)"
    by (simp add: tunnel_input_def hdlc_feed_def s_def Let_def take_envelope tunnel_rx_envelope tunnel_send_con) (simp add: envelope_def)
  with q show ?thesis unfolding hdlc_frame_def append_assoc [symmetric] feed_all_append
    by (intro exI [of _ "s\<lparr>co_frame := take HDLC_FRAME_MAX ?e, co_in_frame := False\<rparr>"]) simp
qed

section \<open>The queue of waiting payloads\<close>

lemma tq_codes: "TQ_CAP = 4" "TUN_HOST_MAX = 768" "SAR_MAX_FILE = 8192" by (simp_all add: TQ_CAP_def TUN_HOST_MAX_def SAR_MAX_FILE_def)

lemma tq_contents_push: "tq_ok x \<Longrightarrow> xs_tq_count x < TQ_CAP \<Longrightarrow> tq_contents (tq_push p x) = tq_contents x @ [p]"
  using ring_list_push [of "xs_tq_count x" "xs_tq x" "xs_tq_head x" p] by (simp add: tq_ok_def tq_contents_def tq_push_def tq_codes)

lemma tq_contents_pop: "tq_ok x \<Longrightarrow> 0 < xs_tq_count x \<Longrightarrow> tq_contents (tq_pop x) = tl (tq_contents x)"
  using ring_list_pop [of "xs_tq_count x" "xs_tq x" "xs_tq_head x"] by (simp add: tq_ok_def tq_contents_def tq_pop_def tq_codes)

lemma tq_contents_hd: "tq_ok x \<Longrightarrow> 0 < xs_tq_count x \<Longrightarrow> hd (tq_contents x) = xs_tq x ! xs_tq_head x"
  by (simp add: tq_contents_def ring_list_hd tq_ok_def)

lemma length_tq_contents [simp]: "length (tq_contents x) = xs_tq_count x"
  by (simp add: tq_contents_def)

lemma tq_scan: "tq_ok x \<Longrightarrow> (\<exists>k\<in>set [0..<xs_tq_count x]. xs_tq x ! ((xs_tq_head x + k) mod TQ_CAP) = p) \<longleftrightarrow> p \<in> set (tq_contents x)"
  by (auto simp: tq_contents_def ring_list_def tq_ok_def tq_codes)

text \<open>The queue with its push as the code guards it is a bounded queue.\<close>

definition tq_offer :: "node_id \<times> bytes \<Rightarrow> xfer_state \<Rightarrow> bool \<times> xfer_state" where
  "tq_offer p x = (if xs_tq_count x < TQ_CAP \<and> length (snd p) \<le> TUN_HOST_MAX then (True, tq_push p x) else (False, x))"

interpretation tq: bounded_fifo tq_contents tq_ok TQ_CAP "\<lambda>p. length (snd p) \<le> TUN_HOST_MAX" tq_offer tq_pop
proof
  fix x :: xfer_state and p :: "node_id \<times> bytes"
  assume ok: "tq_ok x"
  show "fst (tq_offer p x) \<longleftrightarrow> length (tq_contents x) < TQ_CAP \<and> length (snd p) \<le> TUN_HOST_MAX" by (auto simp: tq_offer_def)
  show "tq_contents (snd (tq_offer p x)) = (if fst (tq_offer p x) then tq_contents x @ [p] else tq_contents x)"
    using ok by (simp add: tq_offer_def tq_contents_push)
  show "tq_ok (snd (tq_offer p x))"
    using ok by (auto simp: tq_offer_def tq_push_def tq_ok_def tq_codes dest!: subsetD [OF set_update_subset_insert])
  show "length (tq_contents x) \<le> TQ_CAP" using ok by (simp add: tq_ok_def tq_codes)
next
  fix x assume ok: "tq_ok x" and ne: "tq_contents x \<noteq> []"
  then have c: "0 < xs_tq_count x" by (metis length_greater_0_conv length_tq_contents)
  show "tq_contents (tq_pop x) = tl (tq_contents x)" using ok c by (rule tq_contents_pop)
  show "tq_ok (tq_pop x)" using ok c by (auto simp: tq_pop_def tq_ok_def tq_codes)
qed

text \<open>What the host's large payloads see of the transfer state: the payload in the slot and those waiting.\<close>

definition xfer_abs :: "xfer_state \<Rightarrow> (node_id \<times> bytes) option \<times> (node_id \<times> bytes) list" where
  "xfer_abs x = (if xs_tx_active x \<or> xs_resend_active x then Some (xs_tx_dst x, xs_buf x) else None, tq_contents x)"

definition spec_send :: "node_id \<times> bytes \<Rightarrow> (node_id \<times> bytes) option \<times> (node_id \<times> bytes) list \<Rightarrow> (node_id \<times> bytes) option \<times> (node_id \<times> bytes) list" where
  "spec_send p s = (case s of (slot, q) \<Rightarrow>
     if slot = None \<and> q = [] \<and> length (snd p) \<le> SAR_MAX_FILE then (Some p, [])
     else if length q < TQ_CAP \<and> length (snd p) \<le> TUN_HOST_MAX \<and> slot \<noteq> Some p \<and> p \<notin> set q then (slot, q @ [p])
     else (slot, q))"

definition spec_next :: "(node_id \<times> bytes) option \<times> (node_id \<times> bytes) list \<Rightarrow> (node_id \<times> bytes) option \<times> (node_id \<times> bytes) list" where
  "spec_next s = (case s of (None, p # q) \<Rightarrow> (Some p, q) | _ \<Rightarrow> s)"

lemma tq_contents_part [simp]:
  "tq_contents (x\<lparr>xs_buf := b, xs_crc := c, xs_xfer_id := i, xs_tx_dst := d, xs_tx_count := k, xs_tx_idx := j, xs_tx_active := t\<rparr>) = tq_contents x"
  by (simp add: tq_contents_def)

lemma xfer_abs_start: "xfer_abs (g_xfer (sar_start dst p n)) = (Some (dst, p), tq_contents (g_xfer n))"
  by (simp add: sar_start_def xfer_abs_def)

text \<open>C15. The ring of waiting payloads, its modular indices and its scan for a payload already under way amount to a list and a
  slot. A payload too large for one frame takes the slot when slot and queue are empty; otherwise it joins the end of the
  queue, unless four are waiting, it is longer than 768 bytes, or the same payload for the same destination is in the slot
  or in the queue. When the slot is free and the waiting time is over, the oldest payload takes it.\<close>

theorem tunnel_queue_equivalent:
  assumes "xfer_inv (g_xfer n)" "dst \<noteq> g_my_id n" "MAX_PAYLOAD - HEADER_BYTES < length p"
  shows "xfer_abs (g_xfer (tunnel_send now dst p n)) = spec_send (dst, p) (xfer_abs (g_xfer n))
    \<and> xfer_abs (g_xfer (tun_queue_tick now n)) =
       (if sint (now - xs_tx_done_ms (g_xfer n)) < sint TQ_DRAIN_GRACE_MS \<or> sar_rx_busy now n then xfer_abs (g_xfer n)
        else spec_next (xfer_abs (g_xfer n)))"
proof
  let ?x = "g_xfer n"
  have ok: "tq_ok ?x" using assms(1) by (simp add: xfer_inv_def)
  have e: "tq_contents ?x = [] \<longleftrightarrow> xs_tq_count ?x = 0" by (metis length_0_conv length_tq_contents)
  have d: "tun_dup dst p ?x \<longleftrightarrow> fst (xfer_abs ?x) = Some (dst, p) \<or> (dst, p) \<in> set (tq_contents ?x)"
    unfolding tun_dup_def tq_scan [OF ok] by (auto simp: xfer_abs_def)
  have a: "xfer_abs (tq_push (dst, p) ?x) = (fst (xfer_abs ?x), tq_contents ?x @ [(dst, p)])" if "xs_tq_count ?x < TQ_CAP"
    using that tq_contents_push [OF ok that] by (simp add: xfer_abs_def tq_push_def)
  obtain slot where s: "xfer_abs ?x = (slot, tq_contents ?x)" by (simp add: xfer_abs_def)
  then have idle: "\<not> xs_tx_active ?x \<and> \<not> xs_resend_active ?x \<and> xs_tq_count ?x = 0 \<longleftrightarrow> slot = None \<and> tq_contents ?x = []"
    unfolding e by (auto simp: xfer_abs_def split: if_splits)
  have b: "\<not> length p \<le> MAX_PAYLOAD - HEADER_BYTES" using assms(3) by simp
  have "tunnel_send now dst p n =
      (if slot = None \<and> tq_contents ?x = [] \<and> length p \<le> SAR_MAX_FILE then sar_start dst p n
       else if xs_tq_count ?x < TQ_CAP \<and> length p \<le> TUN_HOST_MAX \<and> slot \<noteq> Some (dst, p) \<and> (dst, p) \<notin> set (tq_contents ?x)
       then set_xfer (tq_push (dst, p) ?x) n else n)"
    unfolding tunnel_send_def Let_def if_not_P [OF assms(2)] if_not_P [OF b] d s fst_conv conj_assoc [symmetric] idle [unfolded conj_assoc [symmetric]]
    by simp
  then show "xfer_abs (g_xfer (tunnel_send now dst p n)) = spec_send (dst, p) (xfer_abs ?x)"
    using a by (simp add: s spec_send_def set_xfer_def xfer_abs_start)
  obtain dst' p' where q: "xs_tq ?x ! xs_tq_head ?x = (dst', p')" by (cases "xs_tq ?x ! xs_tq_head ?x")
  let ?m = "sar_start dst' p' n"
  have "xfer_abs (tq_pop (g_xfer ?m)) = (Some (dst', p'), tl (tq_contents ?x))" if "0 < xs_tq_count ?x"
    using tq_contents_pop [of "g_xfer ?m"] that ok by (simp add: xfer_abs_def sar_start_def tq_ok_def tq_pop_def)
  moreover have "tq_contents ?x = (dst', p') # tl (tq_contents ?x)" if "0 < xs_tq_count ?x"
    using tq_contents_hd [OF ok that] that e q by (metis hd_Cons_tl less_numeral_extra(3))
  ultimately show "xfer_abs (g_xfer (tun_queue_tick now n)) =
       (if sint (now - xs_tx_done_ms ?x) < sint TQ_DRAIN_GRACE_MS \<or> sar_rx_busy now n then xfer_abs ?x else spec_next (xfer_abs ?x))"
    using e by (cases "xs_tq_count ?x = 0") (auto simp: tun_queue_tick_def Let_def q set_xfer_def spec_next_def xfer_abs_def split: list.split)
qed

theorem tunnel_queue_equivalent_witness:
  "xfer_abs (g_xfer (tunnel_send 9 (nid_from_u32 2) (replicate 300 5) (node_boot (nid_from_u32 1) (replicate 32 0) [] demo_cfg)))
     = (Some (nid_from_u32 2, replicate 300 5), [])"
proof -
  let ?n = "node_boot (nid_from_u32 1) (replicate 32 0) [] demo_cfg"
  have "xfer_inv (g_xfer ?n)" using boot_inv [of "replicate 32 0" toy_crypto "nid_from_u32 1" "[]" demo_cfg] by (simp add: node_invD)
  moreover have "nid_from_u32 2 \<noteq> g_my_id ?n" by (simp add: node_boot_def) code_simp
  moreover have "xfer_abs (g_xfer ?n) = (None, [])" by (simp add: node_boot_def xfer_abs_def tq_contents_def ring_list_def)
  ultimately show ?thesis using tunnel_queue_equivalent [of ?n "nid_from_u32 2" "replicate 300 5" 9]
    by (simp add: spec_send_def frame_sizes SAR_MAX_FILE_def)
qed

end
