(* ===== verification/Ble_Link.thy ===== *)
theory Ble_Link
  imports Host_Tunnel
begin

text \<open>
  The bytes to a BLE client (\<^verbatim>\<open>host_write\<close> of \<^verbatim>\<open>src/src/main.cpp\<close>): packets, retries, the budget of a frame, and what an
  abandoned frame does to the client's decoder. The stack's answers are a list of attempts.
\<close>

section \<open>Frames to a BLE client\<close>

text \<open>\<^verbatim>\<open>host_write\<close>: to USB without a client; with a subscribed client the frame goes out in packets of at most one ATT
  payload, and a packet is accepted whole or not at all. One attempt: whether the stack takes the packet, whether the
  link is still up, the clock. The list of attempts is what the stack answers; \<^verbatim>\<open>Ble_pending\<close> says it was too short.\<close>

record ble_attempt =
  ba_ok :: bool
  ba_up :: bool
  ba_ms :: u32

record ble_stats =
  ble_tx_drops :: u32
  ble_tx_qfull :: u32
  ble_txb :: u32

datatype ble_outcome = Ble_sent | Ble_link_died | Ble_dropped | Ble_no_subscriber | Ble_pending | Usb_written

definition BLE_FRAME_BUDGET_MS :: u32 where "BLE_FRAME_BUDGET_MS = 1200"

definition ble_chunk :: "u16 option \<Rightarrow> nat" where
  "ble_chunk mtu =
     (let ch = (case mtu of None \<Rightarrow> 20 | Some m \<Rightarrow> unat (m - 3)); ch = (if ch < 20 then 20 else ch)
      in if 244 < ch then 244 else ch)"

fun ble_send :: "nat \<Rightarrow> u32 \<Rightarrow> ble_attempt list \<Rightarrow> bytes \<Rightarrow> ble_stats \<Rightarrow> bytes list \<times> ble_outcome \<times> ble_stats" where
  "ble_send ch t0 as [] st = ([], Ble_sent, st)"
| "ble_send ch t0 [] d st = ([], Ble_pending, st)"
| "ble_send ch t0 (a # as) d st =
     (if ba_ok a then (let (ps, out, st) = ble_send ch t0 as (drop ch d) st in (take ch d # ps, out, st))
      else let st = st\<lparr>ble_tx_qfull := ble_tx_qfull st + 1\<rparr>
           in if \<not> ba_up a then ([], Ble_link_died, st)
              else if sint BLE_FRAME_BUDGET_MS < sint (ba_ms a - t0) then ([], Ble_dropped, st\<lparr>ble_tx_drops := ble_tx_drops st + 1\<rparr>)
              else ble_send ch t0 as d st)"

definition host_send :: "bool \<Rightarrow> bool \<Rightarrow> u16 option \<Rightarrow> u32 \<Rightarrow> ble_attempt list \<Rightarrow> bytes \<Rightarrow> ble_stats
    \<Rightarrow> bytes list \<times> ble_outcome \<times> ble_stats" where
  "host_send conn subscribed mtu t0 as d st =
     (if \<not> conn then ([d], Usb_written, st)
      else if \<not> subscribed then ([], Ble_no_subscriber, st\<lparr>ble_tx_drops := ble_tx_drops st + 1\<rparr>)
      else let (ps, out, st) = ble_send (ble_chunk mtu) t0 as d st
           in (ps, out, if out = Ble_sent then st\<lparr>ble_txb := ble_txb st + of_nat (length d)\<rparr> else st))"

lemma ble_chunk_bounds: "20 \<le> ble_chunk mtu" "ble_chunk mtu \<le> 244"
  by (simp_all add: ble_chunk_def Let_def)

lemma ble_send_prefix:
  "0 < ch \<Longrightarrow> ble_send ch t0 as d st = (ps, out, st') \<Longrightarrow>
     (\<exists>rest. d = concat ps @ rest) \<and> (out = Ble_sent \<longleftrightarrow> concat ps = d) \<and> (\<forall>p\<in>set ps. p \<noteq> [] \<and> length p \<le> ch)
     \<and> ble_txb st' = ble_txb st \<and> ble_tx_drops st' = ble_tx_drops st + (if out = Ble_dropped then 1 else 0)"
proof (induction ch t0 as d st arbitrary: ps out rule: ble_send.induct)
  case (3 ch t0 a as c d st)
  let ?d = "c # d"
  show ?case
  proof (cases "ba_ok a")
    case True
    then obtain qs where q: "ble_send ch t0 as (drop ch ?d) st = (qs, out, st')" "ps = take ch ?d # qs"
      using "3.prems"(2) by (auto simp: case_prod_unfold Let_def prod_eq_iff)
    note ih = "3.IH"(1) [OF True "3.prems"(1) q(1)]
    have "take ch ?d \<noteq> []" using "3.prems"(1) by (cases ch) auto
    moreover have "concat ps = ?d \<longleftrightarrow> concat qs = drop ch ?d"
      by (metis append_take_drop_id concat.simps(2) q(2) same_append_eq)
    moreover have "\<exists>rest. ?d = concat ps @ rest" using ih append_take_drop_id [of ch ?d] by (metis append_assoc concat.simps(2) q(2))
    ultimately show ?thesis using ih by (simp add: q(2))
  next
    case False
    define u where "u = st\<lparr>ble_tx_qfull := ble_tx_qfull st + 1\<rparr>"
    have u: "ble_txb u = ble_txb st" "ble_tx_drops u = ble_tx_drops st" by (simp_all add: u_def)
    show ?thesis
    proof (cases "ba_up a \<and> \<not> sint BLE_FRAME_BUDGET_MS < sint (ba_ms a - t0)")
      case True
      then have "ble_send ch t0 as ?d u = (ps, out, st')" using "3.prems"(2) False by (simp add: u_def Let_def)
      with "3.IH"(2) [OF False u_def _ _ "3.prems"(1)] True show ?thesis by (simp add: u)
    next
      case nogo: False
      then have "ps = []" "out = Ble_link_died \<and> st' = u \<or> out = Ble_dropped \<and> st' = u\<lparr>ble_tx_drops := ble_tx_drops u + 1\<rparr>"
        using "3.prems"(2) False by (auto simp: u_def Let_def split: if_splits)
      then show ?thesis by (auto simp: u)
    qed
  qed
qed auto

text \<open>A client that decodes as this node does: the flag opens a frame and closes it.\<close>

lemma hdlc_inverted:
  assumes "co_in_frame s" "ds \<noteq> []"
  shows "snd (hdlc_run (concat (map hdlc_frame ds)) s) = (if co_frame s = [] then [] else [co_frame s])"
proof -
  have one: "\<exists>t. hdlc_run (hdlc_frame d) s = (t, if co_frame s = [] then [] else [co_frame s]) \<and> co_in_frame t \<and> co_frame t = []" if "co_in_frame s" for s d
  proof -
    let ?t = "s\<lparr>co_in_frame := False, co_line := []\<rparr>"
    have "hdlc_run (hdlc_stuff d) ?t = (?t, [])" by (simp add: hdlc_run_outside hdlc_stuff_no_flag)
    then show ?thesis using that by (simp add: hdlc_frame_def hdlc_run_append hdlc_feed_def Let_def)
  qed
  have rest: "snd (hdlc_run (concat (map hdlc_frame ds)) t) = []" if "co_in_frame t" "co_frame t = []" for t ds
    using that
  proof (induction ds arbitrary: t)
    case (Cons d ds)
    obtain u where "hdlc_run (hdlc_frame d) t = (u, [])" "co_in_frame u" "co_frame u = []" using one [OF Cons.prems(1), of d] Cons.prems(2) by auto
    then show ?case using Cons.IH [of u] by (simp add: hdlc_run_append case_prod_unfold Let_def)
  qed simp
  obtain d es where ds: "ds = d # es" using assms(2) by (cases ds) auto
  obtain u where "hdlc_run (hdlc_frame d) s = (u, if co_frame s = [] then [] else [co_frame s])" "co_in_frame u" "co_frame u = []" using one [OF assms(1)] by blast
  then show ?thesis using rest [of u es] by (simp add: ds hdlc_run_append case_prod_unfold Let_def)
qed

lemma take_take_append: "take m (take m xs @ ys) = take m (xs @ ys)"
  by (cases "m \<le> length xs") simp_all

lemma hdlc_run_head:
  "co_in_frame s \<Longrightarrow> \<not> co_esc s \<Longrightarrow> length (co_frame s) \<le> HDLC_FRAME_MAX \<Longrightarrow>
     \<exists>t j. hdlc_run (take k (hdlc_stuff d)) s = (t, []) \<and> co_in_frame t \<and> co_frame t = take HDLC_FRAME_MAX (co_frame s @ take j d)"
proof (induction d arbitrary: s k)
  case Nil
  then show ?case by (intro exI [of _ s] exI [of _ 0]) simp
next
  case (Cons b d)
  define p where "p = (if b = HDLC_FLAG \<or> b = HDLC_ESC then [HDLC_ESC, b XOR HDLC_ESC_MASK] else [b])"
  have p: "hdlc_stuff (b # d) = p @ hdlc_stuff d" "hdlc_stuff [b] = p" by (simp_all add: p_def)
  show ?case
  proof (cases "length p \<le> k")
    case True
    let ?s = "s\<lparr>co_frame := take HDLC_FRAME_MAX (co_frame s @ [b])\<rparr>"
    have s': "co_in_frame ?s" "\<not> co_esc ?s" "length (co_frame ?s) \<le> HDLC_FRAME_MAX" using Cons.prems by simp_all
    have run: "hdlc_run p s = (?s, [])" using hdlc_run_body [OF Cons.prems, of "[b]"] p(2) by simp
    obtain t j where t: "hdlc_run (take (k - length p) (hdlc_stuff d)) ?s = (t, [])" "co_in_frame t"
        "co_frame t = take HDLC_FRAME_MAX (co_frame ?s @ take j d)"
      using Cons.IH [OF s', of "k - length p"] by blast
    have "co_frame ?s = take HDLC_FRAME_MAX (co_frame s @ [b])" by simp
    then have more: "take HDLC_FRAME_MAX (co_frame ?s @ take j d) = take HDLC_FRAME_MAX (co_frame s @ take (Suc j) (b # d))"
      using take_take_append [of HDLC_FRAME_MAX "co_frame s @ [b]" "take j d"] by (simp only: append_assoc append_Cons append_Nil take_Suc_Cons)
    have "take k (hdlc_stuff (b # d)) = p @ take (k - length p) (hdlc_stuff d)" using True by (simp only: p(1) take_append take_all)
    then have "hdlc_run (take k (hdlc_stuff (b # d))) s = (t, [])" by (simp only: hdlc_run_append run t(1) prod.case append_Nil Let_def)
    then show ?thesis using t(2) t(3) [unfolded more] by blast
  next
    case False
    then have "k = 0 \<or> k = 1 \<and> p = [HDLC_ESC, b XOR HDLC_ESC_MASK]" by (auto simp: p_def split: if_splits)
    then show ?thesis
    proof
      assume "k = 0"
      then show ?thesis using Cons.prems by (intro exI [of _ s] exI [of _ 0]) simp
    next
      assume k: "k = 1 \<and> p = [HDLC_ESC, b XOR HDLC_ESC_MASK]"
      let ?t = "fst (hdlc_feed HDLC_ESC s)"
      have "hdlc_run [HDLC_ESC] s = (?t, []) \<and> co_in_frame ?t \<and> co_frame ?t = co_frame s" using Cons.prems by (auto simp: hdlc_feed_def Let_def)
      moreover have "take k (hdlc_stuff (b # d)) = [HDLC_ESC]" unfolding p(1) using k by simp
      moreover have "co_frame s = take HDLC_FRAME_MAX (co_frame s @ take 0 (b # d))" using Cons.prems by simp
      ultimately show ?thesis by metis
    qed
  qed
qed

lemma ble_send_outcome: "fst (snd (ble_send ch t0 as d st)) \<notin> {Ble_no_subscriber, Usb_written}"
  by (induction ch t0 as d st rule: ble_send.induct) (auto simp: case_prod_unfold Let_def)

text \<open>A proper beginning of a frame leaves the client inside it; every later flag is then read the wrong way round.\<close>

lemma abandoned_prefix:
  assumes "\<exists>rest. hdlc_frame d = pre @ rest" "pre \<noteq> hdlc_frame d" "pre \<noteq> []" "\<not> co_in_frame s" "ds \<noteq> []"
  shows "\<exists>j. snd (hdlc_run (pre @ concat (map hdlc_frame ds)) s) = (if take j d = [] then [] else [take HDLC_FRAME_MAX (take j d)])"
proof -
  obtain rest where r: "hdlc_frame d = pre @ rest" "rest \<noteq> []" using assms(1,2) by auto
  then have "length pre < length (hdlc_frame d)" by simp
  then obtain k where k: "length pre = Suc k" "k \<le> length (hdlc_stuff d)" using assms(3) by (cases "length pre") (auto simp: hdlc_frame_def)
  have "pre = take (Suc k) (hdlc_frame d)" using r k(1) by simp
  then have c: "pre = [HDLC_FLAG] @ take k (hdlc_stuff d)" using k(2) by (simp add: hdlc_frame_def)
  let ?s = "s\<lparr>co_in_frame := True, co_frame := [], co_esc := False, co_line := []\<rparr>"
  obtain t j where t: "hdlc_run (take k (hdlc_stuff d)) ?s = (t, [])" "co_in_frame t" "co_frame t = take HDLC_FRAME_MAX (take j d)"
    using hdlc_run_head [of ?s k d] by auto
  have "hdlc_run pre s = (t, [])" using t(1) assms(4) unfolding c hdlc_run_append by (simp add: hdlc_feed_def Let_def)
  then have "snd (hdlc_run (pre @ concat (map hdlc_frame ds)) s) = (if co_frame t = [] then [] else [co_frame t])"
    using hdlc_inverted [OF t(2) assms(5)] by (simp add: hdlc_run_append case_prod_unfold Let_def)
  moreover have "take HDLC_FRAME_MAX (take j d) = [] \<longleftrightarrow> take j d = []" by (auto simp: HDLC_FRAME_MAX_def TUN_HOST_MAX_def)
  ultimately show ?thesis using t(3) by metis
qed

text \<open>C37. A frame the BLE leg gives up costs the client every later one. A frame goes whole to USB when no client is connected
  and in packets of at most 244 bytes to a subscribed client; together the packets are a beginning of the frame, all of
  it exactly when it counts as sent; a sent frame adds its length to the byte count, a dropped one (no subscriber, or
  the retry budget spent) one to the drop count. When the
  budget ends in the middle of a frame, a client that decodes by the node's own rule, in which a flag opens a frame and
  closes it, takes the opening flag of the next frame for the missing closing one: however many whole frames follow, it
  delivers none of them, only the beginning of the abandoned one.\<close>

theorem abandoned_frame_desync:
  assumes "host_send conn subscribed mtu t0 as (hdlc_frame d) st = (ps, out, st')" "\<not> co_in_frame s" "ds \<noteq> []"
  shows "(\<exists>rest. hdlc_frame d = concat ps @ rest) \<and> (conn \<longrightarrow> (\<forall>p\<in>set ps. p \<noteq> [] \<and> length p \<le> 244))
    \<and> (out \<in> {Ble_sent, Usb_written} \<longleftrightarrow> concat ps = hdlc_frame d)
    \<and> (out = Ble_sent \<longrightarrow> ble_txb st' = ble_txb st + of_nat (length (hdlc_frame d)) \<and> ble_tx_drops st' = ble_tx_drops st)
    \<and> (out \<in> {Ble_dropped, Ble_no_subscriber} \<longrightarrow> ble_txb st' = ble_txb st \<and> ble_tx_drops st' = ble_tx_drops st + 1)
    \<and> (out = Ble_dropped \<and> ps \<noteq> [] \<longrightarrow>
        (\<exists>j. snd (hdlc_run (concat ps @ concat (map hdlc_frame ds)) s)
            = (if take j d = [] then [] else [take HDLC_FRAME_MAX (take j d)])))"
proof (cases "conn \<and> subscribed")
  case False
  then show ?thesis using assms(1) by (cases conn) (auto simp: host_send_def hdlc_frame_def)
next
  case True
  then obtain st0 where b: "ble_send (ble_chunk mtu) t0 as (hdlc_frame d) st = (ps, out, st0)"
    and st': "st' = (if out = Ble_sent then st0\<lparr>ble_txb := ble_txb st0 + of_nat (length (hdlc_frame d))\<rparr> else st0)"
    using assms(1) by (auto simp: host_send_def case_prod_unfold Let_def prod_eq_iff)
  have "0 < ble_chunk mtu" using ble_chunk_bounds(1) [of mtu] by simp
  note p = ble_send_prefix [OF this b]
  have out: "out \<noteq> Ble_no_subscriber" "out \<noteq> Usb_written" using ble_send_outcome [of "ble_chunk mtu" t0 as "hdlc_frame d" st] b by auto
  have stats: "ble_tx_drops st' = ble_tx_drops st + (if out = Ble_dropped then 1 else 0)"
    "ble_txb st' = (if out = Ble_sent then ble_txb st + of_nat (length (hdlc_frame d)) else ble_txb st)" using p by (simp_all add: st')
  have short: "\<forall>p\<in>set ps. p \<noteq> [] \<and> length p \<le> 244" using p ble_chunk_bounds(2) [of mtu] order_trans by blast
  have "\<exists>j. snd (hdlc_run (concat ps @ concat (map hdlc_frame ds)) s) = (if take j d = [] then [] else [take HDLC_FRAME_MAX (take j d)])"
    if "out = Ble_dropped" "ps \<noteq> []"
  proof -
    have "concat ps \<noteq> hdlc_frame d" "concat ps \<noteq> []" using p that by (auto simp: neq_Nil_conv)
    then show ?thesis using p abandoned_prefix [OF _ _ _ assms(2,3), of d] by blast
  qed
  with p out stats short show ?thesis by (intro conjI impI) auto
qed

theorem abandoned_frame_desync_witness:
  "\<exists>ps st'. host_send True True None 0 [\<lparr>ba_ok = True, ba_up = True, ba_ms = 5\<rparr>, \<lparr>ba_ok = False, ba_up = True, ba_ms = 1300\<rparr>]
        (hdlc_frame (replicate 30 7)) \<lparr>ble_tx_drops = 0, ble_tx_qfull = 0, ble_txb = 0\<rparr> = (ps, Ble_dropped, st')
     \<and> ble_tx_drops st' = 1
     \<and> (\<exists>j. snd (hdlc_run (concat ps @ concat (map hdlc_frame [[1], [2]])) ConState_init)
            = (if take j (replicate 30 7) = [] then [] else [take HDLC_FRAME_MAX (take j (replicate 30 7))]))"
proof -
  let ?as = "[\<lparr>ba_ok = True, ba_up = True, ba_ms = 5\<rparr>, \<lparr>ba_ok = False, ba_up = True, ba_ms = 1300\<rparr>]"
  let ?f = "hdlc_frame (replicate 30 7)"
  let ?st = "\<lparr>ble_tx_drops = 0, ble_tx_qfull = 0, ble_txb = 0\<rparr>"
  have ch: "ble_chunk None = 20" by (simp add: ble_chunk_def)
  have "length (hdlc_stuff (replicate n 7)) = n" for n by (induction n) (simp_all add: HDLC_FLAG_def HDLC_ESC_def)
  then have len: "length ?f = 32" by (simp add: hdlc_frame_def)
  obtain b bs where f: "?f = b # bs" by (auto simp: hdlc_frame_def)
  obtain c cs where g: "drop 20 ?f = c # cs" using len by (cases "drop 20 ?f") auto
  have send: "ble_send (ble_chunk None) 0 ?as ?f ?st = ([take 20 ?f], Ble_dropped, \<lparr>ble_tx_drops = 1, ble_tx_qfull = 1, ble_txb = 0\<rparr>)"
    unfolding ch f ble_send.simps(3) by (simp only: f [symmetric] g ble_send.simps(3)) (simp add: BLE_FRAME_BUDGET_MS_def Let_def)
  have ps: "host_send True True None 0 ?as ?f ?st = ([take 20 ?f], Ble_dropped, \<lparr>ble_tx_drops = 1, ble_tx_qfull = 1, ble_txb = 0\<rparr>)"
    by (simp add: host_send_def send)
  have "\<not> co_in_frame ConState_init" "[[1], [2 :: u8]] \<noteq> []" by (simp_all add: ConState_init_def)
  from abandoned_frame_desync [OF ps this] len ps show ?thesis by auto
qed

end
