(* ===== verification/Node_Rx.thy ===== *)
theory Node_Rx
  imports Node_Transfer
begin

text \<open>
  The receive handler \<^verbatim>\<open>on_rx\<close> and the main loop \<^verbatim>\<open>agn_loop_once\<close> of \<^verbatim>\<open>src/main.cpp\<close>. The environment of one call is the
  record \<open>rx_env\<close>: the clock, the random numbers drawn, whether the radio accepts a configuration. A value \<open>None\<close> is a
  read outside a buffer.
\<close>

record rx_env =
  ev_now :: u32
  ev_rnd :: u32
  ev_cfg_ok :: bool

section \<open>Beacons\<close>

definition verify_identity :: "crypto \<Rightarrow> u32 \<Rightarrow> bytes \<Rightarrow> announce \<Rightarrow> node_id \<Rightarrow> node \<Rightarrow> node option" where
  "verify_identity cr now region ann src n =
     (let bl = announce_body_len ann in
      if bl + ANNOUNCE_SIG_TAIL \<le> length region then
        let (r, t) = intern (g_id_table n) src now; n = n\<lparr>g_id_table := t\<rparr> in
        if \<not> verified t r then do {
          body \<leftarrow> rdn region 0 bl;
          tail \<leftarrow> rdn region bl ANNOUNCE_SIG_TAIL;
          Some (case announce_verify (ed_check cr) body tail of
                  None \<Rightarrow> emit (Ann_bad_line src) n
                | Some pub \<Rightarrow>
                    if nid_from_pubkey (blake cr) pub = src
                    then emit (Ann_line src pub) (n\<lparr>g_id_table := mark_verified t r pub\<rparr>)
                    else emit (Ann_bad_line src) n) }
        else Some n
      else Some n)"

definition on_beacon_rx :: "crypto \<Rightarrow> u32 \<Rightarrow> bytes \<Rightarrow> net_header \<Rightarrow> float32 \<Rightarrow> float32 \<Rightarrow> node \<Rightarrow> node option" where
  "on_beacon_rx cr now buf net rssi snr n =
     (let base = HEADER_BYTES + BEACON_PAYLOAD_BYTES; region = drop base buf in do {
        parsed \<leftarrow> (if base < length buf then announce_deserialize region else Some None);
        let ann = (case parsed of None \<Rightarrow> Announce_init | Some a \<Rightarrow> a);
        let n = n\<lparr>g_router := on_beacon (g_router n) (nh_src net) (quality_from_rf snr rssi) ann now\<rparr>;
        n \<leftarrow> (if parsed \<noteq> None then verify_identity cr now region ann (nh_src net) n else Some n);
        bpp \<leftarrow> (if base \<le> length buf then map_option bp_batt_pct_plus1 (rd_beacon_payload buf HEADER_BYTES) else Some 0);
        Some (n\<lparr>g_ann_cache := ann_cache_put (nh_src net) ann rssi snr bpp now (g_ann_cache n)\<rparr>) })"

section \<open>Data delivered to this node\<close>

definition data_done :: "u32 \<Rightarrow> bytes \<Rightarrow> node \<Rightarrow> node option" where
  "data_done now pay n = do {
     xid \<leftarrow> sar_parse_done pay;
     let x = g_xfer n;
     Some (if xid = xs_xfer_id x \<and> \<not> xs_tx_active x \<and> \<not> xs_resend_active x
           then set_xfer (x\<lparr>xs_tx_done_ms := now - (TQ_DRAIN_GRACE_MS - TQ_DONE_GAP_MS)\<rparr>) n else n) }"

definition data_nack :: "bytes \<Rightarrow> node_id \<Rightarrow> node \<Rightarrow> node option" where
  "data_nack pay src n = do {
     r \<leftarrow> sar_parse_nack pay SAR_MAX_FRAGS;
     let x = g_xfer n;
     Some (case r of
             None \<Rightarrow> n
           | Some (xid, req) \<Rightarrow>
               if xid = xs_xfer_id x \<and> 0 < length (xs_buf x) \<and> 0 < length req
               then set_xfer (x\<lparr>xs_resend := req, xs_resend_idx := 0, xs_resend_active := True, xs_tx_dst := src\<rparr>) n
               else n) }"

text \<open>A verified transfer: to the host, and a DONE to the sender once per transfer id.\<close>

definition sar_finish :: "u32 \<Rightarrow> node \<Rightarrow> node" where
  "sar_finish now n =
     (let x = g_xfer n; r = xs_rx x;
          n = (if host_tunnel_active n then tunnel_emit (xs_rx_sender x) (take (unat (sr_total_len r)) (sr_buf r)) n else n)
      in if sr_xfer_id r \<noteq> xs_done_sent x then
           let n = (case sar_build_done (sr_xfer_id r) SAR_DONE_BYTES of
                      None \<Rightarrow> n
                    | Some d \<Rightarrow> send_data_bytes now (xs_rx_sender x) d n)
           in n\<lparr>g_xfer := (g_xfer n)\<lparr>xs_done_sent := sr_xfer_id r\<rparr>\<rparr>
         else n)"

definition data_fragment :: "u32 \<Rightarrow> u32 \<Rightarrow> bytes \<Rightarrow> node_id \<Rightarrow> node \<Rightarrow> node option" where
  "data_fragment now rnd pay src n = do {
     xf \<leftarrow> rd16 pay 4;
     let x = g_xfer n;
     let x = (if xf \<noteq> xs_rx_last_xfer x then x\<lparr>xs_rx_last_xfer := xf, xs_nack_rounds := 0\<rparr> else x);
     (added, r) \<leftarrow> sar_add pay (xs_rx x);
     let n = sar_nack_rearm now rnd (set_xfer (x\<lparr>xs_rx := r, xs_rx_sender := src\<rparr>) n);
     let n = n\<lparr>g_xfer := (g_xfer n)\<lparr>xs_quiet_until := now + 8000\<rparr>\<rparr>;
     Some (if sar_verify r then sar_finish now n else n) }"

definition data_deliver :: "u32 \<Rightarrow> u32 \<Rightarrow> bytes \<Rightarrow> net_header \<Rightarrow> node \<Rightarrow> node option" where
  "data_deliver now rnd pay net n =
     (if sar_is_done pay then data_done now pay n
      else if sar_is_nack pay then data_nack pay (nh_src net) n
      else if sar_is_fragment pay then data_fragment now rnd pay (nh_src net) n
      else if host_tunnel_active n then Some (tunnel_emit (nh_src net) pay n)
      else Some (emit (Data_line (nh_src net) (nh_pkt_id net) (take 63 pay)) n))"

definition on_data_rx :: "u32 \<Rightarrow> u32 \<Rightarrow> bytes \<Rightarrow> net_header \<Rightarrow> link_header \<Rightarrow> node \<Rightarrow> node option" where
  "on_data_rx now rnd buf net lh n =
     (let (d, n) = relay_decide net n in
      case d_action d of
        DELIVER \<Rightarrow> data_deliver now rnd (drop HEADER_BYTES buf) net n
      | FORWARD \<Rightarrow>
          if lh_next_hop lh = LINK_ADDR_BROADCAST then Some n
          else let n = forward_frame now buf (d_next_hop d) (d_out_ttl d) n
               in Some (n\<lparr>g_xfer := (g_xfer n)\<lparr>xs_quiet_until := now + 8000\<rparr>\<rparr>)
      | _ \<Rightarrow> Some n)"

section \<open>The receive handler\<close>

text \<open>After the link filter: the acknowledgement of the previous hop and the dispatch on the packet type.\<close>

definition rx_dispatch :: "crypto \<Rightarrow> rx_env \<Rightarrow> bytes \<Rightarrow> net_header \<Rightarrow> link_header \<Rightarrow> node \<Rightarrow> node option" where
  "rx_dispatch cr ev buf net lh n =
     (let ty = net_type_of (nh_ver_type net); now = ev_now ev in
      if ty = PKT_LOC then on_loc_rx now buf net lh n
      else if ty = PKT_TELEM then on_telem_rx now buf net lh n
      else if ty = PKT_CONTROL then on_control_rx cr now (ev_cfg_ok ev) buf net lh n
      else if ty = PKT_DATA then on_data_rx now (ev_rnd ev) buf net lh n
      else Some n)"

definition rx_linked :: "crypto \<Rightarrow> rx_env \<Rightarrow> bytes \<Rightarrow> net_header \<Rightarrow> link_header \<Rightarrow> node \<Rightarrow> node option" where
  "rx_linked cr ev buf net lh n =
     (let directed = (lh_next_hop lh \<noteq> LINK_ADDR_BROADCAST);
          link_from = (if directed then link_sender (g_router n) (lh_next_hop lh) (lh_prev_hop lh) else nid_zero)
      in if directed \<and> is_zero link_from then Some n
         else if lh_flags lh AND LINK_FLAG_IS_ACK \<noteq> 0 then Some (n\<lparr>g_arq := snd (on_ack (g_arq n) (lh_link_seq lh))\<rparr>)
         else
           let n = (if lh_flags lh AND LINK_FLAG_ACK_REQ \<noteq> 0 \<and> \<not> is_zero link_from
                    then send_ack link_from (lh_link_seq lh) n else n)
           in rx_dispatch cr ev buf net lh n)"

definition on_rx :: "crypto \<Rightarrow> rx_env \<Rightarrow> bytes \<Rightarrow> float32 \<Rightarrow> float32 \<Rightarrow> node \<Rightarrow> node option" where
  "on_rx cr ev buf rssi snr n =
     (if length buf < HEADER_BYTES then Some n
      else do {
        net \<leftarrow> rd_net buf 4;
        if net_ver_of (nh_ver_type net) \<noteq> PROTO_VERSION
        then Some (n\<lparr>g_ver_stats := snd (on_foreign (g_ver_stats n) (net_ver_of (nh_ver_type net)))\<rparr>)
        else if nh_src net = g_my_id n then Some n
        else do {
          n \<leftarrow> (if net_type_of (nh_ver_type net) = PKT_BEACON then on_beacon_rx cr (ev_now ev) buf net rssi snr n else Some n);
          lh \<leftarrow> rd_link buf 0;
          rx_linked cr ev buf net lh n } })"

section \<open>The main loop\<close>

definition ARQ_TICK_MS :: u32 where "ARQ_TICK_MS = 250"
definition TICK_PERIOD_MS :: u32 where "TICK_PERIOD_MS = 5000"

record loop_env =
  le_rx :: rx_env
  le_poll :: radio_env
  le_pump :: radio_env
  le_rssi :: float32
  le_snr :: float32
  le_micros :: u32
  le_batt_raw :: u16
  le_rnd_beacon :: u32
  le_rnd_nack :: u32
  le_rnd_batt :: u32
  le_rnd_burst :: u32

definition after :: "u32 \<Rightarrow> u32 \<Rightarrow> bool" where
  "after now t \<longleftrightarrow> \<not> before32 now t"

definition batt_read_due :: "u32 \<Rightarrow> u16 \<Rightarrow> node \<Rightarrow> node" where
  "batt_read_due now raw n =
     (if after now (g_next_batt_ms n) then (batt_refresh raw n)\<lparr>g_next_batt_ms := now + 60000\<rparr> else n)"

definition poll_radio :: "crypto \<Rightarrow> loop_env \<Rightarrow> node \<Rightarrow> node option" where
  "poll_radio cr e n =
     (let (h, air, f) = hal_poll (le_poll e) (g_radio n); n = n\<lparr>g_radio := h\<rparr> in
      case f of
        None \<Rightarrow> Some n
      | Some buf \<Rightarrow> do { n \<leftarrow> on_rx cr (le_rx e) buf (le_rssi e) (le_snr e) n; Some (n\<lparr>g_radio := arm_rx (g_radio n)\<rparr>) })"

definition pump_radio :: "loop_env \<Rightarrow> node \<Rightarrow> node" where
  "pump_radio e n = (let (q, h, air) = txq_pump (le_pump e) (g_txq n) (g_radio n) in n\<lparr>g_txq := q, g_radio := h\<rparr>)"

definition beacon_due :: "crypto \<Rightarrow> u32 \<Rightarrow> u32 \<Rightarrow> node \<Rightarrow> node" where
  "beacon_due cr now rnd n =
     (if after now (g_next_beacon_ms n) then
        if xs_tx_active (g_xfer n) \<or> xs_resend_active (g_xfer n) \<or> before32 now (xs_quiet_until (g_xfer n))
        then n\<lparr>g_next_beacon_ms := now + 2000\<rparr>
        else let n = send_beacon cr now n in n\<lparr>g_next_beacon_ms := schedule_next_beacon now rnd n\<rparr>
      else n)"

definition arq_due :: "u32 \<Rightarrow> node \<Rightarrow> node" where
  "arq_due now n =
     (if after now (g_next_arq_ms n) then
        let (lost, frames, a) = arq_tick (g_arq n) now;
            n = foldl (\<lambda>n f. txq_put f n) (n\<lparr>g_arq := a\<rparr>) frames
        in n\<lparr>g_next_arq_ms := now + ARQ_TICK_MS\<rparr>
      else n)"

definition age_due :: "u32 \<Rightarrow> node \<Rightarrow> node" where
  "age_due now n =
     (if after now (g_next_tick_ms n) then
        n\<lparr>g_router := tick (g_router n) now (neighbor_timeout_ms n) (route_timeout_ms n), g_next_tick_ms := now + TICK_PERIOD_MS\<rparr>
      else n)"

definition reregister :: "u32 \<Rightarrow> u32 \<Rightarrow> node \<Rightarrow> node" where
  "reregister now micros n =
     foldl (\<lambda>n k. case ls_my_regs (g_loc n) ! k of None \<Rightarrow> n | Some i \<Rightarrow> loc_register now micros i n) n
       [0..<length (ls_my_regs (g_loc n))]"

definition loc_due :: "u32 \<Rightarrow> u32 \<Rightarrow> node \<Rightarrow> node" where
  "loc_due now micros n =
     (let n = set_res (snd (rv_tick (ls_res (g_loc n)) now)) n in
      if after now (ls_next_rereg_ms (g_loc n)) then
        let n = reregister now micros n in n\<lparr>g_loc := (g_loc n)\<lparr>ls_next_rereg_ms := now + LOC_REREG_MS\<rparr>\<rparr>
      else n)"

definition batt_due :: "u32 \<Rightarrow> u32 \<Rightarrow> node \<Rightarrow> node" where
  "batt_due now rnd n =
     (let n = (if g_next_batt_flood_ms n = 0 then n\<lparr>g_next_batt_flood_ms := now + 120000\<rparr> else n) in
      if 0 < g_batt_scale n \<and> after now (g_next_batt_flood_ms n) then
        let n = telem_flood_batt now n in n\<lparr>g_next_batt_flood_ms := now + TELEM_BATT_PERIOD_MS + rnd\<rparr>
      else n)"

definition burst_due :: "u32 \<Rightarrow> u32 \<Rightarrow> u32 \<Rightarrow> node \<Rightarrow> node" where
  "burst_due now micros rnd n =
     (if ls_burst_left (g_loc n) \<noteq> 0 \<and> after now (ls_burst_ms (g_loc n)) then
        let n = reregister now micros n
        in n\<lparr>g_loc := (g_loc n)\<lparr>ls_burst_left := ls_burst_left (g_loc n) - 1, ls_burst_ms := now + 5000 + rnd\<rparr>\<rparr>
      else n)"

text \<open>One turn of the loop up to the reboot check. The reboot and the input of the two host transports, which end the turn, are
  events of their own.\<close>

definition agn_loop_once :: "crypto \<Rightarrow> loop_env \<Rightarrow> node \<Rightarrow> node option" where
  "agn_loop_once cr e n =
     (let now = ev_now (le_rx e); ok = ev_cfg_ok (le_rx e) in do {
        let n = batt_read_due now (le_batt_raw e) n;
        n \<leftarrow> poll_radio cr e n;
        let n = pump_radio e n;
        let n = beacon_due cr now (le_rnd_beacon e) n;
        let n = arq_due now n;
        let n = age_due now n;
        n \<leftarrow> sar_tx_tick now n;
        let n = sar_rx_tick now (le_rnd_nack e) n;
        let n = tun_queue_tick now n;
        let n = loc_due now (le_micros e) n;
        let n = batt_due now (le_rnd_batt e) n;
        let n = ctrl_deadman now ok n;
        let n = ctrl_blk_sweep now n;
        let n = ctrl_heartbeat_sweep now ok n;
        Some (burst_due now (le_micros e) (le_rnd_burst e) n) })"


section \<open>Handlers keep the invariant\<close>

lemma id_inv_intern: "id_inv cr t \<Longrightarrow> id_inv cr (snd (intern t i now))"
  by (simp add: id_inv_def inv_intros)

lemma id_inv_mark:
  assumes "id_inv cr t" "intern t i now = (r, t')" "nid_from_pubkey (blake cr) pub = i"
  shows "id_inv cr (mark_verified t' r pub)"
proof -
  have t': "nd_inv t'" "nd_bound (blake cr) t'" using id_inv_intern [OF assms(1), of i now] assms(2) by (simp_all add: id_inv_def)
  have "nid = i" if "resolve t' r = Some nid" for nid
  proof -
    have "\<not> ref_is_none r" using that by (auto simp: ref_is_none_def NODE_REF_NONE_def NODE_TABLE_CAP_def resolve_def nd_slot_def)
    then show ?thesis using intern_outcome [OF _ assms(2)] assms(1) that by (simp add: id_inv_def)
  qed
  then show ?thesis using t' assms(3) by (simp add: id_inv_def inv_intros)
qed

lemma verify_identity_keeps:
  assumes "node_inv cr n"
  shows "\<exists>n'. verify_identity cr now region ann src n = Some n' \<and> node_inv cr n'"
proof -
  obtain r t where t: "intern (g_id_table n) src now = (r, t)" by (cases "intern (g_id_table n) src now")
  have i: "id_inv cr t" using id_inv_intern [OF node_invD(7) [OF assms], of src now] t by simp
  then show ?thesis using assms id_inv_mark [OF node_invD(7) [OF assms] t]
    by (auto simp: verify_identity_def t Let_def rd_safe intro!: node_inv_part split: option.split)
qed

lemma on_beacon_my_id: "ro_my_id (on_beacon r i q a now) = ro_my_id r"
  by (simp add: on_beacon_def Let_def)

lemma on_beacon_rx_keeps:
  assumes "node_inv cr n"
  shows "\<exists>n'. on_beacon_rx cr now buf net rssi snr n = Some n' \<and> node_inv cr n'"
proof -
  let ?base = "HEADER_BYTES + BEACON_PAYLOAD_BYTES"
  obtain p where p: "(if ?base < length buf then announce_deserialize (drop ?base buf) else Some None) = Some p"
    "\<And>a. p = Some a \<Longrightarrow> ann_ok a"
    using announce_deserialize_cases [of "drop ?base buf"] by (cases "?base < length buf") auto
  define a where "a = (case p of None \<Rightarrow> Announce_init | Some a \<Rightarrow> a)"
  define n1 where "n1 = n\<lparr>g_router := on_beacon (g_router n) (nh_src net) (quality_from_rf snr rssi) a now\<rparr>"
  have "ann_ok a" using p(2) by (auto simp: a_def ann_ok_def Announce_init_def split: option.split)
  then have n1: "node_inv cr n1"
    unfolding n1_def using node_invD [OF assms] by (intro node_inv_part(5) assms) (simp_all add: router_inv_on_beacon on_beacon_my_id)
  obtain n2 where n2: "(if p \<noteq> None then verify_identity cr now (drop ?base buf) a (nh_src net) n1 else Some n1) = Some n2" "node_inv cr n2"
    using verify_identity_keeps [OF n1, of now "drop ?base buf" a "nh_src net"] n1 by (cases "p \<noteq> None") auto
  obtain b where b: "(if ?base \<le> length buf then map_option bp_batt_pct_plus1 (rd_beacon_payload buf HEADER_BYTES) else Some 0) = Some b"
    by (cases "?base \<le> length buf") (auto simp: rd_beacon_payload_def rd_safe frame_sizes)
  have "node_inv cr (n2\<lparr>g_ann_cache := c\<rparr>)" if "c = ann_cache_put i a rssi snr b now (g_ann_cache n2)" for c i
    unfolding that by (intro node_inv_part(9) n2(2) cache_inv_put(1) node_invD(8) [OF n2(2)])
  then show ?thesis
    unfolding on_beacon_rx_def Let_def p(1) bind.bind_lunit a_def [symmetric] n1_def [symmetric] n2(1) b by simp
qed


lemma data_done_keeps:
  assumes "node_inv cr n" "sar_is_done pay"
  shows "\<exists>n'. data_done now pay n = Some n' \<and> node_inv cr n'"
proof -
  obtain xid where "sar_parse_done pay = Some xid" using assms(2) by (auto simp: sar_is_done_def sar_parse_done_def SAR_DONE_BYTES_def rd_safe)
  moreover have "xfer_inv ((g_xfer n)\<lparr>xs_tx_done_ms := t\<rparr>)" for t
    using node_invD(9) [OF assms(1)] by (simp add: xfer_inv_def tq_ok_def)
  ultimately show ?thesis using assms(1) by (auto simp: data_done_def Let_def intro!: inv_intros)
qed

lemma data_nack_keeps:
  assumes "node_inv cr n"
  shows "\<exists>n'. data_nack pay src n = Some n' \<and> node_inv cr n'"
proof -
  obtain r where r: "sar_parse_nack pay SAR_MAX_FRAGS = Some r" using sar_parse_nack_total by blast
  have "xfer_inv ((g_xfer n)\<lparr>xs_resend := req, xs_resend_idx := 0, xs_resend_active := True, xs_tx_dst := src\<rparr>)"
    if "r = Some (xid, req)" "req \<noteq> []" for xid req
    using that r sar_parse_nack_le [of pay SAR_MAX_FRAGS xid req] node_invD(9) [OF assms] by (simp add: xfer_inv_def tq_ok_def)
  then show ?thesis using assms by (auto simp: data_nack_def r Let_def intro!: inv_intros split: option.split)
qed

lemma node_inv_sar_finish [inv_intros]:
  assumes "node_inv cr n"
  shows "node_inv cr (sar_finish now n)"
proof -
  have k: "node_inv cr m \<Longrightarrow> node_inv cr (m\<lparr>g_xfer := (g_xfer m)\<lparr>xs_done_sent := i\<rparr>\<rparr>)" for m i
    using node_invD(9) [of cr m] by (simp add: node_inv_part(11) xfer_inv_def tq_ok_def)
  show ?thesis using assms by (auto simp: sar_finish_def Let_def intro!: k inv_intros split: option.split)
qed

lemma data_fragment_keeps:
  assumes "node_inv cr n" "sar_is_fragment pay"
  shows "\<exists>n'. data_fragment now rnd pay src n = Some n' \<and> node_inv cr n'"
proof -
  obtain xf where xf: "rd16 pay 4 = Some xf" using assms(2) by (auto simp: sar_is_fragment_def sar_sizes rd_safe)
  define x where "x = (if xf \<noteq> xs_rx_last_xfer (g_xfer n) then (g_xfer n)\<lparr>xs_rx_last_xfer := xf, xs_nack_rounds := 0\<rparr> else g_xfer n)"
  have x: "xfer_inv x" using node_invD(9) [OF assms(1)] by (simp add: x_def xfer_inv_def tq_ok_def)
  then obtain ok r where r: "sar_add pay (xs_rx x) = Some (ok, r)" "sar_inv r" using sar_add_keeps [of "xs_rx x" pay] by (auto simp: xfer_inv_def)
  then have "xfer_inv (x\<lparr>xs_rx := r, xs_rx_sender := src\<rparr>)" using x by (simp add: xfer_inv_def tq_ok_def)
  then show ?thesis unfolding data_fragment_def Let_def xf bind.bind_lunit x_def [symmetric] r(1) prod.case
    using assms(1) by (auto intro!: inv_intros)
qed

lemma on_data_rx_keeps:
  assumes "node_inv cr n" "frame_ok buf"
  shows "\<exists>n'. on_data_rx now rnd buf net lh n = Some n' \<and> node_inv cr n'"
proof -
  obtain d m where d: "relay_decide net n = (d, m)" by (cases "relay_decide net n")
  then have m: "node_inv cr m" using node_inv_relay_decide [OF assms(1), of net] by simp
  have "\<exists>n'. data_deliver now rnd (drop HEADER_BYTES buf) net m = Some n' \<and> node_inv cr n'"
    using m by (auto simp: data_deliver_def data_done_keeps data_nack_keeps data_fragment_keeps)
  then show ?thesis using m assms(2) by (auto simp: on_data_rx_def d Let_def intro!: inv_intros split: action.split)
qed


lemma node_inv_on_ack [inv_intros]: "node_inv cr n \<Longrightarrow> node_inv cr (n\<lparr>g_arq := snd (on_ack (g_arq n) q)\<rparr>)"
  by (simp add: node_inv_part(3) tx_inv_on_ack node_invD)

lemma rx_dispatch_keeps:
  "node_inv cr n \<Longrightarrow> frame_ok buf \<Longrightarrow> \<exists>n'. rx_dispatch cr ev buf net lh n = Some n' \<and> node_inv cr n'"
  by (simp add: rx_dispatch_def Let_def on_loc_rx_keeps on_telem_rx_keeps on_control_rx_keeps on_data_rx_keeps)

lemma rx_linked_keeps:
  "node_inv cr n \<Longrightarrow> frame_ok buf \<Longrightarrow> \<exists>n'. rx_linked cr ev buf net lh n = Some n' \<and> node_inv cr n'"
  by (simp add: rx_linked_def Let_def rx_dispatch_keeps inv_intros)

lemma on_rx_keeps:
  assumes "node_inv cr n" "length buf \<le> RADIO_MAX_FRAME"
  shows "\<exists>n'. on_rx cr ev buf rssi snr n = Some n' \<and> node_inv cr n'"
proof (cases "length buf < HEADER_BYTES")
  case False
  then obtain net lh where h: "rd_net buf 4 = Some net" "rd_link buf 0 = Some lh"
    using rd_net_some [of 4 buf] rd_link_some [of 0 buf] by (auto simp: frame_sizes)
  have f: "frame_ok buf" using False assms(2) by (simp add: frame_ok_def)
  obtain n1 where n1: "(if net_type_of (nh_ver_type net) = PKT_BEACON then on_beacon_rx cr (ev_now ev) buf net rssi snr n else Some n) = Some n1"
    "node_inv cr n1" using assms(1) on_beacon_rx_keeps [OF assms(1), of "ev_now ev" buf net rssi snr]
    by (cases "net_type_of (nh_ver_type net) = PKT_BEACON") auto
  show ?thesis unfolding on_rx_def h bind.bind_lunit n1(1)
    using False assms(1) rx_linked_keeps [OF n1(2) f, of ev net lh] by simp
qed (use assms in \<open>simp add: on_rx_def\<close>)

section \<open>The loop keeps the invariant\<close>

lemma poll_radio_keeps:
  assumes "node_inv cr n"
  shows "\<exists>n'. poll_radio cr e n = Some n' \<and> node_inv cr n'"
proof -
  obtain h air f where p: "hal_poll (le_poll e) (g_radio n) = (h, air, f)" by (cases "hal_poll (le_poll e) (g_radio n)")
  have t: "tx_inv (g_txq n) (g_arq n) (g_radio n)" using assms by (rule node_invD)
  then have c: "hal_wf h" "map fst air @ inflight h = inflight (g_radio n)" using hal_poll_conserves [OF _ p] by (simp_all add: tx_inv_def)
  from c(2) have "set (inflight h) \<subseteq> set (inflight (g_radio n))" by (metis set_append Un_upper2)
  then have "node_inv cr (n\<lparr>g_radio := h\<rparr>)" using t assms by (intro node_inv_part(4)) (use c(1) in \<open>auto intro: tx_inv_radio\<close>)
  moreover have "f = Some b \<Longrightarrow> length b \<le> RADIO_MAX_FRAME" for b
    using p by (auto simp: hal_poll_def rx_done_def Let_def case_prod_unfold split: if_splits hal_state.splits option.splits)
  moreover have "node_inv cr (m\<lparr>g_radio := arm_rx (g_radio m)\<rparr>)" if "node_inv cr m" for m
    by (intro node_inv_part(4) that tx_inv_radio [OF node_invD(1) [OF that]]) simp_all
  ultimately show ?thesis using on_rx_keeps [of cr "n\<lparr>g_radio := h\<rparr>" _ "le_rx e" "le_rssi e" "le_snr e"]
    by (cases f) (force simp: poll_radio_def p Let_def)+
qed

lemma node_inv_pump_radio [inv_intros]: "node_inv cr n \<Longrightarrow> node_inv cr (pump_radio e n)"
proof -
  assume n: "node_inv cr n"
  obtain q h air where p: "txq_pump (le_pump e) (g_txq n) (g_radio n) = (q, h, air)" by (cases "txq_pump (le_pump e) (g_txq n) (g_radio n)")
  have t: "tx_inv (g_txq n) (g_arq n) (g_radio n)" using n by (rule node_invD)
  then have ne: "[] \<notin> set (txq_contents (g_txq n))" by (auto simp: tx_inv_def frame_ok_def frame_sizes)
  have c: "txq_ok q \<and> hal_wf h \<and> map fst air @ inflight h @ txq_contents q = inflight (g_radio n) @ txq_contents (g_txq n)"
    using txq_pump_conserves [OF _ _ ne p] t by (auto simp: tx_inv_def)
  from c have "set (map fst air) \<union> (set (inflight h) \<union> set (txq_contents q)) = set (inflight (g_radio n)) \<union> set (txq_contents (g_txq n))"
    by (metis set_append)
  then have "tx_inv q (g_arq n) h" using c t unfolding tx_inv_def by blast
  then show ?thesis using node_inv_part(1) [OF n, of q "g_arq n" h] by (simp add: pump_radio_def p)
qed

lemma node_inv_beacon_due [inv_intros]: "sig_len cr \<Longrightarrow> node_inv cr n \<Longrightarrow> node_inv cr (beacon_due cr now rnd n)"
  by (simp add: beacon_due_def Let_def node_inv_send_beacon)

lemma node_inv_put_all: "node_inv cr n \<Longrightarrow> \<forall>f\<in>set fs. frame_ok f \<Longrightarrow> node_inv cr (foldl (\<lambda>n f. txq_put f n) n fs)"
  by (induction fs arbitrary: n) (simp_all add: inv_intros)

lemma tx_inv_tick:
  assumes "tx_inv q a h"
  shows "tx_inv q (snd (snd (arq_tick a now))) h" "\<forall>f\<in>set (fst (snd (arq_tick a now))). frame_ok f"
proof -
  have u: "pd_used (fst (tick_slot now p)) \<Longrightarrow> pd_used p" "f \<in> set (fst (snd (tick_slot now p))) \<Longrightarrow> pd_used p \<and> f = pd_frame p" for p f
    by (auto simp: tick_slot_def split: if_splits)
  have i: "arq_inv (snd (snd (arq_tick a now)))" using arq_inv_step [of a "Op_tick now"] assms by (simp add: tx_inv_def)
  show "tx_inv q (snd (snd (arq_tick a now))) h" using assms i u(1) by (auto simp: tx_inv_def arq_tick_fields)
  show "\<forall>f\<in>set (fst (snd (arq_tick a now))). frame_ok f" using assms u(2) by (fastforce simp: tx_inv_def arq_tick_fields)
qed

lemma node_inv_arq_due [inv_intros]: "node_inv cr n \<Longrightarrow> node_inv cr (arq_due now n)"
  using tx_inv_tick [OF node_invD(1), of cr n now]
  by (simp add: arq_due_def Let_def case_prod_unfold node_inv_put_all node_inv_part(3))

lemma tick_my_id: "ro_my_id (tick r now a b) = ro_my_id r"
  by (simp add: tick_def Let_def case_prod_unfold)

lemma node_inv_age_due [inv_intros]: "node_inv cr n \<Longrightarrow> node_inv cr (age_due now n)"
  by (simp add: age_due_def node_inv_part(5) router_inv_tick tick_my_id node_invD)

lemma node_inv_reregister [inv_intros]: "node_inv cr n \<Longrightarrow> node_inv cr (reregister now us n)"
proof -
  have "node_inv cr n \<Longrightarrow> node_inv cr (foldl (\<lambda>n k. case ls_my_regs (g_loc n) ! k of None \<Rightarrow> n | Some i \<Rightarrow> loc_register now us i n) n ks)" for ks
    by (induction ks arbitrary: n) (auto intro!: inv_intros split: option.split)
  then show "node_inv cr n \<Longrightarrow> ?thesis" by (simp add: reregister_def)
qed

lemma node_inv_loc_timers [inv_intros]:
  "node_inv cr n \<Longrightarrow> node_inv cr (n\<lparr>g_loc := (g_loc n)\<lparr>ls_next_rereg_ms := t\<rparr>\<rparr>)"
  "node_inv cr n \<Longrightarrow> node_inv cr (n\<lparr>g_loc := (g_loc n)\<lparr>ls_burst_left := k, ls_burst_ms := t\<rparr>\<rparr>)"
  using node_invD(6) [of cr n] by (simp_all add: node_inv_part(7) loc_inv_def)

lemma node_inv_loc_due [inv_intros]: "node_inv cr n \<Longrightarrow> node_inv cr (loc_due now us n)"
  using node_invD(6) [of cr n] by (auto simp: loc_due_def Let_def loc_inv_def intro!: inv_intros)

lemma node_inv_batt_due [inv_intros]: "node_inv cr n \<Longrightarrow> node_inv cr (batt_due now rnd n)"
  by (simp add: batt_due_def Let_def inv_intros)

lemma node_inv_burst_due [inv_intros]: "node_inv cr n \<Longrightarrow> node_inv cr (burst_due now us rnd n)"
  by (simp add: burst_due_def Let_def inv_intros)

lemma node_inv_batt_read [inv_intros]: "node_inv cr n \<Longrightarrow> node_inv cr (batt_read_due now raw n)"
  by (simp add: batt_read_due_def batt_refresh_def)

lemma agn_loop_once_keeps:
  assumes "sig_len cr" "node_inv cr n"
  shows "\<exists>n'. agn_loop_once cr e n = Some n' \<and> node_inv cr n'"
proof -
  let ?now = "ev_now (le_rx e)"
  have "node_inv cr (batt_read_due ?now (le_batt_raw e) n)" using assms(2) by (rule inv_intros)
  then obtain n1 where n1: "poll_radio cr e (batt_read_due ?now (le_batt_raw e) n) = Some n1" "node_inv cr n1"
    using poll_radio_keeps by blast
  define n2 where "n2 = age_due ?now (arq_due ?now (beacon_due cr ?now (le_rnd_beacon e) (pump_radio e n1)))"
  have "node_inv cr n2" unfolding n2_def using assms(1) n1(2) by (intro inv_intros)
  then obtain n3 where n3: "sar_tx_tick ?now n2 = Some n3" "node_inv cr n3" using sar_tx_tick_keeps by blast
  show ?thesis unfolding agn_loop_once_def Let_def n1(1) bind.bind_lunit n2_def [symmetric] n3(1)
    using n3(2) by (auto intro!: inv_intros)
qed

section \<open>What is not ours\<close>

text \<open>The part of a frame's fate decided by its headers.\<close>

lemma on_rx_headers:
  assumes "frame_hdr buf = Some (Some (lh, net))" "net_ver_of (nh_ver_type net) = PROTO_VERSION" "nh_src net \<noteq> g_my_id n"
    and "net_type_of (nh_ver_type net) \<noteq> PKT_BEACON"
  shows "on_rx cr ev buf rssi snr n = rx_linked cr ev buf net lh n"
proof -
  have "\<not> length buf < HEADER_BYTES" "rd_net buf 4 = Some net" "rd_link buf 0 = Some lh"
    using assms(1) by (auto simp: frame_hdr_def split: if_splits bind_splits)
  then show ?thesis using assms(2-4) by (simp add: on_rx_def)
qed

text \<open>C17. A node acts only on frames of its own protocol version, from others, on its own links. A runt and its own echo
  change nothing; a frame of another version is counted and nothing else; a directed frame that is no beacon and whose two
  link aliases are not those of one of its neighbours changes nothing, neither acknowledged nor relayed; an ACK on one of
  its links touches the retransmission state only.\<close>

theorem rx_filter:
  assumes "buf = mk_frame lh net pay"
  shows "on_rx cr ev (take 40 buf) rssi snr n = Some n
    \<and> (net_ver_of (nh_ver_type net) \<noteq> PROTO_VERSION \<longrightarrow>
        on_rx cr ev buf rssi snr n = Some (n\<lparr>g_ver_stats := \<lparr>vs_drops = vs_drops (g_ver_stats n) + 1, vs_last_ver = net_ver_of (nh_ver_type net)\<rparr>\<rparr>))
    \<and> (net_ver_of (nh_ver_type net) = PROTO_VERSION \<and> nh_src net = g_my_id n \<longrightarrow> on_rx cr ev buf rssi snr n = Some n)
    \<and> (net_ver_of (nh_ver_type net) = PROTO_VERSION \<and> nh_src net \<noteq> g_my_id n \<and> net_type_of (nh_ver_type net) \<noteq> PKT_BEACON
       \<and> lh_next_hop lh \<noteq> LINK_ADDR_BROADCAST
       \<and> (\<forall>nb\<in>set (nt_slots (ro_neighbors (g_router n))).
            \<not> (n_used nb \<and> n_my_alias nb = lh_next_hop lh \<and> n_their_alias nb = lh_prev_hop lh)) \<longrightarrow>
        on_rx cr ev buf rssi snr n = Some n)
    \<and> (net_ver_of (nh_ver_type net) = PROTO_VERSION \<and> nh_src net \<noteq> g_my_id n \<and> net_type_of (nh_ver_type net) \<noteq> PKT_BEACON
       \<and> lh_flags lh AND LINK_FLAG_IS_ACK \<noteq> 0 \<longrightarrow>
        (\<exists>a. on_rx cr ev buf rssi snr n = Some (n\<lparr>g_arq := a\<rparr>)))"
proof -
  have h: "frame_hdr buf = Some (Some (lh, net))" unfolding assms by (rule frame_hdr_mk)
  then have rd: "\<not> length buf < HEADER_BYTES" "rd_net buf 4 = Some net" "rd_link buf 0 = Some lh"
    by (auto simp: frame_hdr_def split: if_splits bind_splits)
  have z: "is_zero (link_sender (g_router n) (lh_next_hop lh) (lh_prev_hop lh))"
    if "\<forall>nb\<in>set (nt_slots (ro_neighbors (g_router n))). \<not> (n_used nb \<and> n_my_alias nb = lh_next_hop lh \<and> n_their_alias nb = lh_prev_hop lh)"
    using that neighbor_by_link_SomeE by (fastforce simp: link_sender_def is_zero_iff)
  have e: "\<exists>a. n = n\<lparr>g_arq := a\<rparr>" by (rule exI [of _ "g_arq n"]) simp
  show ?thesis using rd z e on_rx_headers [OF h, of n cr ev rssi snr]
    by (auto simp: on_rx_def rx_linked_def Let_def on_foreign_def HEADER_BYTES_def)
qed


theorem rx_filter_witness:
  "\<exists>n. on_rx toy_crypto \<lparr>ev_now = 1, ev_rnd = 2, ev_cfg_ok = True\<rparr> demo_frame 0 0 (node_boot (nid_from_u32 1) (replicate 32 0) [] demo_cfg) = Some n
     \<and> n = node_boot (nid_from_u32 1) (replicate 32 0) [] demo_cfg"
proof -
  let ?n = "node_boot (nid_from_u32 1) (replicate 32 0) [] demo_cfg"
  let ?h = "\<lparr>nh_ver_type = net_ver_type PKT_DATA, nh_flags = 0, nh_ttl = 16, nh_dst = nid_from_u32 2, nh_src = nid_from_u32 3, nh_pkt_id = 7\<rparr>"
  have "net_ver_of (net_ver_type PKT_DATA) = PROTO_VERSION" "nid_from_u32 3 \<noteq> nid_from_u32 1"
    "net_type_of (net_ver_type PKT_DATA) \<noteq> PKT_BEACON" "(4 :: u8) \<noteq> LINK_ADDR_BROADCAST" by code_simp+
  moreover have "g_my_id ?n = nid_from_u32 1" by (simp add: node_boot_def)
  moreover have "\<forall>nb\<in>set (nt_slots (ro_neighbors (g_router ?n))). \<not> n_used nb" by (simp add: node_boot_def) code_simp
  ultimately show ?thesis
    using rx_filter [OF demo_frame_def, of toy_crypto "\<lparr>ev_now = 1, ev_rnd = 2, ev_cfg_ok = True\<rparr>" 0 0 ?n] by simp
qed

end
