(* ===== verification/Console.thy ===== *)
theory Console
  imports Node_Rx
begin

text \<open>
  The text console of \<^verbatim>\<open>src/src/main.cpp\<close>: \<^verbatim>\<open>handle_command\<close> with one definition per command, on the tokens
  \<^verbatim>\<open>strtok\<close> cuts from the line. Usage messages and the echo of settings are left out; the lines a controller or a client
  consumes are events of \<open>g_out\<close>. Clock, random numbers, the battery converter, whether the radio takes a configuration and
  whether the BLE stack starts to advertise are the record \<open>con_env\<close>.
\<close>

section \<open>Text\<close>

definition to_bytes :: "string \<Rightarrow> bytes" where
  "to_bytes s = map of_char s"

text \<open>The C string in a line buffer.\<close>

definition to_string :: "bytes \<Rightarrow> string" where
  "to_string bs = map (\<lambda>b. char_of (unat b)) (takeWhile (\<lambda>b. b \<noteq> 0) bs)"

text \<open>\<^verbatim>\<open>strtok(s, " ")\<close>: the token and what is left; \<^verbatim>\<open>strtok(nullptr, "")\<close>: all that is left.\<close>

definition strtok :: "string \<Rightarrow> (string \<times> string) option" where
  "strtok s = (let s = dropWhile (\<lambda>c. c = CHR '' '') s in
     if s = [] then None else Some (takeWhile (\<lambda>c. c \<noteq> CHR '' '') s, drop 1 (dropWhile (\<lambda>c. c \<noteq> CHR '' '') s)))"

definition next_tok :: "string \<Rightarrow> string option" where
  "next_tok s = map_option fst (strtok s)"

text \<open>The first two arguments.\<close>

definition two_toks :: "string \<Rightarrow> string option \<times> string option" where
  "two_toks s = (case strtok s of None \<Rightarrow> (None, None) | Some (a, r) \<Rightarrow> (Some a, next_tok r))"

definition hexnyb :: "char \<Rightarrow> int" where
  "hexnyb c = (let k = (of_char c :: int) in
     if of_char CHR ''0'' \<le> k \<and> k \<le> of_char CHR ''9'' then k - of_char CHR ''0''
     else if of_char CHR ''a'' \<le> k \<and> k \<le> of_char CHR ''f'' then k - of_char CHR ''a'' + 10
     else if of_char CHR ''A'' \<le> k \<and> k \<le> of_char CHR ''F'' then k - of_char CHR ''A'' + 10
     else - 1)"

fun hex_decode :: "string \<Rightarrow> nat \<Rightarrow> bytes" where
  "hex_decode (a # b # s) cap =
     (if cap = 0 then []
      else
        let hi = hexnyb a; lo = hexnyb b in
        if hi < 0 \<or> lo < 0 then [] else word_of_int (push_bit 4 hi OR lo) # hex_decode s (cap - 1))"
| "hex_decode _ cap = []"

definition parse_id :: "string \<Rightarrow> node_id" where
  "parse_id s = snd (nid_from_hex s)"

section \<open>Numbers\<close>

definition isspace :: "char \<Rightarrow> bool" where
  "isspace c \<longleftrightarrow> (let k = of_char c :: nat in k = 32 \<or> 9 \<le> k \<and> k \<le> 13)"

definition digit :: "nat \<Rightarrow> char \<Rightarrow> bool" where
  "digit base c \<longleftrightarrow> 0 \<le> nid_hexval c \<and> nid_hexval c < int base"

definition num_value :: "nat \<Rightarrow> string \<Rightarrow> int" where
  "num_value base s = foldl (\<lambda>v c. v * int base + nid_hexval c) 0 (takeWhile (digit base) s)"

definition num_sign :: "string \<Rightarrow> bool \<times> string" where
  "num_sign s = (case dropWhile isspace s of
     [] \<Rightarrow> (False, [])
   | c # t \<Rightarrow> if c = CHR ''-'' then (True, t) else if c = CHR ''+'' then (False, t) else (False, c # t))"

text \<open>Base 0 reads the base off the prefix; base 16 skips one.\<close>

definition num_base :: "nat \<Rightarrow> string \<Rightarrow> nat \<times> string" where
  "num_base base s = (case s of
     z # x # h # t \<Rightarrow>
       if base \<in> {0, 16} \<and> z = CHR ''0'' \<and> (x = CHR ''x'' \<or> x = CHR ''X'') \<and> digit 16 h then (16, h # t)
       else (if base = 0 then if z = CHR ''0'' then 8 else 10 else base, s)
   | _ \<Rightarrow> (if base = 0 then if s \<noteq> [] \<and> hd s = CHR ''0'' then 8 else 10 else base, s))"

text \<open>\<^verbatim>\<open>unsigned long\<close> and \<^verbatim>\<open>long\<close> have 32 bits on both targets; out of range is clamped.\<close>

definition strtoul :: "nat \<Rightarrow> string \<Rightarrow> u32" where
  "strtoul base s =
     (let (neg, t) = num_sign s; (b, t) = num_base base t; v = num_value b t
      in if 2 ^ 32 \<le> v then - 1 else if neg then - word_of_int v else word_of_int v)"

definition strtol :: "nat \<Rightarrow> string \<Rightarrow> int" where
  "strtol base s =
     (let (neg, t) = num_sign s; (b, t) = num_base base t; v = num_value b t
      in if neg then max (- (2 ^ 31)) (- v) else min (2 ^ 31 - 1) v)"

definition atoi :: "string \<Rightarrow> int" where
  "atoi s = strtol 10 s"

text \<open>Decimal fractions with an optional exponent, rounded to binary64.\<close>

definition fl64 :: "rat \<Rightarrow> rat" where
  "fl64 x = (if x = 0 then 0 else let u = 2 powi (max (fexp \<bar>x\<bar>) (- 1022) - 52) in of_int (rne (x / u)) * u)"

definition atof :: "string \<Rightarrow> rat" where
  "atof s =
     (let (neg, t) = num_sign s;
          r = dropWhile (digit 10) t;
          (frac, r) = (case r of c # r' \<Rightarrow> if c = CHR ''.'' then (takeWhile (digit 10) r', dropWhile (digit 10) r') else ([], r) | [] \<Rightarrow> ([], r));
          m = of_int (num_value 10 t) + of_int (num_value 10 frac) / 10 ^ length frac :: rat;
          e = (case r of c # r' \<Rightarrow>
                 if c = CHR ''e'' \<or> c = CHR ''E'' then
                   let (eneg, d) = (case r' of k # d' \<Rightarrow> if k = CHR ''-'' then (True, d') else if k = CHR ''+'' then (False, d') else (False, r') | [] \<Rightarrow> (False, r'))
                   in (if eneg then - num_value 10 d else num_value 10 d)
                 else 0 | [] \<Rightarrow> 0) :: int
      in fl64 ((if neg then - m else m) * 10 powi e))"

section \<open>The environment of a command\<close>

record con_env =
  ce_now :: u32
  ce_us :: u32
  ce_cfg_ok :: bool
  ce_batt_raw :: u16
  ce_batt_raw2 :: u16
  ce_vbat :: bool
  ce_rnd :: u32
  ce_pin :: bytes
  ce_adv_ok :: bool
  ce_notify :: bool

section \<open>Packets and links\<close>

definition cmd_send :: "con_env \<Rightarrow> string \<Rightarrow> node \<Rightarrow> node" where
  "cmd_send e args n = (case strtok args of
     None \<Rightarrow> n
   | Some (ids, msg) \<Rightarrow> send_data_bytes (ce_now e) (parse_id ids) (to_bytes (if msg \<noteq> [] then msg else ''ping'')) n)"

definition cmd_block :: "bool \<Rightarrow> string \<Rightarrow> node \<Rightarrow> node" where
  "cmd_block on args n = (case next_tok args of
     None \<Rightarrow> n
   | Some ids \<Rightarrow> n\<lparr>g_router := (if on then snd (block (g_router n) (parse_id ids)) else unblock (g_router n) (parse_id ids))\<rparr>)"

definition cmd_status :: "string \<Rightarrow> node \<Rightarrow> node" where
  "cmd_status args n =
     (let t = (case next_tok args of None \<Rightarrow> nid_zero | Some a \<Rightarrow> parse_id a) in
      if is_zero t then n
      else if t = g_my_id n then n
      else case telem_build_query t 17 of None \<Rightarrow> n | Some q \<Rightarrow> send_loc_flood q DEFAULT_TTL PKT_TELEM n)"

definition cmd_register :: "con_env \<Rightarrow> string \<Rightarrow> node \<Rightarrow> node" where
  "cmd_register e args n =
     (let i = (case next_tok args of None \<Rightarrow> [] | Some a \<Rightarrow> hex_decode a LOC_ID_MAX) in
      if i = [] then n
      else let n = loc_register (ce_now e) (ce_us e) i n
           in n\<lparr>g_loc := (g_loc n)\<lparr>ls_burst_left := 2, ls_burst_ms := ce_now e + 2000 + ce_rnd e\<rparr>\<rparr>)"

definition cmd_resolve :: "con_env \<Rightarrow> string \<Rightarrow> node \<Rightarrow> node" where
  "cmd_resolve e args n =
     (let i = (case next_tok args of None \<Rightarrow> [] | Some a \<Rightarrow> hex_decode a LOC_ID_MAX) in
      if i = [] then n else loc_resolve (ce_now e) i n)"

section \<open>Segmented transfers\<close>

definition cmd_sbegin :: "string \<Rightarrow> node \<Rightarrow> node" where
  "cmd_sbegin args n = (case two_toks args of
     (Some l, Some c) \<Rightarrow> set_xfer ((g_xfer n)\<lparr>xs_buf := [], xs_crc := strtoul 16 c\<rparr>) n
   | _ \<Rightarrow> n)"

definition cmd_sdata :: "string \<Rightarrow> node \<Rightarrow> node" where
  "cmd_sdata args n = (case next_tok args of
     None \<Rightarrow> n
   | Some h \<Rightarrow> let x = g_xfer n in set_xfer (x\<lparr>xs_buf := xs_buf x @ hex_decode h (SAR_MAX_FILE - length (xs_buf x))\<rparr>) n)"

definition cmd_xfer :: "string \<Rightarrow> node \<Rightarrow> node" where
  "cmd_xfer args n = (case next_tok args of
     None \<Rightarrow> n
   | Some ids \<Rightarrow> let x = g_xfer n in
       set_xfer (x\<lparr>xs_tx_dst := parse_id ids, xs_xfer_id := xs_xfer_id x + 1,
         xs_tx_count := sar_frag_count (of_nat (length (xs_buf x))), xs_tx_idx := 0, xs_tx_active := True\<rparr>) n)"

definition cmd_dump :: "node \<Rightarrow> node" where
  "cmd_dump n = (let r = xs_rx (g_xfer n) in
     if sar_complete r then emit (Blob_line (take (unat (sr_total_len r)) (sr_buf r))) n else n)"

section \<open>BLE\<close>

definition cmd_ble :: "con_env \<Rightarrow> string \<Rightarrow> node \<Rightarrow> node" where
  "cmd_ble e args n = (case next_tok args of
     None \<Rightarrow> n
   | Some a \<Rightarrow>
       if a = ''on'' then ble_cfg_save (ble_start_adv (ce_adv_ok e) n)
       else if a = ''off'' then ble_cfg_save (ble_stop_adv n)
       else if a = ''unbond'' \<or> a = ''clear'' then
         let n = n\<lparr>g_ble_inited := True\<rparr> in if g_ble_advertising n then ble_start_adv (ce_adv_ok e) n else n
       else n)"

definition cmd_blepin :: "con_env \<Rightarrow> string \<Rightarrow> node \<Rightarrow> node" where
  "cmd_blepin e args n =
     (let n = (case next_tok args of
                 None \<Rightarrow> n
               | Some a \<Rightarrow> if a = ''random'' then n\<lparr>g_ble_pin := ce_pin e\<rparr> else if length a = 6 then n\<lparr>g_ble_pin := to_bytes a\<rparr> else n);
          n = (if g_ble_advertising n then ble_start_adv (ce_adv_ok e) n else n)
      in ble_cfg_save n)"

text \<open>The test pattern of one frame: two letters, the sequence number, a ramp.\<close>

definition bletest_pattern :: "nat \<Rightarrow> nat \<Rightarrow> bytes" where
  "bletest_pattern sz q = [0x42, 0x54, of_nat (q div 256), of_nat q] @ map (\<lambda>i. of_nat (q + i)) [4..<sz]"

definition cmd_bletest :: "con_env \<Rightarrow> string \<Rightarrow> node \<Rightarrow> node" where
  "cmd_bletest e args n = (case two_toks args of
     (None, _) \<Rightarrow> n
   | (Some szS, cntS) \<Rightarrow>
       if \<not> g_ble_connected n \<or> \<not> ce_notify e then n
       else
         let sz = unat (word_of_int (atoi szS) :: u16);
             sz = (if sz < 4 then 4 else sz);
             sz = (if TUN_HOST_MAX < sz then TUN_HOST_MAX else sz);
             cnt = (case cntS of None \<Rightarrow> 10 | Some c \<Rightarrow> unat (word_of_int (atoi c) :: u16));
             cnt = (if cnt < 1 then 1 else cnt);
             cnt = (if 100 < cnt then 100 else cnt)
         in foldl (\<lambda>n q. tunnel_emit (g_my_id n) (bletest_pattern sz q) n) n [0..<cnt])"

section \<open>Settings\<close>

definition cmd_trace :: "string \<Rightarrow> node \<Rightarrow> node" where
  "cmd_trace args n =
     (if next_tok args = Some ''on'' then n\<lparr>g_trace := True\<rparr>
      else if next_tok args = Some ''off'' then n\<lparr>g_trace := False\<rparr> else n)"

definition cmd_mobile :: "string \<Rightarrow> node \<Rightarrow> node" where
  "cmd_mobile args n =
     (if next_tok args = Some ''on'' then node_cfg_save (n\<lparr>g_mobile := True\<rparr>)
      else if next_tok args = Some ''off'' then node_cfg_save (n\<lparr>g_mobile := False\<rparr>) else n)"

definition cmd_name :: "con_env \<Rightarrow> string \<Rightarrow> node \<Rightarrow> node" where
  "cmd_name e args n =
     (let rest = dropWhile (\<lambda>c. c = CHR '' '') args in
      if rest = ''clear'' then node_cfg_save (n\<lparr>g_name := []\<rparr>)
      else if rest \<noteq> [] then
        let n = node_cfg_save (n\<lparr>g_name := cstr AGN_NAME_MAX (to_bytes rest)\<rparr>)
        in if g_ble n \<and> g_ble_inited n \<and> g_ble_advertising n \<and> \<not> g_ble_connected n
           then ble_start_adv (ce_adv_ok e) (ble_stop_adv n) else n
      else n)"

definition cmd_net :: "string \<Rightarrow> node \<Rightarrow> node" where
  "cmd_net args n = (case two_toks args of
     (Some a, Some v) \<Rightarrow>
       if a = ''beacon'' then
         if v = ''auto'' then net_cfg_save (n\<lparr>g_beacon_cfg := 0\<rparr>)
         else let s = strtoul 10 v in
           if s < 5 \<or> 600 < s then n else net_cfg_save (n\<lparr>g_beacon_cfg := s * 1000\<rparr>)
       else n
   | _ \<Rightarrow> n)"

definition cmd_batt :: "con_env \<Rightarrow> string \<Rightarrow> node \<Rightarrow> node" where
  "cmd_batt e args n =
     (if \<not> ce_vbat e then n
      else
        let raw = ce_batt_raw e; (a, v) = two_toks args in
        if a = Some ''cal'' then
          let mv = (case v of None \<Rightarrow> 0 | Some s \<Rightarrow> strtoul 10 s) in
          if mv < 1000 \<or> 6000 < mv \<or> raw = 0 then n
          else batt_refresh (ce_batt_raw2 e) (batt_cfg_save (n\<lparr>g_batt_scale := fdiv (of_int (uint mv)) (of_int (uint raw))\<rparr>))
        else n)"

definition cmd_kiss :: "string \<Rightarrow> node \<Rightarrow> node" where
  "cmd_kiss args n = (case next_tok args of
     None \<Rightarrow> n
   | Some a \<Rightarrow>
       if a = ''off'' then kiss_cfg_save (n\<lparr>g_kiss_mode := False\<rparr>)
       else let d = parse_id a in if is_zero d then n else kiss_cfg_save (n\<lparr>g_kiss_dst := d, g_kiss_mode := True\<rparr>))"

definition cmd_cad :: "string \<Rightarrow> node \<Rightarrow> node" where
  "cmd_cad args n =
     (if next_tok args = Some ''on'' then n\<lparr>g_radio := set_cad True (g_radio n)\<rparr>
      else if next_tok args = Some ''off'' then n\<lparr>g_radio := set_cad False (g_radio n)\<rparr> else n)"

text \<open>One field of the staged radio configuration; an unknown field changes nothing.\<close>

definition rf_field :: "string \<Rightarrow> string \<Rightarrow> radio_cfg \<Rightarrow> radio_cfg" where
  "rf_field a v c =
     (if a = ''freq'' then c\<lparr>rc_freq_hz := strtoul 10 v\<rparr>
      else if a = ''bw'' then c\<lparr>rc_bw_hz := word_of_int (lroundf (fl (fl64 (atof v * 1000))))\<rparr>
      else if a = ''sf'' then c\<lparr>rc_sf := word_of_int (atoi v)\<rparr>
      else if a = ''cr'' then c\<lparr>rc_cr := word_of_int (atoi v)\<rparr>
      else if a = ''power'' \<or> a = ''pwr'' then c\<lparr>rc_power_dbm := word_of_int (atoi v)\<rparr>
      else if a = ''sync'' then c\<lparr>rc_sync := word_of_int (strtol 0 v)\<rparr>
      else if a = ''preamble'' \<or> a = ''pre'' then c\<lparr>rc_preamble := word_of_int (atoi v)\<rparr>
      else c)"

definition cmd_rf_apply :: "con_env \<Rightarrow> node \<Rightarrow> node" where
  "cmd_rf_apply e n =
     (let (applied, h) = apply_config (ce_cfg_ok e) (g_rf_work n) (g_radio n); n = n\<lparr>g_radio := h\<rparr>
      in if applied then rf_save (hs_cfg h) n else n\<lparr>g_rf_work := hs_cfg h\<rparr>)"

definition cmd_rf :: "con_env \<Rightarrow> string \<Rightarrow> node \<Rightarrow> node" where
  "cmd_rf e args n = (case two_toks args of
     (None, _) \<Rightarrow> n
   | (Some a, v) \<Rightarrow>
       if a = ''show'' then n
       else if a = ''apply'' then cmd_rf_apply e n
       else if a = ''revert'' then n\<lparr>g_rf_work := hs_cfg (g_radio n)\<rparr>
       else if a = ''default'' then n\<lparr>g_rf_work := radio_default_config\<rparr>
       else (case v of None \<Rightarrow> n | Some v \<Rightarrow> n\<lparr>g_rf_work := rf_field a v (g_rf_work n)\<rparr>))"

section \<open>The controller's key and commands\<close>

definition cmd_ctrlkey :: "string \<Rightarrow> node \<Rightarrow> node" where
  "cmd_ctrlkey args n = (case next_tok args of
     None \<Rightarrow> n
   | Some a \<Rightarrow>
       if a = ''clear'' then n\<lparr>g_ctrl := (g_ctrl n)\<lparr>cs_have_key := False, cs_counter := 0\<rparr>, g_flash := (g_flash n)\<lparr>fs_ctrl := None\<rparr>\<rparr>
       else
         let k = hex_decode a 32 in
         if length k \<noteq> 32 then n
         else
           let c = g_ctrl n; c = (if \<not> cs_have_key c \<or> k \<noteq> cs_pubkey c then c\<lparr>cs_counter := 0\<rparr> else c)
           in ctrl_cfg_save (n\<lparr>g_ctrl := c\<lparr>cs_pubkey := k, cs_have_key := True\<rparr>\<rparr>))"

definition cmd_ctrlsend :: "crypto \<Rightarrow> con_env \<Rightarrow> string \<Rightarrow> node \<Rightarrow> node option" where
  "cmd_ctrlsend cr e args n =
     (let blob = (case next_tok args of None \<Rightarrow> [] | Some a \<Rightarrow> hex_decode a CTRL_BLK_BYTES) in
      if length blob \<notin> {CTRL_MSG_BYTES, CTRL_RTN_BYTES, CTRL_BLK_BYTES} then Some n
      else do {
        tgt \<leftarrow> rd_nid blob 2;
        if tgt = g_my_id n then
          if \<not> cs_have_key (g_ctrl n) then Some n else ctrl_command cr (ce_now e) (ce_cfg_ok e) blob (g_my_id n) n
        else Some (send_loc_flood blob DEFAULT_TTL PKT_CONTROL n) })"

section \<open>Reports\<close>

definition cmd_anndump :: "node \<Rightarrow> node" where
  "cmd_anndump n = foldl (\<lambda>n (i, k). emit (Ann_line i k) n) n (for_each_verified (g_id_table n))"

definition cmd_battdump :: "con_env \<Rightarrow> node \<Rightarrow> node" where
  "cmd_battdump e n = foldl (\<lambda>n v. emit (Batt_line (tv_origin v) (tv_mv v) (tv_pct_plus1 v) (tv_age_ms v)) n) n
     (telem_snapshot (g_telem n) TELEM_CACHE_CAP (ce_now e))"

definition cmd_nbrdump :: "con_env \<Rightarrow> node \<Rightarrow> node" where
  "cmd_nbrdump e n = foldl (\<lambda>n c. emit (Nbrs_line c (ce_now e - ac_ms c)) n) n (filter ac_used (g_ann_cache n))"

section \<open>The dispatcher\<close>

definition handle_command :: "crypto \<Rightarrow> con_env \<Rightarrow> string \<Rightarrow> node \<Rightarrow> node option" where
  "handle_command cr e line n = (case strtok line of
     None \<Rightarrow> Some n
   | Some (cmd, args) \<Rightarrow>
       if cmd = ''send'' then Some (cmd_send e args n)
       else if cmd = ''block'' \<or> cmd = ''unblock'' then Some (cmd_block (cmd = ''block'') args n)
       else if cmd = ''sbegin'' then Some (cmd_sbegin args n)
       else if cmd = ''sdata'' then Some (cmd_sdata args n)
       else if cmd = ''xfer'' then Some (cmd_xfer args n)
       else if cmd = ''dump'' then Some (cmd_dump n)
       else if cmd = ''tunnel'' then Some (n\<lparr>g_tunnel_mode := True\<rparr>)
       else if g_ble n \<and> cmd = ''ble'' then Some (cmd_ble e args n)
       else if g_ble n \<and> cmd = ''blepin'' then Some (cmd_blepin e args n)
       else if g_ble n \<and> cmd = ''bletest'' then Some (cmd_bletest e args n)
       else if cmd = ''trace'' then Some (cmd_trace args n)
       else if cmd = ''mobile'' then Some (cmd_mobile args n)
       else if cmd = ''name'' then Some (cmd_name e args n)
       else if cmd = ''net'' then Some (cmd_net args n)
       else if cmd = ''bootloader'' \<or> cmd = ''dfu'' then Some (emit Enter_bootloader n)
       else if cmd = ''batt'' then Some (cmd_batt e args n)
       else if cmd = ''anndump'' then Some (cmd_anndump n)
       else if cmd = ''ctrlkey'' then Some (cmd_ctrlkey args n)
       else if cmd = ''ctrlsend'' then cmd_ctrlsend cr e args n
       else if cmd = ''kiss'' then Some (cmd_kiss args n)
       else if cmd = ''status'' then Some (cmd_status args n)
       else if cmd = ''battdump'' then Some (cmd_battdump e n)
       else if cmd = ''nbrdump'' then Some (cmd_nbrdump e n)
       else if cmd = ''cad'' then Some (cmd_cad args n)
       else if cmd = ''rf'' then Some (cmd_rf e args n)
       else if cmd = ''register'' then Some (cmd_register e args n)
       else if cmd = ''resolve'' then Some (cmd_resolve e args n)
       else if cmd = ''dirdump'' then Some (loc_dirdump (ce_now e) n)
       else Some n)"

section \<open>Commands keep the invariant\<close>

lemma length_hex_decode: "length (hex_decode s k) \<le> k"
proof (induction s k rule: hex_decode.induct)
  case (1 a b s cap)
  then show ?case by (cases cap) (simp_all add: Let_def)
qed simp_all

lemma foldl_emit_inv [simp]: "node_inv cr (foldl (\<lambda>n x. emit (f x) n) n xs) = node_inv cr n"
  by (induction xs arbitrary: n) simp_all

lemma loc_id_hex: "hex_decode a LOC_ID_MAX \<noteq> [] \<Longrightarrow> loc_id_ok (hex_decode a LOC_ID_MAX)"
  using length_hex_decode [of a LOC_ID_MAX] by (simp add: loc_id_ok_def LOC_ID_MAX_def Suc_le_eq)

lemma xfer_inv_con:
  "xfer_inv x \<Longrightarrow> length b \<le> SAR_MAX_FILE \<Longrightarrow> xfer_inv (x\<lparr>xs_buf := b\<rparr>)"
  "xfer_inv x \<Longrightarrow> length b \<le> SAR_MAX_FILE \<Longrightarrow> xfer_inv (x\<lparr>xs_buf := b, xs_crc := c\<rparr>)"
  "xfer_inv x \<Longrightarrow> xfer_inv (x\<lparr>xs_tx_dst := d, xs_xfer_id := i, xs_tx_count := k, xs_tx_idx := j, xs_tx_active := a\<rparr>)"
  by (simp_all add: xfer_inv_def tq_ok_def)

lemma node_inv_cmd_send [inv_intros]: "node_inv cr n \<Longrightarrow> node_inv cr (cmd_send e a n)"
  by (auto simp: cmd_send_def intro!: inv_intros split: option.split)

lemma node_inv_cmd_block [inv_intros]: "node_inv cr n \<Longrightarrow> node_inv cr (cmd_block on a n)"
  using node_invD(2,3) [of cr n]
  by (auto simp: cmd_block_def router_inv_block router_inv_unblock intro!: node_inv_part(5) split: option.split)

lemma node_inv_cmd_status [inv_intros]: "node_inv cr n \<Longrightarrow> node_inv cr (cmd_status a n)"
  by (auto simp: cmd_status_def telem_build_query_def Let_def intro!: inv_intros split: option.split)

lemma node_inv_cmd_loc [inv_intros]:
  "node_inv cr n \<Longrightarrow> node_inv cr (cmd_register e a n)" "node_inv cr n \<Longrightarrow> node_inv cr (cmd_resolve e a n)"
  by (auto simp: cmd_register_def cmd_resolve_def Let_def intro!: inv_intros split: option.split)

lemma node_inv_cmd_xfers [inv_intros]:
  assumes "node_inv cr n"
  shows "node_inv cr (cmd_sbegin a n)" "node_inv cr (cmd_sdata a n)" "node_inv cr (cmd_xfer a n)"
proof -
  let ?x = "g_xfer n"
  have x: "xfer_inv ?x" "length (xs_buf ?x) \<le> SAR_MAX_FILE" using node_invD(9) [OF assms] by (simp_all add: xfer_inv_def)
  have "length (xs_buf ?x @ hex_decode h (SAR_MAX_FILE - length (xs_buf ?x))) \<le> SAR_MAX_FILE" for h
    using length_hex_decode [of h "SAR_MAX_FILE - length (xs_buf ?x)"] x(2) by simp
  then show "node_inv cr (cmd_sbegin a n)" "node_inv cr (cmd_sdata a n)" "node_inv cr (cmd_xfer a n)"
    using assms x by (auto simp: cmd_sbegin_def cmd_sdata_def cmd_xfer_def Let_def intro!: node_inv_set_xfer xfer_inv_con split: option.split prod.split)
qed

lemma node_inv_cmd_dump [simp]: "node_inv cr (cmd_dump n) = node_inv cr n"
  by (simp add: cmd_dump_def Let_def)

lemma node_inv_cmd_ble [simp]:
  "node_inv cr (cmd_ble e a n) = node_inv cr n" "node_inv cr (cmd_blepin e a n) = node_inv cr n"
  by (simp_all add: cmd_ble_def cmd_blepin_def Let_def split: option.split)

lemma node_inv_cmd_bletest [simp]: "node_inv cr (cmd_bletest e a n) = node_inv cr n"
proof -
  have "node_inv cr (foldl (\<lambda>n q. tunnel_emit (g_my_id n) (f q) n) n qs) = node_inv cr n" for f :: "nat \<Rightarrow> bytes" and qs
    by (induction qs arbitrary: n) simp_all
  then show ?thesis by (simp add: cmd_bletest_def Let_def split: option.split prod.split)
qed

lemma node_inv_cmd_settings [simp]:
  "node_inv cr (cmd_trace a n) = node_inv cr n" "node_inv cr (cmd_mobile a n) = node_inv cr n" "node_inv cr (cmd_name e a n) = node_inv cr n"
  "node_inv cr (cmd_net a n) = node_inv cr n" "node_inv cr (cmd_batt e a n) = node_inv cr n" "node_inv cr (cmd_kiss a n) = node_inv cr n"
  by (simp_all add: cmd_trace_def cmd_mobile_def cmd_name_def cmd_net_def cmd_batt_def cmd_kiss_def Let_def split: option.split prod.split)

lemma tx_inv_set_cad: "tx_inv q a h \<Longrightarrow> tx_inv q a (set_cad on h)"
  by (simp add: tx_inv_def set_cad_def hal_wf_def inflight_def)

lemma node_inv_cmd_radio [inv_intros]:
  assumes "node_inv cr n"
  shows "node_inv cr (cmd_cad a n)" "node_inv cr (cmd_rf e a n)"
proof -
  show "node_inv cr (cmd_cad a n)" using assms by (simp add: cmd_cad_def node_inv_part(4) tx_inv_set_cad node_invD)
  have "node_inv cr (cmd_rf_apply e n)"
    using node_inv_part(4) [OF assms tx_inv_apply_config [OF node_invD(1) [OF assms]]] by (simp add: cmd_rf_apply_def Let_def case_prod_unfold)
  then show "node_inv cr (cmd_rf e a n)" using assms by (simp add: cmd_rf_def split: option.split prod.split)
qed

lemma node_inv_cmd_ctrlkey [inv_intros]: "node_inv cr n \<Longrightarrow> node_inv cr (cmd_ctrlkey a n)"
  using node_invD(10) [of cr n] by (simp add: cmd_ctrlkey_def Let_def node_inv_part(12) split: option.split)

lemma cmd_ctrlsend_keeps:
  assumes "node_inv cr n"
  shows "\<exists>n'. cmd_ctrlsend cr e a n = Some n' \<and> node_inv cr n'"
proof -
  define b where "b = (case next_tok a of None \<Rightarrow> [] | Some s \<Rightarrow> hex_decode s CTRL_BLK_BYTES)"
  have l: "length b \<le> 103" using length_hex_decode [of _ CTRL_BLK_BYTES] by (simp add: b_def CTRL_BLK_BYTES_def split: option.split)
  show ?thesis
  proof (cases "length b \<in> {CTRL_MSG_BYTES, CTRL_RTN_BYTES, CTRL_BLK_BYTES}")
    case True
    then have "2 + 16 \<le> length b" by (auto simp: CTRL_MSG_BYTES_def CTRL_RTN_BYTES_def CTRL_BLK_BYTES_def)
    then obtain t where "rd_nid b 2 = Some t" by (simp add: rd_safe)
    moreover obtain n' where "ctrl_command cr (ce_now e) (ce_cfg_ok e) b (g_my_id n) n = Some n'" "node_inv cr n'"
      using ctrl_command_keeps [OF assms] by blast
    ultimately show ?thesis using assms l True
      by (auto simp: cmd_ctrlsend_def b_def [symmetric] Let_def intro!: inv_intros)
  qed (use assms in \<open>auto simp: cmd_ctrlsend_def b_def [symmetric] Let_def\<close>)
qed

lemma node_inv_cmd_reports [simp]:
  "node_inv cr (cmd_anndump n) = node_inv cr n" "node_inv cr (cmd_battdump e n) = node_inv cr n" "node_inv cr (cmd_nbrdump e n) = node_inv cr n"
  "node_inv cr (loc_dirdump now n) = node_inv cr n"
  by (simp_all add: cmd_anndump_def cmd_battdump_def cmd_nbrdump_def loc_dirdump_def case_prod_unfold)

lemma handle_command_keeps:
  assumes "node_inv cr n"
  shows "\<exists>n'. handle_command cr e line n = Some n' \<and> node_inv cr n'"
proof (cases "strtok line")
  case (Some ca)
  then obtain cmd args where "strtok line = Some (cmd, args)" by (cases ca) simp
  then show ?thesis using assms cmd_ctrlsend_keeps [OF assms, of e args] by (simp add: handle_command_def inv_intros)
qed (use assms in \<open>simp add: handle_command_def\<close>)

end
