(* ===== verification/Console_Props.thy ===== *)
theory Console_Props
  imports Console
begin

text \<open>
  What the console promises: text that names bytes or ids is read back exactly, a blob loaded line by line is the blob that is
  sent, and the settings a command changes are the settings a reboot restores.
\<close>

section \<open>Hexadecimal text\<close>

definition hex_text :: "bytes \<Rightarrow> string" where
  "hex_text bs = concat (map (\<lambda>b. [hx (unat (drop_bit 4 b)), hx (unat (b AND 0xF))]) bs)"

lemma hexnyb_hexval: "hexnyb c = nid_hexval c"
  by (simp add: hexnyb_def nid_hexval_def Let_def)

lemma hex_pairs_short [simp]: "hex_pairs k [] = []" "hex_pairs k [c] = []"
  by (cases k, simp_all)+

text \<open>The console and the id parser read hexadecimal text alike.\<close>

lemma hex_decode_pairs: "hex_decode s k = hex_pairs k s"
proof (induction s k rule: hex_decode.induct)
  case (1 a b s cap)
  have "word_of_int (push_bit 4 (nid_hexval a) OR nid_hexval b) = (push_bit 4 (word_of_int (nid_hexval a)) OR word_of_int (nid_hexval b) :: u8)"
    by (rule bit_word_eqI) (auto simp: bit_simps)
  then show ?case using 1 by (cases cap) (simp_all add: hexnyb_hexval Let_def)
qed simp_all

lemma hex_decode_text: "length bs \<le> k \<Longrightarrow> hex_decode (hex_text bs) k = bs"
  using hex_pairs_hex [of bs k "[]"] by (cases "k - length bs") (simp_all add: hex_decode_pairs hex_text_def)

section \<open>Tokens\<close>

definition is_word :: "string \<Rightarrow> bool" where
  "is_word w \<longleftrightarrow> w \<noteq> [] \<and> CHR '' '' \<notin> set w"

lemma cut_at_space:
  assumes "CHR '' '' \<notin> set w"
  shows "takeWhile (\<lambda>c. c \<noteq> CHR '' '') w = w" "dropWhile (\<lambda>c. c \<noteq> CHR '' '') w = []"
    "takeWhile (\<lambda>c. c \<noteq> CHR '' '') (w @ CHR '' '' # r) = w" "dropWhile (\<lambda>c. c \<noteq> CHR '' '') (w @ CHR '' '' # r) = CHR '' '' # r"
  using assms by (induction w) auto

lemma strtok_word:
  assumes "is_word w"
  shows "strtok w = Some (w, [])" "strtok (w @ CHR '' '' # r) = Some (w, r)"
proof -
  have w: "w \<noteq> []" "CHR '' '' \<notin> set w" using assms by (simp_all add: is_word_def)
  have d: "dropWhile (\<lambda>c. c = CHR '' '') w = w" "dropWhile (\<lambda>c. c = CHR '' '') (w @ CHR '' '' # r) = w @ CHR '' '' # r"
    using w by (cases w; auto)+
  show "strtok w = Some (w, [])" unfolding strtok_def Let_def d cut_at_space [OF w(2)] using w(1) by simp
  show "strtok (w @ CHR '' '' # r) = Some (w, r)" unfolding strtok_def Let_def d cut_at_space [OF w(2)] using w(1) by simp
qed

lemma hx_not_space: "k < 16 \<Longrightarrow> hx k \<noteq> CHR '' ''"
  by (auto simp: hx_def numeral_eq_Suc less_Suc_eq)

lemma is_word_hex_text: "bs \<noteq> [] \<Longrightarrow> is_word (hex_text bs)"
  using hx_not_space [OF nibbles_lt(1), symmetric] hx_not_space [OF nibbles_lt(2), symmetric] by (cases bs) (auto simp: is_word_def hex_text_def)


section \<open>Uploads\<close>

fun console_run :: "crypto \<Rightarrow> con_env \<Rightarrow> string list \<Rightarrow> node \<Rightarrow> node option" where
  "console_run cr e [] n = Some n"
| "console_run cr e (l # ls) n = do { n \<leftarrow> handle_command cr e l n; console_run cr e ls n }"

lemma console_run_append: "console_run cr e (ls @ ms) n = do { n \<leftarrow> console_run cr e ls n; console_run cr e ms n }"
proof (induction ls arbitrary: n)
  case (Cons l ls)
  then show ?case by (cases "handle_command cr e l n") simp_all
qed simp

lemma cmd_sdata_text:
  assumes "bs \<noteq> []" "length (xs_buf (g_xfer n)) + length bs \<le> SAR_MAX_FILE"
  shows "handle_command cr e (''sdata '' @ hex_text bs) n = Some (set_xfer ((g_xfer n)\<lparr>xs_buf := xs_buf (g_xfer n) @ bs\<rparr>) n)"
proof -
  have "strtok (''sdata '' @ hex_text bs) = Some (''sdata'', hex_text bs)" using strtok_word(2) [of "''sdata''" "hex_text bs"] by (simp add: is_word_def)
  moreover have "next_tok (hex_text bs) = Some (hex_text bs)" using strtok_word(1) [OF is_word_hex_text [OF assms(1)]] by (simp add: next_tok_def)
  ultimately show ?thesis using assms(2) by (simp add: handle_command_def cmd_sdata_def hex_decode_text Let_def)
qed

lemma sdata_lines:
  "[] \<notin> set cs \<Longrightarrow> length (xs_buf (g_xfer n)) + length (concat cs) \<le> SAR_MAX_FILE \<Longrightarrow>
     console_run cr e (map (\<lambda>c. ''sdata '' @ hex_text c) cs) n = Some (set_xfer ((g_xfer n)\<lparr>xs_buf := xs_buf (g_xfer n) @ concat cs\<rparr>) n)"
proof (induction cs arbitrary: n)
  case (Cons c cs)
  let ?n = "set_xfer ((g_xfer n)\<lparr>xs_buf := xs_buf (g_xfer n) @ c\<rparr>) n"
  have "handle_command cr e (''sdata '' @ hex_text c) n = Some ?n" using Cons.prems by (intro cmd_sdata_text) auto
  moreover have "console_run cr e (map (\<lambda>c. ''sdata '' @ hex_text c) cs) ?n = Some (set_xfer ((g_xfer ?n)\<lparr>xs_buf := xs_buf (g_xfer ?n) @ concat cs\<rparr>) ?n)"
    using Cons.prems by (intro Cons.IH) (auto simp: set_xfer_def)
  ultimately show ?case by (simp add: set_xfer_def)
qed (simp add: set_xfer_def)

text \<open>The check sum as \<^verbatim>\<open>sbegin\<close> takes it: eight digits, the high ones first.\<close>

definition crc_text :: "u32 \<Rightarrow> string" where
  "crc_text c = hex_text (rev (put_u32 c))"

lemma num_value_hex: "num_value 16 (hex_text bs) = foldl (\<lambda>v b. v * 256 + uint b) 0 bs"
proof -
  have "digit 16 (hx k)" if "k < 16" for k using that by (simp add: digit_def nid_hexval_hx)
  then have all: "takeWhile (digit 16) (hex_text bs) = hex_text bs" by (auto simp: takeWhile_eq_all_conv hex_text_def nibbles_lt)
  have n: "int (unat (drop_bit 4 b)) * 16 + int (unat (b AND 0xF)) = uint b" for b :: u8
  proof -
    have t: "b AND 0xF = take_bit 4 b" by (simp add: take_bit_eq_mask mask_eq_exp_minus_1)
    have "unat (b AND 0xF) = unat b mod 16" unfolding t unsigned_take_bit_eq by (simp add: take_bit_eq_mod)
    moreover have "unat (drop_bit 4 b) = unat b div 16" by (simp only: unat_drop_bit_eq) (simp add: drop_bit_eq_div)
    ultimately have "unat (drop_bit 4 b) * 16 + unat (b AND 0xF) = unat b" by simp
    then have "int (unat (drop_bit 4 b) * 16 + unat (b AND 0xF)) = int (unat b)" by (rule arg_cong)
    then show ?thesis by simp
  qed
  have "foldl (\<lambda>v c. v * 16 + nid_hexval c) v (hex_text bs) = foldl (\<lambda>v b. v * 256 + uint b) v bs" for v
  proof (induction bs arbitrary: v)
    case (Cons b bs)
    have e: "(v * 16 + int (unat (drop_bit 4 b))) * 16 + int (unat (b AND 0xF)) = v * 256 + uint b" using n [of b] by simp
    have h: "hex_text (b # bs) = hx (unat (drop_bit 4 b)) # hx (unat (b AND 0xF)) # hex_text bs" by (simp add: hex_text_def)
    show ?case unfolding h foldl_Cons nid_hexval_hx [OF nibbles_lt(1)] nid_hexval_hx [OF nibbles_lt(2)] e by (rule Cons)
  qed (simp add: hex_text_def)
  then show ?thesis by (simp add: num_value_def all)
qed

lemma bytes_value:
  assumes "0 \<le> x" "x < 2 ^ 32"
  shows "((x div 16777216 mod 256 * 256 + x div 65536 mod 256) * 256 + x div 256 mod 256) * 256 + x mod 256 = (x :: int)"
proof -
  have "x div 65536 = x div 256 div 256" "x div 16777216 = x div 256 div 256 div 256" by (simp_all add: zdiv_zmult2_eq [symmetric])
  moreover have "x < 4294967296" using assms(2) by simp
  then have "x div 16777216 mod 256 = x div 16777216" using assms(1) by (intro mod_pos_pos_trivial) linarith+
  ultimately show ?thesis by (simp add: mod_div_mult_eq)
qed

lemma hx_plain:
  assumes "k < 16"
  shows "\<not> isspace (hx k)" "hx k \<noteq> CHR ''-''" "hx k \<noteq> CHR ''+''" "hx k \<noteq> CHR ''x''" "hx k \<noteq> CHR ''X''"
proof -
  have "\<forall>k\<in>set [0..<16]. \<not> isspace (hx k) \<and> hx k \<noteq> CHR ''-'' \<and> hx k \<noteq> CHR ''+'' \<and> hx k \<noteq> CHR ''x'' \<and> hx k \<noteq> CHR ''X''" by code_simp
  then show "\<not> isspace (hx k)" "hx k \<noteq> CHR ''-''" "hx k \<noteq> CHR ''+''" "hx k \<noteq> CHR ''x''" "hx k \<noteq> CHR ''X''" using assms by auto
qed

lemma strtoul_hex:
  assumes "2 \<le> length bs" "foldl (\<lambda>v b. v * 256 + uint b) 0 bs = v" "v < 2 ^ 32"
  shows "strtoul 16 (hex_text bs) = word_of_int v"
proof -
  obtain a b bs' where bs: "bs = a # b # bs'" using assms(1) by (cases bs; cases "tl bs"; simp)
  have s: "num_sign (hex_text bs) = (False, hex_text bs)"
    using hx_plain [OF nibbles_lt(1) [of a]] by (simp add: bs num_sign_def hex_text_def)
  have b: "num_base 16 (hex_text bs) = (16, hex_text bs)"
    using hx_plain [OF nibbles_lt(2) [of a]] by (simp add: bs num_base_def hex_text_def)
  show ?thesis using assms(2,3) by (simp add: strtoul_def s b num_value_hex)
qed

lemma strtoul_crc: "strtoul 16 (crc_text c) = c"
proof -
  have u: "uint (ucast (drop_bit k c) :: u8) = uint c div 2 ^ k mod 256" for k
    by (simp only: unsigned_ucast_eq unsigned_drop_bit_eq) (use uint_lt2p [of c] in \<open>simp add: take_bit_eq_mod drop_bit_eq_div\<close>)
  have e: "(2 :: int) ^ 8 = 256" "(2 :: int) ^ 16 = 65536" "(2 :: int) ^ 24 = 16777216" by simp_all
  have u0: "uint (ucast c :: u8) = uint c mod 256" using u [of 0] by simp
  have b: "((uint c div 16777216 mod 256 * 256 + uint c div 65536 mod 256) * 256 + uint c div 256 mod 256) * 256 + uint c mod 256 = uint c"
    using uint_lt2p [of c] by (intro bytes_value) simp_all
  have f: "foldl (\<lambda>v b. v * 256 + uint b) 0 (rev (put_u32 c)) = uint c"
    unfolding put_u32_def by (simp only: rev.simps append.simps foldl.simps u0 u e mult_zero_left add_0 b)
  have "strtoul 16 (crc_text c) = word_of_int (uint c)"
    unfolding crc_text_def using uint_lt2p [of c] by (intro strtoul_hex [OF _ f]) simp_all
  then show ?thesis by simp
qed


lemma is_word_nid_hex: "is_word (nid_hex i)"
  using is_word_hex_text [of "nid_bytes i"] by (simp add: nid_hex_def hex_text_def flip: length_greater_0_conv)

lemma parse_id_hex: "parse_id (nid_hex i) = i"
proof -
  have "hex_pairs 16 (nid_hex i) = nid_bytes i" using hex_decode_text [of "nid_bytes i" 16] by (simp add: hex_decode_pairs hex_text_def nid_hex_def)
  then show ?thesis by (simp add: parse_id_def nid_from_hex_def Let_def nid_read_bytes)
qed

text \<open>C20. A blob loaded at the console is the blob that is sent. After \<^verbatim>\<open>sbegin\<close> with the check sum as eight hex digits, one
  \<^verbatim>\<open>sdata\<close> line for each piece of the blob, at most 8192 bytes in all, and \<^verbatim>\<open>xfer\<close> with the destination's printed id, the
  transfer slot holds exactly the blob, its check sum, that destination and the number of its fragments, and sending starts
  with the first, under a new transfer id.\<close>

theorem console_upload:
  assumes "is_word l" "[] \<notin> set cs" "length (concat cs) \<le> SAR_MAX_FILE"
  shows "\<exists>n'. console_run cr e ([''sbegin '' @ l @ '' '' @ crc_text (sar_crc32 (concat cs))] @ map (\<lambda>c. ''sdata '' @ hex_text c) cs
      @ [''xfer '' @ nid_hex dst]) n = Some n'
    \<and> xs_buf (g_xfer n') = concat cs \<and> xs_crc (g_xfer n') = sar_crc32 (concat cs) \<and> xs_tx_dst (g_xfer n') = dst \<and> xs_tx_active (g_xfer n')
    \<and> xs_tx_idx (g_xfer n') = 0 \<and> unat (xs_tx_count (g_xfer n')) = (length (concat cs) + 159) div 160
    \<and> xs_xfer_id (g_xfer n') = xs_xfer_id (g_xfer n) + 1"
proof -
  let ?b = "concat cs" and ?c = "crc_text (sar_crc32 (concat cs))"
  have w: "is_word ?c" unfolding crc_text_def by (rule is_word_hex_text) (simp add: put_u32_def)
  define n1 where "n1 = set_xfer ((g_xfer n)\<lparr>xs_buf := [], xs_crc := sar_crc32 ?b\<rparr>) n"
  have "strtok (''sbegin '' @ l @ '' '' @ ?c) = Some (''sbegin'', l @ '' '' @ ?c)"
    using strtok_word(2) [of "''sbegin''" "l @ '' '' @ ?c"] by (simp add: is_word_def)
  moreover have "two_toks (l @ '' '' @ ?c) = (Some l, Some ?c)"
    using strtok_word(2) [OF assms(1), of ?c] strtok_word(1) [OF w] by (simp add: two_toks_def next_tok_def)
  ultimately have 1: "handle_command cr e (''sbegin '' @ l @ '' '' @ ?c) n = Some n1"
    by (simp add: handle_command_def cmd_sbegin_def strtoul_crc n1_def)
  define n2 where "n2 = set_xfer ((g_xfer n1)\<lparr>xs_buf := ?b\<rparr>) n1"
  have 2: "console_run cr e (map (\<lambda>c. ''sdata '' @ hex_text c) cs) n1 = Some n2"
    using sdata_lines [OF assms(2), of n1 cr e] assms(3) by (simp add: n1_def n2_def set_xfer_def)
  have "strtok (''xfer '' @ nid_hex dst) = Some (''xfer'', nid_hex dst)"
    using strtok_word(2) [of "''xfer''" "nid_hex dst"] by (simp add: is_word_def)
  moreover have "next_tok (nid_hex dst) = Some (nid_hex dst)" using strtok_word(1) [OF is_word_nid_hex] by (simp add: next_tok_def)
  ultimately have 3: "handle_command cr e (''xfer '' @ nid_hex dst) n2 = Some (cmd_xfer (nid_hex dst) n2)"
    "cmd_xfer (nid_hex dst) n2 = set_xfer ((g_xfer n2)\<lparr>xs_tx_dst := dst, xs_xfer_id := xs_xfer_id (g_xfer n2) + 1,
       xs_tx_count := sar_frag_count (of_nat (length (xs_buf (g_xfer n2)))), xs_tx_idx := 0, xs_tx_active := True\<rparr>) n2"
    by (simp_all add: handle_command_def cmd_xfer_def parse_id_hex Let_def)
  have "unat (of_nat (length ?b) :: u32) = length ?b" using assms(3) by (simp add: SAR_MAX_FILE_def unat_of_nat take_bit_nat_eq_self)
  then have "unat (sar_frag_count (of_nat (length ?b))) = (length ?b + 159) div 160"
    using unat_sar_frag_count [of "of_nat (length ?b)"] assms(3) by (simp add: SAR_MAX_FILE_def frag_total_def)
  moreover have "console_run cr e ([''sbegin '' @ l @ '' '' @ ?c] @ map (\<lambda>c. ''sdata '' @ hex_text c) cs @ [''xfer '' @ nid_hex dst]) n
      = Some (cmd_xfer (nid_hex dst) n2)"
    unfolding console_run_append console_run.simps 1 bind.bind_lunit 2 3(1) ..
  ultimately show ?thesis
    by (intro exI [of _ "cmd_xfer (nid_hex dst) n2"]) (simp add: 3(2), simp add: n2_def n1_def set_xfer_def)
qed

definition demo_env :: con_env where
  "demo_env = \<lparr>ce_now = 0, ce_us = 0, ce_cfg_ok = True, ce_batt_raw = 0, ce_batt_raw2 = 0, ce_vbat = False, ce_rnd = 0, ce_pin = [],
     ce_adv_ok = True, ce_notify = False\<rparr>"

theorem console_upload_witness:
  "\<exists>n'. console_run toy_crypto demo_env [''sbegin 3 '' @ crc_text (sar_crc32 [1, 2, 3]), ''sdata '' @ hex_text [1, 2], ''sdata '' @ hex_text [3],
      ''xfer '' @ nid_hex (nid_from_u32 2)] (node_boot (nid_from_u32 1) (replicate 32 0) [] demo_cfg) = Some n' \<and> xs_buf (g_xfer n') = [1, 2, 3]"
proof -
  have "is_word ''3''" "[] \<notin> set [[1, 2], [3 :: u8]]" "length (concat [[1, 2], [3 :: u8]]) \<le> SAR_MAX_FILE" by (simp_all add: is_word_def SAR_MAX_FILE_def)
  from console_upload [OF this, of toy_crypto demo_env "nid_from_u32 2" "node_boot (nid_from_u32 1) (replicate 32 0) [] demo_cfg"] show ?thesis by auto
qed

section \<open>Settings survive\<close>

text \<open>What a reboot restores, in memory and in flash.\<close>

definition cfg_view :: "node \<Rightarrow> (bytes \<times> bool \<times> u32 \<times> float32) \<times> (bool \<times> bytes) option \<times> u32 option \<times> float32 option" where
  "cfg_view n = ((g_name n, g_mobile n, g_beacon_cfg n, g_batt_scale n), fs_node (g_flash n), fs_net (g_flash n), fs_batt (g_flash n))"

definition key_view :: "node \<Rightarrow> bool \<times> bytes \<times> u32 \<times> (bytes \<times> u32) option" where
  "key_view n = (cs_have_key (g_ctrl n), cs_pubkey (g_ctrl n), cs_counter (g_ctrl n), fs_ctrl (g_flash n))"

definition key_saved :: "node \<Rightarrow> bool" where
  "key_saved n \<longleftrightarrow> fs_ctrl (g_flash n) = (if cs_have_key (g_ctrl n) then Some (cs_pubkey (g_ctrl n), cs_counter (g_ctrl n)) else None)"

definition cfg_saved :: "node \<Rightarrow> bool" where
  "cfg_saved n \<longleftrightarrow> g_name n = (case fs_node (g_flash n) of None \<Rightarrow> [] | Some k \<Rightarrow> cstr AGN_NAME_MAX (snd k))
     \<and> g_mobile n = (case fs_node (g_flash n) of None \<Rightarrow> False | Some k \<Rightarrow> fst k)
     \<and> g_beacon_cfg n = (case fs_net (g_flash n) of None \<Rightarrow> 0 | Some ms \<Rightarrow> ms)
     \<and> g_batt_scale n = (case fs_batt (g_flash n) of None \<Rightarrow> 0 | Some s \<Rightarrow> s)"

lemma saved_parts: "saved n \<longleftrightarrow> cfg_saved n \<and> key_saved n"
  unfolding saved_def settings_def cfg_saved_def key_saved_def Let_def prod.inject by (simp only: conj_assoc eq_commute [of _ "fs_ctrl (g_flash n)"])

lemma cfg_saved_view: "cfg_view n' = cfg_view n \<Longrightarrow> cfg_saved n' = cfg_saved n"
  by (simp add: cfg_view_def cfg_saved_def)

lemma key_saved_view: "key_view n' = key_view n \<Longrightarrow> key_saved n' = key_saved n"
  by (simp add: key_view_def key_saved_def)

lemma key_view_ctl: "ctl_view n' = ctl_view n \<Longrightarrow> key_view n' = key_view n"
  using ctl_viewD [of n' n] by (simp add: key_view_def)

lemma cfg_view_plain [simp]:
  "cfg_view (n\<lparr>g_out := a1\<rparr>) = cfg_view n" "cfg_view (n\<lparr>g_txq := a2\<rparr>) = cfg_view n" "cfg_view (n\<lparr>g_arq := a3\<rparr>) = cfg_view n"
  "cfg_view (n\<lparr>g_forwarder := a4\<rparr>) = cfg_view n" "cfg_view (n\<lparr>g_data_seq := a5\<rparr>) = cfg_view n" "cfg_view (n\<lparr>g_loc := a6\<rparr>) = cfg_view n"
  "cfg_view (n\<lparr>g_router := a7\<rparr>) = cfg_view n" "cfg_view (n\<lparr>g_xfer := a8\<rparr>) = cfg_view n" "cfg_view (n\<lparr>g_radio := a9\<rparr>) = cfg_view n"
  "cfg_view (n\<lparr>g_ctrl := b1\<rparr>) = cfg_view n" "cfg_view (n\<lparr>g_rf_work := b2\<rparr>) = cfg_view n" "cfg_view (n\<lparr>g_ble_pin := b3\<rparr>) = cfg_view n"
  "cfg_view (n\<lparr>g_ble_inited := b4\<rparr>) = cfg_view n" "cfg_view (n\<lparr>g_ble_advertising := b5\<rparr>) = cfg_view n" "cfg_view (n\<lparr>g_trace := b6\<rparr>) = cfg_view n"
  "cfg_view (n\<lparr>g_kiss_mode := b7\<rparr>) = cfg_view n" "cfg_view (n\<lparr>g_kiss_dst := b8\<rparr>) = cfg_view n" "cfg_view (n\<lparr>g_tunnel_mode := b9\<rparr>) = cfg_view n"
  "cfg_view (n\<lparr>g_reboot_at := c1\<rparr>) = cfg_view n" "cfg_view (n\<lparr>g_batt_mv := c2\<rparr>) = cfg_view n"
  by (simp_all add: cfg_view_def)

lemma cfg_view_saves [simp]:
  "cfg_view (rf_save c n) = cfg_view n" "cfg_view (ctrl_cfg_save n) = cfg_view n" "cfg_view (ble_cfg_save n) = cfg_view n" "cfg_view (kiss_cfg_save n) = cfg_view n"
  "cfg_view (ble_start_adv ok n) = cfg_view n" "cfg_view (ble_stop_adv n) = cfg_view n"
  by (simp_all add: cfg_view_def cfg_saves ble_start_adv_def ble_stop_adv_def)

lemma cfg_view_senders [simp]:
  "cfg_view (emit ev n) = cfg_view n" "cfg_view (txq_put f n) = cfg_view n" "cfg_view (tx_unicast now f nh n) = cfg_view n"
  "cfg_view (send_data_bytes now i p n) = cfg_view n" "cfg_view (send_loc_flood m t pt n) = cfg_view n" "cfg_view (send_loc_unicast now i m pt n) = cfg_view n"
proof -
  have put: "cfg_view (txq_put f n) = cfg_view n" for f n by (simp add: txq_put_def)
  have uni: "cfg_view (tx_unicast now f nh n) = cfg_view n" for now f nh n by (simp add: tx_unicast_def Let_def case_prod_unfold put)
  have mk: "cfg_view (loc_flood_mark i k n) = cfg_view n" "cfg_view (bump_pktid n) = cfg_view n" for i k n
    by (simp_all add: loc_flood_mark_def bump_pktid_def)
  note all = put uni mk
  show "cfg_view (emit ev n) = cfg_view n" "cfg_view (txq_put f n) = cfg_view n" "cfg_view (tx_unicast now f nh n) = cfg_view n"
    by (simp_all add: emit_def all)
  show "cfg_view (send_data_bytes now i p n) = cfg_view n" by (simp add: send_data_bytes_def Let_def all)
  show "cfg_view (send_loc_flood m t pt n) = cfg_view n" by (simp add: send_loc_flood_def Let_def all)
  show "cfg_view (send_loc_unicast now i m pt n) = cfg_view n" by (simp add: send_loc_unicast_def Let_def all)
qed

lemma cfg_view_foldl: "(\<And>n x. cfg_view (f n x) = cfg_view n) \<Longrightarrow> cfg_view (foldl f n xs) = cfg_view n"
  by (induction xs arbitrary: n) simp_all

lemma key_view_foldl: "(\<And>n x. key_view (f n x) = key_view n) \<Longrightarrow> key_view (foldl f n xs) = key_view n"
  by (induction xs arbitrary: n) simp_all

lemma cfg_view_ctrl [simp]: "cfg_view (ctrl_apply_verified now ok m r n) = cfg_view n"
proof -
  have ack: "cfg_view (ctrl_send_ack now m r a p n) = cfg_view n" for a p n by (simp add: ctrl_send_ack_def split: option.split)
  have pow: "cfg_view (ctrl_apply_power ok d p n) = cfg_view n" for d p n by (simp add: ctrl_apply_power_def Let_def case_prod_unfold)
  show ?thesis
    by (simp add: ctrl_apply_verified_def ctrl_power_def ctrl_confirm_def ctrl_block_def ctrl_unblock_def ctrl_ble_def ctrl_retune_def
        Let_def case_prod_unfold ack pow)
qed

lemma cfg_view_tunnel_emit [simp]: "cfg_view (tunnel_emit i p n) = cfg_view n" "key_view (tunnel_emit i p n) = key_view n"
  by (simp_all add: tunnel_emit_def hdlc_write_def host_write_def Let_def key_view_def emit_def split: option.split)


lemma key_view_plain [simp]:
  "key_view (n\<lparr>g_loc := a1\<rparr>) = key_view n" "key_view (n\<lparr>g_router := a2\<rparr>) = key_view n" "key_view (n\<lparr>g_xfer := a3\<rparr>) = key_view n"
  "key_view (n\<lparr>g_radio := a4\<rparr>) = key_view n" "key_view (n\<lparr>g_rf_work := a5\<rparr>) = key_view n" "key_view (n\<lparr>g_ble_pin := a6\<rparr>) = key_view n"
  "key_view (n\<lparr>g_ble_inited := a7\<rparr>) = key_view n" "key_view (n\<lparr>g_ble_advertising := a8\<rparr>) = key_view n" "key_view (n\<lparr>g_trace := a9\<rparr>) = key_view n"
  "key_view (n\<lparr>g_kiss_mode := b1\<rparr>) = key_view n" "key_view (n\<lparr>g_kiss_dst := b2\<rparr>) = key_view n" "key_view (n\<lparr>g_tunnel_mode := b3\<rparr>) = key_view n"
  "key_view (n\<lparr>g_name := b4\<rparr>) = key_view n" "key_view (n\<lparr>g_mobile := b5\<rparr>) = key_view n" "key_view (n\<lparr>g_beacon_cfg := b6\<rparr>) = key_view n"
  "key_view (n\<lparr>g_batt_scale := b7\<rparr>) = key_view n" "key_view (n\<lparr>g_batt_mv := b8\<rparr>) = key_view n" "key_view (n\<lparr>g_out := b9\<rparr>) = key_view n"
  by (simp_all add: key_view_def)

lemma key_view_saves [simp]:
  "key_view (rf_save c n) = key_view n" "key_view (ble_cfg_save n) = key_view n" "key_view (kiss_cfg_save n) = key_view n"
  "key_view (node_cfg_save n) = key_view n" "key_view (net_cfg_save n) = key_view n" "key_view (batt_cfg_save n) = key_view n"
  "key_view (ble_start_adv ok n) = key_view n" "key_view (ble_stop_adv n) = key_view n"
  by (simp_all add: key_view_def cfg_saves ble_start_adv_def ble_stop_adv_def)

lemma key_view_senders [simp]:
  "key_view (emit ev n) = key_view n" "key_view (send_data_bytes now i p n) = key_view n" "key_view (send_loc_flood m t pt n) = key_view n"
  by (rule key_view_ctl, simp)+

lemma views_loc [simp]:
  "cfg_view (loc_register now us i n) = cfg_view n" "key_view (loc_register now us i n) = key_view n"
  "cfg_view (loc_resolve now i n) = cfg_view n" "key_view (loc_resolve now i n) = key_view n"
  by (simp_all add: loc_register_def loc_resolve_def set_dir_def set_res_def Let_def case_prod_unfold split: option.split)

text \<open>Commands that touch no setting.\<close>

lemma quiet_commands:
  "cfg_view (cmd_send e a n) = cfg_view n \<and> key_view (cmd_send e a n) = key_view n"
  "cfg_view (cmd_block on a n) = cfg_view n \<and> key_view (cmd_block on a n) = key_view n"
  "cfg_view (cmd_status a n) = cfg_view n \<and> key_view (cmd_status a n) = key_view n"
  "cfg_view (cmd_register e a n) = cfg_view n \<and> key_view (cmd_register e a n) = key_view n"
  "cfg_view (cmd_resolve e a n) = cfg_view n \<and> key_view (cmd_resolve e a n) = key_view n"
  "cfg_view (cmd_sbegin a n) = cfg_view n \<and> key_view (cmd_sbegin a n) = key_view n"
  "cfg_view (cmd_sdata a n) = cfg_view n \<and> key_view (cmd_sdata a n) = key_view n"
  "cfg_view (cmd_xfer a n) = cfg_view n \<and> key_view (cmd_xfer a n) = key_view n"
  "cfg_view (cmd_dump n) = cfg_view n \<and> key_view (cmd_dump n) = key_view n"
  by (auto simp: cmd_send_def cmd_block_def cmd_status_def cmd_register_def cmd_resolve_def cmd_sbegin_def cmd_sdata_def cmd_xfer_def cmd_dump_def
      set_xfer_def Let_def split: option.split prod.split)

lemma quiet_settings:
  "cfg_view (cmd_ble e a n) = cfg_view n \<and> key_view (cmd_ble e a n) = key_view n"
  "cfg_view (cmd_blepin e a n) = cfg_view n \<and> key_view (cmd_blepin e a n) = key_view n"
  "cfg_view (cmd_trace a n) = cfg_view n \<and> key_view (cmd_trace a n) = key_view n"
  "cfg_view (cmd_kiss a n) = cfg_view n \<and> key_view (cmd_kiss a n) = key_view n"
  "cfg_view (cmd_cad a n) = cfg_view n \<and> key_view (cmd_cad a n) = key_view n"
  "cfg_view (cmd_rf e a n) = cfg_view n \<and> key_view (cmd_rf e a n) = key_view n"
  "cfg_view (cmd_bletest e a n) = cfg_view n \<and> key_view (cmd_bletest e a n) = key_view n"
  "cfg_view (cmd_anndump n) = cfg_view n \<and> key_view (cmd_anndump n) = key_view n"
  "cfg_view (cmd_battdump e n) = cfg_view n \<and> key_view (cmd_battdump e n) = key_view n"
  "cfg_view (cmd_nbrdump e n) = cfg_view n \<and> key_view (cmd_nbrdump e n) = key_view n"
  "cfg_view (loc_dirdump now n) = cfg_view n \<and> key_view (loc_dirdump now n) = key_view n"
  by (auto simp: cmd_ble_def cmd_blepin_def cmd_trace_def cmd_kiss_def cmd_cad_def cmd_rf_def cmd_rf_apply_def cmd_bletest_def
      cmd_anndump_def cmd_battdump_def cmd_nbrdump_def loc_dirdump_def Let_def case_prod_unfold intro!: cfg_view_foldl key_view_foldl split: option.split)

lemma cstr_cstr [simp]: "cstr k (cstr k s) = cstr k s"
  by (simp add: cstr_id)

lemma cstr_Nil [simp]: "cstr k [] = []"
  by (simp add: cstr_def)

lemma cfg_saved_name: "cfg_saved n \<Longrightarrow> cstr AGN_NAME_MAX (g_name n) = g_name n"
  by (cases "fs_node (g_flash n)") (simp_all add: cfg_saved_def)

lemma setting_commands:
  assumes "saved n"
  shows "saved (cmd_mobile a n)" "saved (cmd_name e a n)" "saved (cmd_net a n)" "saved (cmd_batt e a n)" "saved (cmd_ctrlkey a n)"
proof -
  have c: "cfg_saved n" "key_saved n" using assms by (simp_all add: saved_parts)
  note nm = cfg_saved_name [OF c(1)]
  have "key_view (cmd_mobile a n) = key_view n" "key_view (cmd_name e a n) = key_view n" "key_view (cmd_net a n) = key_view n" "key_view (cmd_batt e a n) = key_view n"
    by (simp_all add: cmd_mobile_def cmd_name_def cmd_net_def cmd_batt_def batt_refresh_def Let_def case_prod_unfold split: option.split)
  from this [THEN key_saved_view] have k: "key_saved (cmd_mobile a n)" "key_saved (cmd_name e a n)" "key_saved (cmd_net a n)" "key_saved (cmd_batt e a n)"
    using c(2) by simp_all
  show "saved (cmd_mobile a n)" using c k nm by (simp add: saved_parts cmd_mobile_def cfg_saved_def node_cfg_save_def)
  have adv: "cfg_saved (ble_start_adv ok m) = cfg_saved m" "cfg_saved (ble_stop_adv m) = cfg_saved m" for ok m
    by (rule cfg_saved_view, simp)+
  show "saved (cmd_name e a n)" using c k nm by (simp add: saved_parts cmd_name_def Let_def adv) (simp add: cfg_saved_def node_cfg_save_def)
  show "saved (cmd_net a n)" using c k by (auto simp: saved_parts cmd_net_def cfg_saved_def net_cfg_save_def Let_def split: option.split prod.split)
  show "saved (cmd_batt e a n)" using c k
    by (auto simp: saved_parts cmd_batt_def cfg_saved_def batt_cfg_save_def batt_refresh_def Let_def split: prod.split)
  have "cfg_saved (cmd_ctrlkey a n)"
    by (rule cfg_saved_view [THEN iffD2, OF _ c(1)]) (auto simp: cmd_ctrlkey_def cfg_view_def ctrl_cfg_save_def Let_def split: option.split)
  moreover have "key_saved (cmd_ctrlkey a n)" using c(2)
    by (auto simp: cmd_ctrlkey_def key_saved_def ctrl_cfg_save_def Let_def split: option.split)
  ultimately show "saved (cmd_ctrlkey a n)" by (simp add: saved_parts)
qed

lemma ctrl_apply_saved: "key_saved n \<Longrightarrow> cs_have_key (g_ctrl n) \<Longrightarrow> key_saved (ctrl_apply_verified now ok m r n)"
  using ctrl_ident_apply_verified [of now ok m r n] by (simp add: key_saved_def ctrl_ident_def)

lemma ctrlsend_saved:
  assumes "saved n" "cmd_ctrlsend cr e a n = Some n'"
  shows "saved n'"
proof -
  have c: "cfg_saved n" "key_saved n" using assms(1) by (simp_all add: saved_parts)
  have f: "saved (send_loc_flood b t pt n)" for b t pt
    using c cfg_saved_view [of "send_loc_flood b t pt n" n] key_saved_view [of "send_loc_flood b t pt n" n] by (simp add: saved_parts)
  have e: "saved (emit ev n)" for ev using c cfg_saved_view [of "emit ev n" n] key_saved_view [of "emit ev n" n] by (simp add: saved_parts)
  have v: "saved (ctrl_apply_verified now ok m r n)" if "cs_have_key (g_ctrl n)" for now ok m r
    using c cfg_saved_view [of "ctrl_apply_verified now ok m r n" n] ctrl_apply_saved [OF c(2) that] by (simp add: saved_parts)
  show ?thesis using assms f e v by (auto simp: cmd_ctrlsend_def ctrl_command_def Let_def bind_eq_Some_conv split: if_splits)
qed

lemma handle_command_saved:
  assumes "saved n" "handle_command cr e line n = Some n'"
  shows "saved n'"
proof (cases "strtok line")
  case (Some ca)
  then obtain cmd args where t: "strtok line = Some (cmd, args)" by (cases ca) simp
  have q: "saved m" if "cfg_view m = cfg_view n \<and> key_view m = key_view n" for m
    using assms(1) that cfg_saved_view [of m n] key_saved_view [of m n] by (simp add: saved_parts)
  have "saved (n\<lparr>g_tunnel_mode := True\<rparr>)" "saved (emit Enter_bootloader n)" by (rule q, simp)+
  then show ?thesis
    using assms(2) t setting_commands [OF assms(1)] ctrlsend_saved [OF assms(1), of cr e args n'] quiet_commands [THEN q] quiet_settings [THEN q] assms(1)
    by (auto simp: handle_command_def split: if_splits)
qed (use assms in \<open>simp add: handle_command_def\<close>)

lemma console_run_saved: "saved n \<Longrightarrow> console_run cr e ls n = Some n' \<Longrightarrow> saved n'"
proof (induction ls arbitrary: n)
  case (Cons l ls)
  then show ?case using handle_command_saved [of n cr e l] by (auto simp: bind_eq_Some_conv)
qed simp

lemma flash_boot:
  "fs_node (g_flash (boot_settings e n)) = fs_node (g_flash n)" "fs_net (g_flash (boot_settings e n)) = fs_net (g_flash n)"
  "fs_batt (g_flash (boot_settings e n)) = fs_batt (g_flash n)" "fs_ctrl (g_flash (boot_settings e n)) = fs_ctrl (g_flash n)"
proof -
  have b: "fs_node (g_flash (boot_ble e m)) = fs_node (g_flash m)" "fs_net (g_flash (boot_ble e m)) = fs_net (g_flash m)"
    "fs_batt (g_flash (boot_ble e m)) = fs_batt (g_flash m)" "fs_ctrl (g_flash (boot_ble e m)) = fs_ctrl (g_flash m)" for m
    by (simp_all add: boot_ble_def ble_cfg_load_def ble_cfg_save_def ble_start_adv_def Let_def split: option.split)
  have c: "g_flash (ctrl_cfg_load m) = g_flash m" for m by (simp add: ctrl_cfg_load_def split: option.split)
  show "fs_node (g_flash (boot_settings e n)) = fs_node (g_flash n)" "fs_net (g_flash (boot_settings e n)) = fs_net (g_flash n)"
    "fs_batt (g_flash (boot_settings e n)) = fs_batt (g_flash n)" "fs_ctrl (g_flash (boot_settings e n)) = fs_ctrl (g_flash n)"
    by (simp_all add: boot_settings_def Let_def b c) (simp_all add: cfg_load_updates batt_refresh_def)
qed

lemma saved_setup: "saved (node_setup b2 kp agn ble fw e seed fs)"
proof -
  obtain hk sk pk me fs' where k: "node_key_init agn b2 kp seed fs = (hk, sk, pk, me, fs')" by (cases "node_key_init agn b2 kp seed fs") auto
  have "(case x of None \<Rightarrow> None | Some k \<Rightarrow> Some k) = x" for x :: "(bytes \<times> u32) option" by (cases x) simp_all
  then show ?thesis unfolding saved_def node_setup_def k Let_def prod.case settings_boot flash_boot by (simp add: node_boot_def cong: option.case_cong)
qed

text \<open>C19. Settings survive a reboot. From the state any boot leaves, run any console lines. Then the node's name, its mobility
  flag, its beacon period, its battery calibration and the controller's key with the replay floor are, after a reboot
  whatever it meets, what they were before it.\<close>

theorem settings_survive:
  assumes "console_run cr ce ls (node_setup b2 kp agn ble fw e seed fs) = Some n"
  shows "settings (reboot e' n) = settings n"
  using console_run_saved [OF saved_setup assms] by (simp add: reboot_settings)

theorem settings_survive_witness:
  "\<exists>n. console_run toy_crypto demo_env [''name hill'', ''mobile on''] (node_setup (\<lambda>k. k) (\<lambda>s. (s, s)) 0 True [] demo_boot (replicate 32 7) flash_empty) = Some n
     \<and> settings (reboot demo_boot n) = settings n \<and> g_name n = [104, 105, 108, 108]"
proof -
  let ?n = "node_setup (\<lambda>k. k) (\<lambda>s. (s, s)) 0 True [] demo_boot (replicate 32 7) flash_empty"
  have t: "strtok ''name hill'' = Some (''name'', ''hill'')" "strtok ''mobile on'' = Some (''mobile'', ''on'')" "next_tok ''on'' = Some ''on''" by code_simp+
  have w: "cstr AGN_NAME_MAX (to_bytes ''hill'') = [104, 105, 108, 108]" by code_simp
  obtain n1 where n1: "handle_command toy_crypto demo_env ''name hill'' ?n = Some n1" "g_name n1 = [104, 105, 108, 108]"
    by (simp add: handle_command_def t cmd_name_def Let_def w node_cfg_save_def ble_start_adv_def ble_stop_adv_def)
  obtain n2 where n2: "handle_command toy_crypto demo_env ''mobile on'' n1 = Some n2" "g_name n2 = g_name n1"
    by (simp add: handle_command_def t cmd_mobile_def node_cfg_save_def)
  have r: "console_run toy_crypto demo_env [''name hill'', ''mobile on''] ?n = Some n2" by (simp add: n1(1) n2(1))
  from settings_survive [OF this, of demo_boot] r n1(2) n2(2) show ?thesis by auto
qed

end
