(* ===== verification/Node_Run.thy ===== *)
theory Node_Run
  imports Console_Props Host_Tunnel
begin

text \<open>
  Runs of a whole node (\<^verbatim>\<open>src/src/main.cpp\<close>): the bytes of the host on USB and BLE (\<^verbatim>\<open>poll_console\<close>, \<^verbatim>\<open>ble_poll\<close>), a frame
  from the radio, one turn of \<^verbatim>\<open>loop()\<close> and a reboot are the events of a step relation that starts at
  \<^verbatim>\<open>setup()\<close>. Shown: the state invariant holds in every run, and the tunnel frames in the host's stream are the
  payloads the node sends, whatever text stands between them.
\<close>

section \<open>Host input\<close>

text \<open>A byte of a text line in a buffer of \<open>cap\<close> bytes: the new state and the line that is complete.\<close>

definition line_input :: "nat \<Rightarrow> u8 \<Rightarrow> con_state \<Rightarrow> con_state \<times> bytes option" where
  "line_input cap c s =
     (if c = 0x0D then (s, None)
      else if c = 0x0A then (if co_line s \<noteq> [] then (s\<lparr>co_line := []\<rparr>, Some (co_line s)) else (s, None))
      else if length (co_line s) < cap - 1 then (s\<lparr>co_line := co_line s @ [c]\<rparr>, None)
      else (s, None))"

definition USB_LINE_MAX :: nat where "USB_LINE_MAX = 720"
definition BLE_LINE_MAX :: nat where "BLE_LINE_MAX = 160"

text \<open>\<^verbatim>\<open>poll_console\<close> and \<^verbatim>\<open>ble_poll\<close> for one byte.\<close>

definition usb_byte :: "crypto \<Rightarrow> con_env \<Rightarrow> u8 \<Rightarrow> node \<Rightarrow> node option" where
  "usb_byte cr e c n =
     (if g_kiss_mode n then kiss_input (ce_now e) c n
      else if g_tunnel_mode n \<and> (c = HDLC_FLAG \<or> co_in_frame (g_con n)) then tunnel_input (ce_now e) c n
      else
        let (s, l) = line_input USB_LINE_MAX c (g_con n); n = n\<lparr>g_con := s\<rparr> in
        case l of None \<Rightarrow> Some n | Some line \<Rightarrow> handle_command cr e (to_string line) n)"

definition ble_byte :: "crypto \<Rightarrow> con_env \<Rightarrow> u8 \<Rightarrow> node \<Rightarrow> node option" where
  "ble_byte cr e c n =
     (if \<not> g_ble_inited n then Some n
      else if c = HDLC_FLAG \<or> co_in_frame (g_ble_con n) then
        let (s, f) = hdlc_feed c (g_ble_con n); n = n\<lparr>g_ble_con := s\<rparr> in
        case f of None \<Rightarrow> Some n | Some fr \<Rightarrow> tunnel_rx_frame (ce_now e) fr n
      else
        let (s, l) = line_input BLE_LINE_MAX c (g_ble_con n); n = n\<lparr>g_ble_con := s\<rparr> in
        case l of None \<Rightarrow> Some n | Some line \<Rightarrow> handle_command cr e (to_string line) n)"

section \<open>Runs\<close>

text \<open>The end of \<^verbatim>\<open>setup()\<close>: the first deadlines.\<close>

definition setup_timers :: "u32 \<Rightarrow> u32 \<Rightarrow> node \<Rightarrow> node" where
  "setup_timers now rnd n =
     n\<lparr>g_next_beacon_ms := schedule_next_beacon now rnd n, g_next_tick_ms := now + TICK_PERIOD_MS, g_next_arq_ms := now + ARQ_TICK_MS\<rparr>"

datatype node_event =
    Ev_loop loop_env
  | Ev_usb con_env u8
  | Ev_ble con_env u8
  | Ev_ble_link bool
  | Ev_ble_dump u32
  | Ev_reboot boot_env u32 u32

text \<open>One event: a turn of the loop, a byte from a host, a BLE client that comes or goes, the directory told to a new client, a
  reboot.\<close>

fun node_step :: "crypto \<Rightarrow> node_event \<Rightarrow> node \<Rightarrow> node option" where
  "node_step cr (Ev_loop e) n = agn_loop_once cr e n"
| "node_step cr (Ev_usb e c) n = usb_byte cr e c n"
| "node_step cr (Ev_ble e c) n = ble_byte cr e c n"
| "node_step cr (Ev_ble_link up) n = Some (n\<lparr>g_ble_connected := up\<rparr>)"
| "node_step cr (Ev_ble_dump now) n = Some (loc_dump_to_client now n)"
| "node_step cr (Ev_reboot e now rnd) n = Some (setup_timers now rnd (reboot e n))"

fun node_run :: "crypto \<Rightarrow> node_event list \<Rightarrow> node \<Rightarrow> node option" where
  "node_run cr [] n = Some n"
| "node_run cr (ev # evs) n = do { n \<leftarrow> node_step cr ev n; node_run cr evs n }"

lemma usb_byte_keeps: "node_inv cr n \<Longrightarrow> \<exists>n'. usb_byte cr e c n = Some n' \<and> node_inv cr n'"
  using handle_command_keeps [of cr] kiss_input_keeps [of cr n] tunnel_input_keeps [of cr n]
  by (auto simp: usb_byte_def Let_def case_prod_unfold split: option.split)

lemma ble_byte_keeps: "node_inv cr n \<Longrightarrow> \<exists>n'. ble_byte cr e c n = Some n' \<and> node_inv cr n'"
  using handle_command_keeps [of cr] tunnel_rx_frame_keeps [of cr]
  by (auto simp: ble_byte_def Let_def case_prod_unfold split: option.split)

lemma node_inv_loc_dump [inv_intros]: "node_inv cr n \<Longrightarrow> node_inv cr (loc_dump_to_client now n)"
proof -
  have "node_inv cr (foldl (\<lambda>n v. if P n v then n else emit (f v) n) n vs) = node_inv cr n" for P and f :: "loc_view \<Rightarrow> host_event" and vs
    by (induction vs arbitrary: n) simp_all
  then show "node_inv cr n \<Longrightarrow> ?thesis" by (simp add: loc_dump_to_client_def)
qed

lemma node_step_keeps:
  assumes "sig_len cr" "node_inv cr n"
  shows "\<exists>n'. node_step cr ev n = Some n' \<and> node_inv cr n'"
proof (cases ev)
  case (Ev_reboot e now rnd)
  then show ?thesis using reboot_inv [OF node_invD(11) [OF assms(2)]] by (simp add: setup_timers_def)
qed (use assms in \<open>simp_all add: agn_loop_once_keeps usb_byte_keeps ble_byte_keeps inv_intros\<close>)

lemma node_run_keeps: "sig_len cr \<Longrightarrow> node_inv cr n \<Longrightarrow> \<exists>n'. node_run cr evs n = Some n' \<and> node_inv cr n'"
proof (induction evs arbitrary: n)
  case (Cons ev evs)
  then obtain n1 where "node_step cr ev n = Some n1" "node_inv cr n1" using node_step_keeps by blast
  with Cons show ?case by simp
qed simp

lemma setup_inv:
  assumes "length (snd (kp seed)) = 32" "\<And>k. fs_key fs = Some k \<Longrightarrow> length (snd k) = 32"
  shows "node_inv cr (node_setup b2 kp agn ble fw e seed fs)"
proof -
  obtain hk sk pk me fs' where k: "node_key_init agn b2 kp seed fs = (hk, sk, pk, me, fs')" by (cases "node_key_init agn b2 kp seed fs") auto
  then have "length pk = 32" using assms by (auto simp: node_key_init_def case_prod_unfold Let_def split: if_splits option.splits)
  then show ?thesis by (auto simp: node_setup_def k boot_inv intro!: inv_intros)
qed

text \<open>C1. Whatever arrives, a node keeps working inside its bounds. From the state \<^verbatim>\<open>setup()\<close> leaves, any sequence of loop
  turns (with any received frames, clocks and random numbers), of bytes from the USB host and the BLE client, console
  commands among them, of clients that come and go and of reboots ends in a state: no handler ever reads outside a buffer. In
  that state every frame waiting in the transmit queue, kept for retransmission or handed to the radio has both headers and
  at most the 255 bytes the radio sends, every verified identity in the node table is the hash of the key stored for it, and
  no packet is routed over a blocked link.\<close>

theorem node_run_safe:
  assumes "sig_len cr" "length (snd (kp seed)) = 32" "\<And>k. fs_key fs = Some k \<Longrightarrow> length (snd k) = 32"
  shows "\<exists>n. node_run cr evs (setup_timers now rnd (node_setup (blake cr) kp agn ble fw e seed fs)) = Some n
    \<and> (\<forall>f. f \<in> set (txq_contents (g_txq n)) \<or> f \<in> set (inflight (g_radio n)) \<or> (\<exists>p\<in>set (aq_slots (g_arq n)). pd_used p \<and> pd_frame p = f)
          \<longrightarrow> 41 \<le> length f \<and> length f \<le> 255)
    \<and> (\<forall>i k. (i, k) \<in> set (for_each_verified (g_id_table n)) \<longrightarrow> i = nid_from_pubkey (blake cr) k)
    \<and> (\<forall>d. d \<noteq> g_my_id n \<longrightarrow> \<not> is_blocked (g_router n) (next_hop (g_router n) d))"
proof -
  let ?s = "setup_timers now rnd (node_setup (blake cr) kp agn ble fw e seed fs)"
  have "node_inv cr ?s" using setup_inv [of kp seed fs cr "blake cr" agn ble fw e] assms(2,3) by (simp add: setup_timers_def)
  from node_run_keeps [OF assms(1) this] obtain n where n: "node_run cr evs ?s = Some n" "node_inv cr n" by blast
  note inv = node_invD [OF n(2)]
  have "\<forall>f. f \<in> set (txq_contents (g_txq n)) \<or> f \<in> set (inflight (g_radio n)) \<or> (\<exists>p\<in>set (aq_slots (g_arq n)). pd_used p \<and> pd_frame p = f)
      \<longrightarrow> 41 \<le> length f \<and> length f \<le> 255"
    using inv(1) by (auto simp: tx_inv_def frame_ok_def frame_sizes)
  moreover have "\<forall>i k. (i, k) \<in> set (for_each_verified (g_id_table n)) \<longrightarrow> i = nid_from_pubkey (blake cr) k"
    using inv(7) nd_bound_verified by (auto simp: id_inv_def)
  moreover have "\<forall>d. d \<noteq> g_my_id n \<longrightarrow> \<not> is_blocked (g_router n) (next_hop (g_router n) d)"
    using next_hop_inv [OF inv(2)] inv(3) by simp
  ultimately show ?thesis using n(1) by blast
qed

theorem node_run_safe_witness:
  "\<exists>n. node_run toy_crypto [Ev_usb demo_env 0x7E, Ev_ble_link True, Ev_reboot demo_boot 8 9]
      (setup_timers 1 2 (node_setup (blake toy_crypto) (\<lambda>s. (s, s)) 0 True [] demo_boot (replicate 32 7) flash_empty)) = Some n
    \<and> [] \<notin> set (txq_contents (g_txq n))"
proof -
  let ?evs = "[Ev_usb demo_env 0x7E, Ev_ble_link True, Ev_reboot demo_boot 8 9]"
  have "sig_len toy_crypto" by (simp add: sig_len_def toy_crypto_def toy_sign_ok)
  from node_run_safe [OF this, of "\<lambda>s. (s, s)" "replicate 32 7" flash_empty ?evs 1 2 0 True "[]" demo_boot] obtain n
    where "node_run toy_crypto ?evs (setup_timers 1 2 (node_setup (blake toy_crypto) (\<lambda>s. (s, s)) 0 True [] demo_boot (replicate 32 7) flash_empty)) = Some n"
      "\<forall>f. f \<in> set (txq_contents (g_txq n)) \<longrightarrow> 41 \<le> length f" by (auto simp: flash_empty_def)
  then show ?thesis by (intro exI [of _ n]) auto
qed

section \<open>The host's stream\<close>

lemma feed_all_Nil: "feed_all f [] = Some"
  by (simp add: fun_eq_iff)

lemma foldl_tunnel_con:
  "foldl (\<lambda>n (junk, dst, p). tunnel_send now dst (take TUN_HOST_MAX p) n) (n\<lparr>g_con := c\<rparr>) xs
    = (foldl (\<lambda>n (junk, dst, p). tunnel_send now dst (take TUN_HOST_MAX p) n) n xs)\<lparr>g_con := c\<rparr>"
  by (induction xs arbitrary: n) (auto simp: tunnel_send_con)

lemma tunnel_send_modes [simp]:
  "g_kiss_mode (tunnel_send now dst p n) = g_kiss_mode n" "g_tunnel_mode (tunnel_send now dst p n) = g_tunnel_mode n"
proof -
  have put: "g_kiss_mode (txq_put f n) = g_kiss_mode n" "g_tunnel_mode (txq_put f n) = g_tunnel_mode n" for f n by (simp_all add: txq_put_def)
  have uni: "g_kiss_mode (tx_unicast now f nh n) = g_kiss_mode n" "g_tunnel_mode (tx_unicast now f nh n) = g_tunnel_mode n" for f nh n
    by (simp_all add: tx_unicast_def Let_def case_prod_unfold put)
  have snd: "g_kiss_mode (send_data_bytes now i q n) = g_kiss_mode n" "g_tunnel_mode (send_data_bytes now i q n) = g_tunnel_mode n" for i q n
    by (simp_all add: send_data_bytes_def Let_def uni)
  have em: "g_kiss_mode (tunnel_emit i q n) = g_kiss_mode n" "g_tunnel_mode (tunnel_emit i q n) = g_tunnel_mode n" for i q n
    by (simp_all add: tunnel_emit_def hdlc_write_def host_write_def emit_def Let_def split: option.split)
  show "g_kiss_mode (tunnel_send now dst p n) = g_kiss_mode n" "g_tunnel_mode (tunnel_send now dst p n) = g_tunnel_mode n"
    by (simp_all add: tunnel_send_def Let_def snd em sar_start_def set_xfer_def)
qed

lemma usb_text:
  assumes "\<not> g_kiss_mode n" "\<not> co_in_frame (g_con n)" "HDLC_FLAG \<notin> set cs" "0x0A \<notin> set cs"
  shows "\<exists>s. feed_all (usb_byte cr e) cs n = Some (n\<lparr>g_con := s\<rparr>) \<and> \<not> co_in_frame s"
  using assms
proof (induction cs arbitrary: n)
  case Nil
  then show ?case by (intro exI [of _ "g_con n"]) simp
next
  case (Cons c cs)
  define s where "s = fst (line_input USB_LINE_MAX c (g_con n))"
  have s: "line_input USB_LINE_MAX c (g_con n) = (s, None)" "\<not> co_in_frame s"
    using Cons.prems by (simp_all add: line_input_def s_def)
  then have "usb_byte cr e c n = Some (n\<lparr>g_con := s\<rparr>)" using Cons.prems by (auto simp: usb_byte_def)
  then show ?case using Cons.IH [of "n\<lparr>g_con := s\<rparr>"] Cons.prems s(2) by simp
qed

lemma usb_in_frame:
  assumes "\<not> g_kiss_mode n" "g_tunnel_mode n" "co_in_frame (g_con n)" "HDLC_FLAG \<notin> set cs"
  shows "\<exists>s. feed_all (usb_byte cr e) cs n = Some (n\<lparr>g_con := s\<rparr>) \<and> feed_all (tunnel_input (ce_now e)) cs n = Some (n\<lparr>g_con := s\<rparr>) \<and> co_in_frame s"
  using assms
proof (induction cs arbitrary: n)
  case Nil
  then show ?case by (intro exI [of _ "g_con n"]) simp
next
  case (Cons c cs)
  define s where "s = fst (hdlc_feed c (g_con n))"
  have s: "hdlc_feed c (g_con n) = (s, None)" "co_in_frame s" using Cons.prems by (auto simp: hdlc_feed_def s_def)
  then have "tunnel_input (ce_now e) c n = Some (n\<lparr>g_con := s\<rparr>)" by (simp add: tunnel_input_def)
  moreover from this have "usb_byte cr e c n = Some (n\<lparr>g_con := s\<rparr>)" using Cons.prems by (simp add: usb_byte_def)
  ultimately show ?case using Cons.IH [of "n\<lparr>g_con := s\<rparr>"] Cons.prems s(2) by simp
qed

lemma usb_frame:
  assumes "\<not> g_kiss_mode n" "g_tunnel_mode n" "\<not> co_in_frame (g_con n)"
  shows "feed_all (usb_byte cr e) (hdlc_frame d) n = feed_all (tunnel_input (ce_now e)) (hdlc_frame d) n"
proof -
  have f: "usb_byte cr e HDLC_FLAG m = tunnel_input (ce_now e) HDLC_FLAG m" if "\<not> g_kiss_mode m" "g_tunnel_mode m" for m
    using that by (simp add: usb_byte_def)
  obtain s where s: "tunnel_input (ce_now e) HDLC_FLAG n = Some (n\<lparr>g_con := s\<rparr>)" "co_in_frame s"
    using assms(3) by (simp add: tunnel_input_def hdlc_feed_def)
  obtain t where t: "feed_all (usb_byte cr e) (hdlc_stuff d) (n\<lparr>g_con := s\<rparr>) = Some (n\<lparr>g_con := t\<rparr>)"
    "feed_all (tunnel_input (ce_now e)) (hdlc_stuff d) (n\<lparr>g_con := s\<rparr>) = Some (n\<lparr>g_con := t\<rparr>)"
    using usb_in_frame [of "n\<lparr>g_con := s\<rparr>" "hdlc_stuff d" cr e] assms(1,2) s(2) hdlc_stuff_no_flag by auto
  show ?thesis using assms(1,2) by (simp add: hdlc_frame_def feed_all_append f s(1) t feed_all_Nil)
qed

text \<open>C14. What the host sends arrives. In tunnel mode a host writes any number of HDLC frames, each an envelope with a destination
  and a payload, with any other bytes between them but the flag and the line feed. The node sends exactly those payloads to
  those destinations, in that order, whatever bytes they hold. A payload longer than 768 bytes is not refused: its first 768
  bytes are sent.\<close>

theorem host_stream_sent:
  assumes "\<not> g_kiss_mode n" "g_tunnel_mode n" "\<not> co_in_frame (g_con n)" "\<forall>(junk, dst, p)\<in>set xs. HDLC_FLAG \<notin> set junk \<and> 0x0A \<notin> set junk"
  shows "\<exists>c. feed_all (usb_byte cr e) (concat (map (\<lambda>(junk, dst, p). junk @ hdlc_frame (envelope dst p)) xs)) n
      = Some ((foldl (\<lambda>n (junk, dst, p). tunnel_send (ce_now e) dst (take TUN_HOST_MAX p) n) n xs)\<lparr>g_con := c\<rparr>) \<and> \<not> co_in_frame c"
  using assms
proof (induction xs arbitrary: n)
  case Nil
  then show ?case by (intro exI [of _ "g_con n"]) simp
next
  case (Cons x xs)
  obtain junk dst p where x: "x = (junk, dst, p)" by (cases x)
  let ?n = "tunnel_send (ce_now e) dst (take TUN_HOST_MAX p) n"
  obtain s where s: "feed_all (usb_byte cr e) junk n = Some (n\<lparr>g_con := s\<rparr>)" "\<not> co_in_frame s"
    using usb_text [of n junk cr e] Cons.prems by (auto simp: x)
  obtain c where c: "feed_all (usb_byte cr e) (hdlc_frame (envelope dst p)) (n\<lparr>g_con := s\<rparr>) = Some (?n\<lparr>g_con := c\<rparr>)" "\<not> co_in_frame c"
    using usb_frame [of "n\<lparr>g_con := s\<rparr>" cr e "envelope dst p"] tunnel_input_frame [of "n\<lparr>g_con := s\<rparr>" "ce_now e" dst p] Cons.prems(1,2) s(2)
    by (auto simp: tunnel_send_con)
  from Cons.IH [of "?n\<lparr>g_con := c\<rparr>"] Cons.prems c(2) show ?case
    by (auto simp: x feed_all_append s(1) c(1) foldl_tunnel_con)
qed

theorem host_stream_sent_witness:
  "\<exists>c. feed_all (usb_byte toy_crypto demo_env) ([0x0D, 0x41] @ hdlc_frame (envelope (nid_from_u32 2) [0x7E, 0x7D]) @ hdlc_frame (envelope (nid_from_u32 3) []))
      ((node_boot (nid_from_u32 1) (replicate 32 0) [] demo_cfg)\<lparr>g_tunnel_mode := True\<rparr>)
    = Some ((tunnel_send 0 (nid_from_u32 3) [] (tunnel_send 0 (nid_from_u32 2) [0x7E, 0x7D]
        ((node_boot (nid_from_u32 1) (replicate 32 0) [] demo_cfg)\<lparr>g_tunnel_mode := True\<rparr>)))\<lparr>g_con := c\<rparr>) \<and> \<not> co_in_frame c"
proof -
  let ?n = "(node_boot (nid_from_u32 1) (replicate 32 0) [] demo_cfg)\<lparr>g_tunnel_mode := True\<rparr>"
  have "\<not> g_kiss_mode ?n" "g_tunnel_mode ?n" "\<not> co_in_frame (g_con ?n)" by (simp_all add: node_boot_def ConState_init_def)
  from host_stream_sent [OF this, of "[([0x0D, 0x41], nid_from_u32 2, [0x7E, 0x7D]), ([], nid_from_u32 3, [])]" toy_crypto demo_env]
  show ?thesis by (simp add: HDLC_FLAG_def TUN_HOST_MAX_def demo_env_def)
qed

end
