(* ===== verification/Ble_Session.thy ===== *)
theory Ble_Session
  imports Node_Run
begin

text \<open>
  The BLE service of \<^verbatim>\<open>src/src/main.cpp\<close>: the callbacks of the stack, \<^verbatim>\<open>ble_poll\<close> with its event drain and the requests for a fast
  connection, and sessions of them. The stack's state (subscription, connection interval, bytes received) is the record
  \<open>ble_turn\<close>; lines that only log an event are left out.
\<close>

section \<open>The link to a client\<close>

record ble_link =
  bk_dump_pending :: bool
  bk_ci_next_ms :: u32
  bk_ci_logged :: u16

definition BleLink_init :: ble_link where
  "BleLink_init = \<lparr>bk_dump_pending = False, bk_ci_next_ms = 0, bk_ci_logged = 0\<rparr>"

definition ble_connect_cb :: "ble_link \<times> node \<Rightarrow> ble_link \<times> node" where
  "ble_connect_cb = (\<lambda>(k, n). (k\<lparr>bk_dump_pending := True\<rparr>, n\<lparr>g_ble_connected := True\<rparr>))"

definition ble_disconnect_cb :: "ble_link \<times> node \<Rightarrow> ble_link \<times> node" where
  "ble_disconnect_cb = (\<lambda>(k, n). (k\<lparr>bk_dump_pending := False\<rparr>, n\<lparr>g_ble_connected := False\<rparr>))"

text \<open>The part of \<^verbatim>\<open>ble_evt_drain\<close> that does more than print: whether a client subscribed is \<open>notify\<close>; the result says
  whether the directory was told.\<close>

definition ble_evt_drain :: "bool \<Rightarrow> u32 \<Rightarrow> ble_link \<times> node \<Rightarrow> bool \<times> ble_link \<times> node" where
  "ble_evt_drain notify now = (\<lambda>(k, n).
     if bk_dump_pending k \<and> notify then (True, k\<lparr>bk_dump_pending := False\<rparr>, loc_dump_to_client now n) else (False, k, n))"

definition BLE_CI_MIN_U :: u16 where "BLE_CI_MIN_U = 12"
definition BLE_CI_MAX_U :: u16 where "BLE_CI_MAX_U = 24"
definition BLE_CI_RETRY_MS :: u32 where "BLE_CI_RETRY_MS = 30000"

text \<open>\<open>conn\<close> is the interval of the stack's connection, when it has one; the result is the request made: shortest and longest
  interval, latency, supervision timeout.\<close>

definition ble_conn_param_tick :: "u32 \<Rightarrow> u16 option \<Rightarrow> bool \<Rightarrow> ble_link \<Rightarrow> (u16 \<times> u16 \<times> u16 \<times> u16) option \<times> ble_link" where
  "ble_conn_param_tick now conn up k =
     (if \<not> up then (None, k\<lparr>bk_ci_next_ms := 0, bk_ci_logged := 0\<rparr>)
      else case conn of
        None \<Rightarrow> (None, k)
      | Some ci \<Rightarrow>
          let k = (if ci \<noteq> 0 \<and> ci \<noteq> bk_ci_logged k then k\<lparr>bk_ci_logged := ci\<rparr> else k) in
          if before32 now (bk_ci_next_ms k) then (None, k)
          else
            let k = k\<lparr>bk_ci_next_ms := now + BLE_CI_RETRY_MS\<rparr> in
            if ci \<noteq> 0 \<and> ci \<le> BLE_CI_MAX_U then (None, k) else (Some (BLE_CI_MIN_U, BLE_CI_MAX_U, 0, 400), k))"

definition ble_adv_name :: "node \<Rightarrow> bytes" where
  "ble_adv_name n = to_bytes ''ALN-'' @ (if g_name n \<noteq> [] then g_name n else to_bytes (take 8 (nid_hex (g_my_id n))))"

section \<open>A turn of the BLE service\<close>

record ble_turn =
  bt_notify :: bool
  bt_ci :: "u16 option"
  bt_env :: con_env
  bt_bytes :: bytes

definition ble_poll :: "crypto \<Rightarrow> ble_turn \<Rightarrow> ble_link \<times> node \<Rightarrow> ((bool \<times> (u16 \<times> u16 \<times> u16 \<times> u16) option) \<times> ble_link \<times> node) option" where
  "ble_poll cr t s =
     (if \<not> g_ble_inited (snd s) then Some ((False, None), s)
      else
        let (dumped, k, n) = ble_evt_drain (bt_notify t) (ce_now (bt_env t)) s;
            (req, k) = ble_conn_param_tick (ce_now (bt_env t)) (bt_ci t) (g_ble_connected n) k
        in do { n \<leftarrow> feed_all (ble_byte cr (bt_env t)) (bt_bytes t) n; Some ((dumped, req), k, n) })"

datatype ble_event = Ble_up | Ble_down | Ble_turn ble_turn

fun ble_step :: "crypto \<Rightarrow> ble_event \<Rightarrow> ble_link \<times> node \<Rightarrow> ((bool \<times> (u16 \<times> u16 \<times> u16 \<times> u16) option) \<times> ble_link \<times> node) option" where
  "ble_step cr Ble_up s = Some ((False, None), ble_connect_cb s)"
| "ble_step cr Ble_down s = Some ((False, None), ble_disconnect_cb s)"
| "ble_step cr (Ble_turn t) s = ble_poll cr t s"

fun ble_session :: "crypto \<Rightarrow> ble_event list \<Rightarrow> ble_link \<times> node \<Rightarrow> ((bool \<times> (u16 \<times> u16 \<times> u16 \<times> u16) option) list \<times> ble_link \<times> node) option" where
  "ble_session cr [] s = Some ([], s)"
| "ble_session cr (ev # evs) s = do { (a, s) \<leftarrow> ble_step cr ev s; (as, s) \<leftarrow> ble_session cr evs s; Some (a # as, s) }"

lemma feed_ble_keeps: "node_inv cr n \<Longrightarrow> \<exists>n'. feed_all (ble_byte cr e) bs n = Some n' \<and> node_inv cr n'"
proof (induction bs arbitrary: n)
  case (Cons b bs)
  then obtain n1 where "ble_byte cr e b n = Some n1" "node_inv cr n1" using ble_byte_keeps by blast
  with Cons.IH show ?case by simp
qed simp

lemma conn_param_pending [simp]: "bk_dump_pending (snd (ble_conn_param_tick now conn up k)) = bk_dump_pending k"
  by (simp add: ble_conn_param_tick_def Let_def split: option.split)

lemma ble_step_keeps:
  assumes "node_inv cr n"
  obtains a k' n' where "ble_step cr ev (k, n) = Some (a, k', n')" "node_inv cr n'"
    "fst a \<longrightarrow> bk_dump_pending k \<and> \<not> bk_dump_pending k'"
    "ev \<noteq> Ble_up \<longrightarrow> bk_dump_pending k' \<longrightarrow> bk_dump_pending k"
    "\<not> fst a \<longrightarrow> ev \<noteq> Ble_down \<longrightarrow> bk_dump_pending k \<longrightarrow> bk_dump_pending k'"
proof (cases ev)
  case (Ble_turn t)
  let ?now = "ce_now (bt_env t)"
  define d where "d = ble_evt_drain (bt_notify t) ?now (k, n)"
  define c where "c = ble_conn_param_tick ?now (bt_ci t) (g_ble_connected (snd (snd d))) (fst (snd d))"
  have d: "node_inv cr (snd (snd d))" "fst d \<longrightarrow> bk_dump_pending k \<and> \<not> bk_dump_pending (fst (snd d))" "\<not> fst d \<longrightarrow> fst (snd d) = k"
    using assms by (simp_all add: d_def ble_evt_drain_def inv_intros)
  obtain n' where n': "feed_all (ble_byte cr (bt_env t)) (bt_bytes t) (snd (snd d)) = Some n'" "node_inv cr n'" using feed_ble_keeps [OF d(1)] by blast
  show thesis
  proof (cases "g_ble_inited n")
    case True
    then have "ble_step cr ev (k, n) = Some ((fst d, fst c), snd c, n')"
      using n'(1) by (simp add: Ble_turn ble_poll_def case_prod_unfold Let_def d_def c_def)
    then show thesis using that n'(2) d(2,3) by (auto simp: c_def)
  next
    case False
    then have "ble_step cr ev (k, n) = Some ((False, None), k, n)" by (simp add: Ble_turn ble_poll_def)
    then show thesis using that assms by auto
  qed
qed (use that assms in \<open>auto simp: ble_connect_cb_def ble_disconnect_cb_def\<close>)

text \<open>Without a new connection the directory is told at most once.\<close>

lemma ble_session_once:
  assumes "node_inv cr n" "Ble_up \<notin> set evs"
  obtains outs k' n' where "ble_session cr evs (k, n) = Some (outs, k', n')" "node_inv cr n'"
    "length (filter fst outs) + (if bk_dump_pending k' then 1 else 0) \<le> (if bk_dump_pending k then 1 else 0)"
    "Ble_down \<notin> set evs \<Longrightarrow> length (filter fst outs) + (if bk_dump_pending k' then 1 else 0) = (if bk_dump_pending k then 1 else 0)"
  using assms
proof (induction evs arbitrary: k n thesis)
  case (Cons ev evs)
  obtain a k1 n1 where s: "ble_step cr ev (k, n) = Some (a, k1, n1)" "node_inv cr n1"
    "fst a \<longrightarrow> bk_dump_pending k \<and> \<not> bk_dump_pending k1"
    "ev \<noteq> Ble_up \<longrightarrow> bk_dump_pending k1 \<longrightarrow> bk_dump_pending k"
    "\<not> fst a \<longrightarrow> ev \<noteq> Ble_down \<longrightarrow> bk_dump_pending k \<longrightarrow> bk_dump_pending k1"
    using ble_step_keeps [OF Cons.prems(2)] by metis
  have "Ble_up \<notin> set evs" using Cons.prems(3) by simp
  then obtain outs k' n' where r: "ble_session cr evs (k1, n1) = Some (outs, k', n')" "node_inv cr n'"
    "length (filter fst outs) + (if bk_dump_pending k' then 1 else 0) \<le> (if bk_dump_pending k1 then 1 else 0)"
    "Ble_down \<notin> set evs \<Longrightarrow> length (filter fst outs) + (if bk_dump_pending k' then 1 else 0) = (if bk_dump_pending k1 then 1 else 0)"
    using Cons.IH [OF _ s(2)] by metis
  have "ev \<noteq> Ble_up" using Cons.prems(3) by auto
  show ?case
  proof (rule Cons.prems(1))
    show "ble_session cr (ev # evs) (k, n) = Some (a # outs, k', n')" by (simp add: s(1) r(1))
    show "node_inv cr n'" by (rule r(2))
    show "length (filter fst (a # outs)) + (if bk_dump_pending k' then 1 else 0) \<le> (if bk_dump_pending k then 1 else 0)"
      using r(3) s(3,4) \<open>ev \<noteq> Ble_up\<close> by (auto split: if_splits)
    show "length (filter fst (a # outs)) + (if bk_dump_pending k' then 1 else 0) = (if bk_dump_pending k then 1 else 0)" if "Ble_down \<notin> set (ev # evs)"
      using r(4) that s(3,4,5) \<open>ev \<noteq> Ble_up\<close> by (auto split: if_splits)
  qed
qed simp

text \<open>What is told: the answers a lookup would give, but for the ids this node's own client registered.\<close>

lemma dump_emits:
  "loc_dump_to_client now n = n\<lparr>g_out := g_out n @ map (\<lambda>v. Loc_line (lv_id v) (lv_loc v))
     (filter (\<lambda>v. Some (lv_id v) \<notin> set (ls_my_regs (g_loc n))) (loc_snapshot (ls_dir (g_loc n)) LOC_DIR_CAP now))\<rparr>"
proof -
  have "foldl (\<lambda>n v. if Some (lv_id v) \<in> set (ls_my_regs (g_loc n)) then n else emit (Loc_line (lv_id v) (lv_loc v)) n) n vs
      = n\<lparr>g_out := g_out n @ map (\<lambda>v. Loc_line (lv_id v) (lv_loc v)) (filter (\<lambda>v. Some (lv_id v) \<notin> set (ls_my_regs (g_loc n))) vs)\<rparr>" for vs
    by (induction vs arbitrary: n) (simp_all add: emit_def)
  then show ?thesis by (simp add: loc_dump_to_client_def)
qed

lemma snapshot_lookup:
  assumes "ld_inv d"
  shows "(\<lambda>v. (lv_id v, lv_loc v)) ` set (loc_snapshot d LOC_DIR_CAP now) = {(i, l). fst (loc_lookup d i now) = Some l}"
proof -
  have dist: "slots_distinct le_used le_id (ld_e d)" and len: "length (ld_e d) = LOC_DIR_CAP" using assms by (simp_all add: ld_inv_def)
  have "take LOC_DIR_CAP (filter P (ld_e d)) = filter P (ld_e d)" for P using length_filter_le [of P "ld_e d"] len by simp
  then have "(\<lambda>v. (lv_id v, lv_loc v)) ` set (loc_snapshot d LOC_DIR_CAP now) = {(le_id e, le_loc e) |e. e \<in> set (ld_e d) \<and> le_used e \<and> \<not> expired e now}"
    by (auto simp: loc_snapshot_def Let_def image_image)
  also have "\<dots> = {(i, l). \<exists>e. ld_get d i = Some e \<and> \<not> expired e now \<and> l = le_loc e}"
    unfolding ld_get_def locs.lookup_Some_iff [OF dist] by blast
  also have "\<dots> = {(i, l). fst (loc_lookup d i now) = Some l}" by (auto simp: loc_lookup_get split: option.splits if_splits)
  finally show ?thesis .
qed

lemma drain_told:
  assumes "node_inv cr n"
  obtains ls where "loc_dump_to_client now n = n\<lparr>g_out := g_out n @ map (\<lambda>(i, l). Loc_line i l) ls\<rparr>"
    "set ls = {(i, l). fst (loc_lookup (ls_dir (g_loc n)) i now) = Some l \<and> Some i \<notin> set (ls_my_regs (g_loc n))}"
proof
  let ?vs = "filter (\<lambda>v. Some (lv_id v) \<notin> set (ls_my_regs (g_loc n))) (loc_snapshot (ls_dir (g_loc n)) LOC_DIR_CAP now)"
  let ?ls = "map (\<lambda>v. (lv_id v, lv_loc v)) ?vs"
  show "loc_dump_to_client now n = n\<lparr>g_out := g_out n @ map (\<lambda>(i, l). Loc_line i l) ?ls\<rparr>" by (simp add: dump_emits comp_def)
  have "ld_inv (ls_dir (g_loc n))" using node_invD(6) [OF assms] by (simp add: loc_inv_def)
  note inv = this
  have "set ?ls = {p \<in> (\<lambda>v. (lv_id v, lv_loc v)) ` set (loc_snapshot (ls_dir (g_loc n)) LOC_DIR_CAP now). Some (fst p) \<notin> set (ls_my_regs (g_loc n))}" by auto
  then show "set ?ls = {(i, l). fst (loc_lookup (ls_dir (g_loc n)) i now) = Some l \<and> Some i \<notin> set (ls_my_regs (g_loc n))}"
    unfolding snapshot_lookup [OF inv] by auto
qed

section \<open>The stack stays up\<close>

lemma inited_senders [simp]:
  "g_ble_inited (emit ev n) = g_ble_inited n" "g_ble_inited (tx_unicast now f nh n) = g_ble_inited n"
  "g_ble_inited (send_data_bytes now i p n) = g_ble_inited n" "g_ble_inited (send_loc_flood m t pt n) = g_ble_inited n"
  "g_ble_inited (send_loc_unicast now i m pt n) = g_ble_inited n" "g_ble_inited (tunnel_emit i p n) = g_ble_inited n"
proof -
  have put: "g_ble_inited (txq_put f n) = g_ble_inited n" for f n by (simp add: txq_put_def)
  have uni: "g_ble_inited (tx_unicast now f nh n) = g_ble_inited n" for now f nh n by (simp add: tx_unicast_def Let_def case_prod_unfold put)
  show "g_ble_inited (emit ev n) = g_ble_inited n" "g_ble_inited (tx_unicast now f nh n) = g_ble_inited n"
    "g_ble_inited (send_data_bytes now i p n) = g_ble_inited n" "g_ble_inited (send_loc_flood m t pt n) = g_ble_inited n"
    "g_ble_inited (send_loc_unicast now i m pt n) = g_ble_inited n" "g_ble_inited (tunnel_emit i p n) = g_ble_inited n"
    by (simp_all add: put uni emit_def send_data_bytes_def send_loc_flood_def send_loc_unicast_def bump_pktid_def loc_flood_mark_def
        tunnel_emit_def host_write_def hdlc_write_def Let_def split: option.split)
qed

lemma inited_saves [simp]:
  "g_ble_inited (rf_save c n) = g_ble_inited n" "g_ble_inited (ctrl_cfg_save n) = g_ble_inited n" "g_ble_inited (ble_cfg_save n) = g_ble_inited n"
  "g_ble_inited (kiss_cfg_save n) = g_ble_inited n" "g_ble_inited (node_cfg_save n) = g_ble_inited n" "g_ble_inited (net_cfg_save n) = g_ble_inited n"
  "g_ble_inited (batt_cfg_save n) = g_ble_inited n" "g_ble_inited (ble_start_adv ok n)" "g_ble_inited (ble_stop_adv n) = g_ble_inited n"
  by (simp_all add: cfg_saves ble_start_adv_def ble_stop_adv_def)

lemma inited_foldl: "(\<And>n x. g_ble_inited (f n x) = g_ble_inited n) \<Longrightarrow> g_ble_inited (foldl f n xs) = g_ble_inited n"
  by (induction xs arbitrary: n) simp_all

lemma inited_control [simp]: "g_ble_inited (ctrl_apply_verified now ok m r n) = g_ble_inited n"
proof -
  have ack: "g_ble_inited (ctrl_send_ack now m r a p n) = g_ble_inited n" for a p n by (simp add: ctrl_send_ack_def split: option.split)
  have pow: "g_ble_inited (ctrl_apply_power ok d p n) = g_ble_inited n" for d p n by (simp add: ctrl_apply_power_def Let_def case_prod_unfold)
  show ?thesis
    by (simp add: ctrl_apply_verified_def ctrl_power_def ctrl_confirm_def ctrl_block_def ctrl_unblock_def ctrl_ble_def ctrl_retune_def
        Let_def case_prod_unfold ack pow)
qed

lemma inited_commands:
  assumes "g_ble_inited n"
  shows "g_ble_inited (cmd_send e a n)" "g_ble_inited (cmd_block on a n)" "g_ble_inited (cmd_status a n)" "g_ble_inited (cmd_register e a n)"
    "g_ble_inited (cmd_resolve e a n)" "g_ble_inited (cmd_sbegin a n)" "g_ble_inited (cmd_sdata a n)" "g_ble_inited (cmd_xfer a n)" "g_ble_inited (cmd_dump n)"
  using assms
  by (simp_all add: cmd_send_def cmd_block_def cmd_status_def cmd_register_def cmd_resolve_def cmd_sbegin_def cmd_sdata_def cmd_xfer_def cmd_dump_def
      loc_register_def loc_resolve_def set_dir_def set_res_def set_xfer_def Let_def case_prod_unfold split: option.split)

lemma inited_settings:
  assumes "g_ble_inited n"
  shows "g_ble_inited (cmd_ble e a n)" "g_ble_inited (cmd_blepin e a n)" "g_ble_inited (cmd_trace a n)" "g_ble_inited (cmd_kiss a n)"
    "g_ble_inited (cmd_cad a n)" "g_ble_inited (cmd_rf e a n)" "g_ble_inited (cmd_mobile a n)" "g_ble_inited (cmd_name e a n)"
    "g_ble_inited (cmd_net a n)" "g_ble_inited (cmd_batt e a n)" "g_ble_inited (cmd_ctrlkey a n)"
  using assms
  by (simp_all add: cmd_ble_def cmd_blepin_def cmd_trace_def cmd_kiss_def cmd_cad_def cmd_rf_def cmd_rf_apply_def cmd_mobile_def cmd_name_def
      cmd_net_def cmd_batt_def batt_refresh_def cmd_ctrlkey_def Let_def case_prod_unfold split: option.split)

lemma inited_reports:
  "g_ble_inited (cmd_bletest e a n) = g_ble_inited n" "g_ble_inited (cmd_anndump n) = g_ble_inited n" "g_ble_inited (cmd_battdump e n) = g_ble_inited n"
  "g_ble_inited (cmd_nbrdump e n) = g_ble_inited n" "g_ble_inited (loc_dirdump now n) = g_ble_inited n"
  by (auto simp: cmd_bletest_def cmd_anndump_def cmd_battdump_def cmd_nbrdump_def loc_dirdump_def Let_def case_prod_unfold
      intro!: inited_foldl split: option.split)

lemma inited_handle_command: "g_ble_inited n \<Longrightarrow> pred_option g_ble_inited (handle_command cr e line n)"
proof -
  assume up: "g_ble_inited n"
  then have "pred_option g_ble_inited (cmd_ctrlsend cr e a n)" for a
    unfolding cmd_ctrlsend_def ctrl_command_def Let_def by (auto intro!: pred_option_bindI)
  with inited_commands [OF up] inited_settings [OF up] inited_reports [where n = n] show ?thesis
    unfolding handle_command_def using up by (simp split: option.split)
qed

lemma inited_ble_byte: "g_ble_inited n \<Longrightarrow> pred_option g_ble_inited (ble_byte cr e c n)"
proof -
  assume up: "g_ble_inited n"
  have "pred_option g_ble_inited (tunnel_rx_frame now f m)" if "g_ble_inited m" for now f m
    unfolding tunnel_rx_frame_def tunnel_send_def sar_start_def set_xfer_def Let_def using that by (auto intro!: pred_option_bindI)
  then show ?thesis using up by (simp add: ble_byte_def Let_def case_prod_unfold inited_handle_command split: option.split)
qed

lemma inited_feed: "g_ble_inited n \<Longrightarrow> feed_all (ble_byte cr e) bs n = Some n' \<Longrightarrow> g_ble_inited n'"
proof (induction bs arbitrary: n)
  case (Cons b bs)
  then obtain n1 where "ble_byte cr e b n = Some n1" "feed_all (ble_byte cr e) bs n1 = Some n'" by (auto simp: bind_eq_Some_conv)
  with Cons inited_ble_byte [of n cr e b] show ?case by simp
qed simp

section \<open>The directory is told once\<close>

text \<open>Once the stack is up it stays up, and the turns before the client subscribed keep the debt.\<close>

lemma ble_step_inited: "g_ble_inited n \<Longrightarrow> ble_step cr ev (k, n) = Some (a, k', n') \<Longrightarrow> g_ble_inited n'"
proof (cases ev)
  case (Ble_turn t)
  assume up: "g_ble_inited n" and s: "ble_step cr ev (k, n) = Some (a, k', n')"
  define d where "d = ble_evt_drain (bt_notify t) (ce_now (bt_env t)) (k, n)"
  have "g_ble_inited (snd (snd d))" using up by (simp add: d_def ble_evt_drain_def dump_emits)
  moreover have "feed_all (ble_byte cr (bt_env t)) (bt_bytes t) (snd (snd d)) = Some n'"
    using s up by (simp add: Ble_turn ble_poll_def d_def case_prod_unfold Let_def bind_eq_Some_conv)
  ultimately show ?thesis by (rule inited_feed)
qed (auto simp: ble_connect_cb_def ble_disconnect_cb_def)

lemma ble_step_waits:
  assumes "ble_step cr ev (k, n) = Some (a, k', n')" "\<forall>t. ev = Ble_turn t \<longrightarrow> \<not> bt_notify t" 
  shows "\<not> fst a"
proof (cases ev)
  case (Ble_turn t)
  then show ?thesis using assms by (auto simp: ble_poll_def ble_evt_drain_def case_prod_unfold Let_def bind_eq_Some_conv split: if_splits)
qed (use assms in auto)

lemma ble_session_waits:
  assumes "ble_session cr evs (k, n) = Some (outs, k', n')"
  shows "g_ble_inited n \<Longrightarrow> g_ble_inited n'" and "\<forall>t. Ble_turn t \<in> set evs \<longrightarrow> \<not> bt_notify t \<Longrightarrow> filter fst outs = []"
proof -
  have "(g_ble_inited n \<longrightarrow> g_ble_inited n') \<and> ((\<forall>t. Ble_turn t \<in> set evs \<longrightarrow> \<not> bt_notify t) \<longrightarrow> filter fst outs = [])"
    using assms
  proof (induction evs arbitrary: k n outs)
    case (Cons ev evs)
    obtain a k1 n1 as where s: "ble_step cr ev (k, n) = Some (a, k1, n1)" "ble_session cr evs (k1, n1) = Some (as, k', n')" "outs = a # as"
      using Cons.prems by (auto simp: bind_eq_Some_conv)
    show ?case using Cons.IH [OF s(2)] ble_step_inited [OF _ s(1)] ble_step_waits [OF s(1)] s(3) by auto
  qed simp
  then show "g_ble_inited n \<Longrightarrow> g_ble_inited n'" "\<forall>t. Ble_turn t \<in> set evs \<longrightarrow> \<not> bt_notify t \<Longrightarrow> filter fst outs = []" by blast+
qed

text \<open>A turn with the client subscribed leaves no debt, and tells what is owed.\<close>

lemma ble_poll_pays:
  assumes "node_inv cr n" "g_ble_inited n" "bk_dump_pending k" "bt_notify t" "now = ce_now (bt_env t)"
  shows "\<exists>req k2 n2 ls. ble_poll cr t (k, n) = Some ((True, req), k2, n2) \<and> \<not> bk_dump_pending k2
    \<and> feed_all (ble_byte cr (bt_env t)) (bt_bytes t) (n\<lparr>g_out := g_out n @ map (\<lambda>(i, l). Loc_line i l) ls\<rparr>) = Some n2
    \<and> set ls = {(i, l). fst (loc_lookup (ls_dir (g_loc n)) i now) = Some l \<and> Some i \<notin> set (ls_my_regs (g_loc n))}"
proof -
  obtain ls where ls: "loc_dump_to_client now n = n\<lparr>g_out := g_out n @ map (\<lambda>(i, l). Loc_line i l) ls\<rparr>"
    "set ls = {(i, l). fst (loc_lookup (ls_dir (g_loc n)) i now) = Some l \<and> Some i \<notin> set (ls_my_regs (g_loc n))}" using drain_told [OF assms(1)] .
  obtain n2 where n2: "feed_all (ble_byte cr (bt_env t)) (bt_bytes t) (loc_dump_to_client now n) = Some n2"
    using feed_ble_keeps [OF node_inv_loc_dump [OF assms(1)]] by blast
  let ?c = "ble_conn_param_tick now (bt_ci t) (g_ble_connected (loc_dump_to_client now n)) (k\<lparr>bk_dump_pending := False\<rparr>)"
  have "ble_poll cr t (k, n) = Some ((True, fst ?c), snd ?c, n2)"
    using assms n2 by (simp add: ble_poll_def ble_evt_drain_def case_prod_unfold Let_def)
  moreover have "\<not> bk_dump_pending (snd ?c)" by simp
  ultimately show ?thesis using n2 ls unfolding ls(1) by blast
qed

lemma ble_session_paid:
  assumes "node_inv cr n" "g_ble_inited n" "Ble_up \<notin> set evs" "ble_session cr evs (k, n) = Some (outs, k', n')"
    and "bk_dump_pending k \<longrightarrow> (\<exists>t. Ble_turn t \<in> set evs \<and> bt_notify t)"
  shows "\<not> bk_dump_pending k'"
  using assms
proof (induction evs arbitrary: k n outs)
  case (Cons ev evs)
  obtain a k1 n1 as where s: "ble_step cr ev (k, n) = Some (a, k1, n1)" "ble_session cr evs (k1, n1) = Some (as, k', n')"
    using Cons.prems(4) by (auto simp: bind_eq_Some_conv)
  obtain b k2 n2 where "ble_step cr ev (k, n) = Some (b, k2, n2)" "node_inv cr n2" "ev \<noteq> Ble_up \<longrightarrow> bk_dump_pending k2 \<longrightarrow> bk_dump_pending k"
    using ble_step_keeps [OF Cons.prems(1)] by metis
  then have n1: "node_inv cr n1" "bk_dump_pending k1 \<longrightarrow> bk_dump_pending k" using s(1) Cons.prems(3) by auto
  have "\<not> bk_dump_pending k1" if "ev = Ble_turn t" "bt_notify t" "bk_dump_pending k" for t
    using ble_poll_pays [OF Cons.prems(1,2) that(3,2) refl] s(1) that(1) by auto
  then have "bk_dump_pending k1 \<longrightarrow> (\<exists>t. Ble_turn t \<in> set evs \<and> bt_notify t)" using n1(2) Cons.prems(5) by auto
  then show ?case using Cons.IH [OF n1(1) ble_step_inited [OF Cons.prems(2) s(1)] _ s(2)] Cons.prems(3) by simp
qed simp

text \<open>C34. A new BLE client is told the directory, once. Callbacks of the stack and turns of the BLE service, with whatever bytes the
  client sends, never fail and keep the node's invariant. From the moment a client connects until the next connection, the
  directory is told at most once; it is told exactly once when the client stays and some turn finds it subscribed. It is
  not told before, and the first turn that finds the client subscribed tells it, ahead of the bytes received in that turn:
  the lines written are the bindings a lookup would answer with at that moment, all of them, except those of ids this
  node's own client registered.\<close>

theorem ble_client_told_once:
  assumes "node_inv cr n" "g_ble_inited n" "Ble_up \<notin> set evs"
  shows "\<exists>outs k' n'. ble_session cr (Ble_up # evs) (k, n) = Some (outs, k', n') \<and> node_inv cr n'
    \<and> length (filter fst outs) \<le> 1
    \<and> (Ble_down \<notin> set evs \<and> (\<exists>t. Ble_turn t \<in> set evs \<and> bt_notify t) \<longrightarrow> length (filter fst outs) = 1)
    \<and> (Ble_down \<notin> set evs \<and> (\<forall>t. Ble_turn t \<in> set evs \<longrightarrow> \<not> bt_notify t) \<and> bt_notify t \<longrightarrow> filter fst outs = []
        \<and> (\<exists>req k2 n2 ls. ble_poll cr t (k', n') = Some ((True, req), k2, n2) \<and> \<not> bk_dump_pending k2
             \<and> feed_all (ble_byte cr (bt_env t)) (bt_bytes t) (n'\<lparr>g_out := g_out n' @ map (\<lambda>(i, l). Loc_line i l) ls\<rparr>) = Some n2
             \<and> set ls = {(i, l). fst (loc_lookup (ls_dir (g_loc n')) i (ce_now (bt_env t))) = Some l \<and> Some i \<notin> set (ls_my_regs (g_loc n'))}))"
proof -
  define k0 where "k0 = k\<lparr>bk_dump_pending := True\<rparr>"
  define n0 where "n0 = n\<lparr>g_ble_connected := True\<rparr>"
  have n0: "node_inv cr n0" "g_ble_inited n0" "bk_dump_pending k0" using assms(1,2) by (simp_all add: n0_def k0_def)
  obtain outs k' n' where s: "ble_session cr evs (k0, n0) = Some (outs, k', n')" "node_inv cr n'"
    "length (filter fst outs) + (if bk_dump_pending k' then 1 else 0) \<le> (if bk_dump_pending k0 then 1 else 0)"
    "Ble_down \<notin> set evs \<Longrightarrow> length (filter fst outs) + (if bk_dump_pending k' then 1 else 0) = (if bk_dump_pending k0 then 1 else 0)"
    using ble_session_once [OF n0(1) assms(3)] by metis
  note w = ble_session_waits [OF s(1)]
  define outs0 where "outs0 = (False, None) # outs"
  have f: "filter fst outs0 = filter fst outs" by (simp add: outs0_def)
  have "ble_session cr (Ble_up # evs) (k, n) = Some (outs0, k', n')"
    unfolding outs0_def using s(1) by (simp add: ble_connect_cb_def k0_def n0_def)
  moreover have "length (filter fst outs0) = 1" if "Ble_down \<notin> set evs" "\<exists>t. Ble_turn t \<in> set evs \<and> bt_notify t"
    unfolding f using ble_session_paid [OF n0(1,2) assms(3) s(1)] s(4) that n0(3) by simp
  moreover have "filter fst outs0 = [] \<and> bk_dump_pending k'" if "Ble_down \<notin> set evs" "\<forall>t. Ble_turn t \<in> set evs \<longrightarrow> \<not> bt_notify t"
    unfolding f using w(2) [OF that(2)] s(4) [OF that(1)] n0(3) by (simp split: if_splits)
  moreover have "length (filter fst outs0) \<le> 1" unfolding f using s(3) n0(3) by simp
  moreover note ble_poll_pays [OF s(2) w(1) [OF n0(2)] _ _ refl, of k' t]
  ultimately show ?thesis using s(2) by (intro exI [of _ outs0] exI [of _ k'] exI [of _ n'] conjI impI; blast)
qed

theorem ble_client_told_once_witness:
  "\<exists>outs k' n'. ble_session toy_crypto [Ble_up, Ble_turn \<lparr>bt_notify = False, bt_ci = Some 40, bt_env = demo_env, bt_bytes = [0x0A, 0x7E]\<rparr>,
        Ble_turn \<lparr>bt_notify = True, bt_ci = Some 40, bt_env = demo_env, bt_bytes = []\<rparr>]
      (BleLink_init, (node_boot (nid_read (replicate 16 7)) (replicate 32 1) (replicate 64 2) demo_cfg)\<lparr>g_ble_inited := True\<rparr>) = Some (outs, k', n')
    \<and> length (filter fst outs) = 1"
proof -
  let ?t = "\<lparr>bt_notify = True, bt_ci = Some 40, bt_env = demo_env, bt_bytes = []\<rparr>"
  define evs where "evs = [Ble_turn \<lparr>bt_notify = False, bt_ci = Some 40, bt_env = demo_env, bt_bytes = [0x0A, 0x7E]\<rparr>, Ble_turn ?t]"
  define n where "n = (node_boot (nid_read (replicate 16 7)) (replicate 32 1) (replicate 64 2) demo_cfg)\<lparr>g_ble_inited := True\<rparr>"
  have inv: "node_inv toy_crypto n" "g_ble_inited n" unfolding n_def by (simp_all add: boot_inv)
  have up: "Ble_up \<notin> set evs" and "Ble_down \<notin> set evs" "\<exists>t. Ble_turn t \<in> set evs \<and> bt_notify t"
    by (auto simp: evs_def intro!: exI [of _ ?t])
  with ble_client_told_once [OF inv up, of BleLink_init ?t]
  have "\<exists>outs k' n'. ble_session toy_crypto (Ble_up # evs) (BleLink_init, n) = Some (outs, k', n') \<and> length (filter fst outs) = 1" by blast
  then show ?thesis unfolding evs_def n_def .
qed

end
