(* ===== verification/Node_Net.thy ===== *)
theory Node_Net
  imports Node_Rx
begin

text \<open>Two nodes and the air between them: what one node's frames do at another. The theory has no state of its own. It
  composes the senders of \<^verbatim>\<open>Node\<close> with the receive handler of \<^verbatim>\<open>Node_Rx\<close> (src/src/main.cpp): a beacon as it leaves
  \<^verbatim>\<open>send_beacon\<close> and as \<^verbatim>\<open>on_rx\<close> takes it, what a crowded beacon still says, the exchange of a directed frame
  and its ACK, and the repair of a segmented transfer by a request for the missing fragments.\<close>

section \<open>Verified bindings\<close>

lemma for_each_verified_intern: "nd_inv t \<Longrightarrow> set (for_each_verified (snd (intern t i now))) \<subseteq> set (for_each_verified t)"
proof -
  assume inv: "nd_inv t"
  from inv show ?thesis
  proof (cases rule: intern_cases [where nid = i and now = now])
    case (known j)
    note f = nds.find_SomeD [OF known(1)]
    then have "nd_slots t ! j \<in> set (nd_slots t)" by simp
    then show ?thesis using known(2) f by (auto simp: for_each_verified_def dest!: subsetD [OF set_update_subset_insert])
  next
    case (fresh j)
    then show ?thesis by (auto simp: for_each_verified_def nd_occupy_def dest!: subsetD [OF set_update_subset_insert])
  next
    case (evicted j)
    then show ?thesis by (auto simp: for_each_verified_def nd_occupy_def dest!: subsetD [OF set_update_subset_insert])
  next
    case saturated
    then show ?thesis by (simp add: for_each_verified_def)
  qed
qed

lemma intern_unverified:
  assumes "nd_inv t" "\<forall>k. (i, k) \<notin> set (for_each_verified t)" "intern t i now = (r, t')"
  shows "\<not> verified t' r"
proof
  assume v: "verified t' r"
  then obtain s where s: "nd_slot t' r = Some s" "ns_verified s" by (auto simp: verified_def split: option.splits)
  then have "resolve t' r = Some (ns_id s)" by (simp add: resolve_def)
  moreover from this have "\<not> ref_is_none r" by (auto simp: ref_is_none_def NODE_REF_NONE_def NODE_TABLE_CAP_def resolve_def nd_slot_def)
  ultimately have "ns_id s = i" using intern_outcome [OF assms(1,3)] by simp
  moreover have "(ns_id s, ns_pub s) \<in> set (for_each_verified t')" using nd_slotD [OF s(1)] s(2) intern_outcome [OF assms(1,3)]
    by (auto simp: for_each_verified_def nd_inv_def)
  ultimately show False using for_each_verified_intern [OF assms(1), of i now] assms(2,3) by auto
qed

lemma mark_verified_binds:
  assumes "nd_inv t" "resolve t r = Some i"
  shows "(i, pub) \<in> set (for_each_verified (mark_verified t r pub))"
proof -
  obtain s where s: "nd_slot t r = Some s" "ns_id s = i" using assms(2) by (auto simp: resolve_def)
  note d = nd_slotD [OF s(1)]
  have "s\<lparr>ns_verified := True, ns_pub := pub\<rparr> \<in> set (nd_slots (mark_verified t r pub))"
    using s d assms(1) by (auto simp: mark_verified_def upd_at_def nd_inv_def intro!: set_update_memI)
  then have "(ns_id (s\<lparr>ns_verified := True, ns_pub := pub\<rparr>), ns_pub (s\<lparr>ns_verified := True, ns_pub := pub\<rparr>))
      \<in> set (for_each_verified (mark_verified t r pub))"
    using d unfolding for_each_verified_def set_map set_filter by (intro imageI) auto
  then show ?thesis using s(2) by simp
qed


section \<open>A beacon and its receiver\<close>

lemma announce_sized_build: "router_inv r \<Longrightarrow> announce_sized (build_announce r Announce_init)"
  using nt_invD(1) [OF router_invD(1), of r] rt_invD(1) [OF router_invD(2), of r]
    length_filter_le [of "\<lambda>n. n_used n \<and> \<not> n_q_rx n < 0" "nt_slots (ro_neighbors r)"] length_filter_le [of rt_used "rtb_slots (ro_routes r)"]
  by (simp add: announce_sized_def build_announce_def)

text \<open>The announce of a signing node has 115 bytes.\<close>

definition BEACON_ANN_CAP :: nat where "BEACON_ANN_CAP = 115"

lemma beacon_frame_signed:
  assumes "g_have_key a"
  obtains body l h pl where
    "announce_serialize (build_announce (g_router a) Announce_init) BEACON_ANN_CAP = Some body" "length body \<le> BEACON_ANN_CAP"
    "beacon_frame cr now a = mk_frame l h (put_beacon_payload pl @ body @ g_pk a @ ed_sign cr (g_sk a) (ann_view (g_pk a) body))"
    "nh_src h = g_my_id a" "nh_ver_type h = net_ver_type PKT_BEACON" "lh_next_hop l = LINK_ADDR_BROADCAST" "lh_flags l = 0"
proof -
  let ?an = "build_announce (g_router a) Announce_init"
  have "announce_hdr_len (a_has_caps ?an) \<le> BEACON_ANN_CAP" by (simp add: announce_hdr_len_def announce_sizes BEACON_ANN_CAP_def)
  then obtain body where b: "announce_serialize ?an BEACON_ANN_CAP = Some body" by (simp add: announce_serialize_iff)
  then have len: "length body \<le> BEACON_ANN_CAP" using fit_bounds(3) [of ?an BEACON_ANN_CAP]
    by (simp add: announce_serialize_iff length_announce_bytes)
  moreover have "TX_FRAME_MAX - (HEADER_BYTES + BEACON_PAYLOAD_BYTES) - ANNOUNCE_SIG_TAIL = BEACON_ANN_CAP"
    by (simp add: frame_sizes ANNOUNCE_SIG_TAIL_def BEACON_ANN_CAP_def)
  ultimately show thesis using that [OF b len] assms b
    by (simp add: beacon_frame_def Let_def announce_sign_def ANN_VIEW_BODY_MAX_def BEACON_ANN_CAP_def)
qed

lemma on_rx_beacon:
  assumes "buf = mk_frame l h p" "nh_ver_type h = net_ver_type PKT_BEACON" "lh_next_hop l = LINK_ADDR_BROADCAST" "lh_flags l = 0"
    and "nh_src h \<noteq> g_my_id n"
  shows "on_rx cr ev buf rssi snr n = on_beacon_rx cr (ev_now ev) buf h rssi snr n"
proof -
  have "frame_hdr buf = Some (Some (l, h))" unfolding assms(1) by (rule frame_hdr_mk)
  then have rd: "\<not> length buf < HEADER_BYTES" "rd_net buf 4 = Some h" "rd_link buf 0 = Some l"
    by (auto simp: frame_hdr_def split: if_splits bind_splits)
  have t: "net_ver_of (net_ver_type PKT_BEACON) = PROTO_VERSION" "net_type_of (net_ver_type PKT_BEACON) = PKT_BEACON"
    "PKT_BEACON \<notin> {PKT_LOC, PKT_TELEM, PKT_CONTROL, PKT_DATA}" by code_simp+
  have "rx_linked cr ev buf h l m = Some m" for m using assms(2-4) t by (simp add: rx_linked_def rx_dispatch_def Let_def)
  then show ?thesis using rd assms(2,5) t by (simp add: on_rx_def)
qed


text \<open>What a receiver gets from the frame of a signing node.\<close>

abbreviation beacon_view :: "router \<Rightarrow> announce" where
  "beacon_view r \<equiv> announce_view (build_announce r Announce_init) BEACON_ANN_CAP"

lemma beacon_parsed:
  assumes "node_inv cr a" "g_have_key a" "sig_len cr"
  obtains body h pl where "nh_src h = g_my_id a" "length body \<le> BEACON_ANN_CAP"
    "\<And>b ev rssi snr. g_my_id a \<noteq> g_my_id b \<Longrightarrow>
       on_rx cr ev (beacon_frame cr now a) rssi snr b = on_beacon_rx cr (ev_now ev) (beacon_frame cr now a) h rssi snr b"
    "HEADER_BYTES + BEACON_PAYLOAD_BYTES < length (beacon_frame cr now a)"
    "drop (HEADER_BYTES + BEACON_PAYLOAD_BYTES) (beacon_frame cr now a) = body @ g_pk a @ ed_sign cr (g_sk a) (ann_view (g_pk a) body)"
    "announce_deserialize (body @ g_pk a @ ed_sign cr (g_sk a) (ann_view (g_pk a) body)) = Some (Some (beacon_view (g_router a)))"
    "announce_body_len (beacon_view (g_router a)) = length body" "rd_beacon_payload (beacon_frame cr now a) HEADER_BYTES = Some pl"
proof -
  obtain body l h pl where f: "announce_serialize (build_announce (g_router a) Announce_init) BEACON_ANN_CAP = Some body"
      "length body \<le> BEACON_ANN_CAP"
      "beacon_frame cr now a = mk_frame l h (put_beacon_payload pl @ body @ g_pk a @ ed_sign cr (g_sk a) (ann_view (g_pk a) body))"
      "nh_src h = g_my_id a" "nh_ver_type h = net_ver_type PKT_BEACON" "lh_next_hop l = LINK_ADDR_BROADCAST" "lh_flags l = 0"
    using beacon_frame_signed [OF assms(2)] by blast
  have sz: "announce_sized (build_announce (g_router a) Announce_init)" using node_invD(2) [OF assms(1)] by (rule announce_sized_build)
  show thesis
  proof (rule that [OF f(4,2)])
    show "on_rx cr ev (beacon_frame cr now a) rssi snr b = on_beacon_rx cr (ev_now ev) (beacon_frame cr now a) h rssi snr b"
      if "g_my_id a \<noteq> g_my_id b" for b ev rssi snr using on_rx_beacon [OF f(3,5-7)] that by (simp add: f(4))
    show "announce_body_len (beacon_view (g_router a)) = length body" using f(1)
      by (simp add: announce_serialize_iff announce_view_def announce_body_len_def length_announce_bytes)
    show "announce_deserialize (body @ g_pk a @ ed_sign cr (g_sk a) (ann_view (g_pk a) body)) = Some (Some (beacon_view (g_router a)))"
      using sz f(1) by (rule announce_deserialize_fit)
  qed (use node_invD(11) [OF assms(1)] in \<open>simp_all add: f(3) mk_frame_def frame_sizes codec_simps\<close>)
qed

lemma verify_identity_router: "verify_identity cr now region ann src n = Some n' \<Longrightarrow> g_router n' = g_router n"
  by (auto simp: verify_identity_def Let_def emit_def split: if_splits option.splits prod.splits bind_splits)

lemma beacon_received:
  assumes "node_inv cr a" "node_inv cr b" "g_have_key a" "sig_len cr" "g_my_id a \<noteq> g_my_id b"
  obtains b' where "on_rx cr ev (beacon_frame cr now a) rssi snr b = Some b'" "node_inv cr b'"
    "g_router b' = on_beacon (g_router b) (g_my_id a) (quality_from_rf snr rssi) (beacon_view (g_router a)) (ev_now ev)"
proof -
  obtain body h pl where p: "nh_src h = g_my_id a"
    "on_rx cr ev (beacon_frame cr now a) rssi snr b = on_beacon_rx cr (ev_now ev) (beacon_frame cr now a) h rssi snr b"
    "HEADER_BYTES + BEACON_PAYLOAD_BYTES < length (beacon_frame cr now a)"
    "announce_deserialize (drop (HEADER_BYTES + BEACON_PAYLOAD_BYTES) (beacon_frame cr now a)) = Some (Some (beacon_view (g_router a)))"
    using beacon_parsed [OF assms(1,3,4), of now] assms(5) by metis
  have "length (beacon_frame cr now a) \<le> RADIO_MAX_FRAME"
    using frame_ok_beacon [OF assms(4) node_invD(11) [OF assms(1)]] by (simp add: frame_ok_def)
  then obtain b' where b': "on_rx cr ev (beacon_frame cr now a) rssi snr b = Some b'" "node_inv cr b'" using on_rx_keeps [OF assms(2)] by blast
  have "g_router b' = on_beacon (g_router b) (g_my_id a) (quality_from_rf snr rssi) (beacon_view (g_router a)) (ev_now ev)"
    using b'(1) p verify_identity_router by (fastforce simp: on_beacon_rx_def Let_def split: bind_splits)
  then show thesis using that b' by blast
qed

lemma signed_beacon_verified:
  assumes "node_inv cr b" "node_inv cr a" "g_have_key a" "sig_len cr"
    and "\<And>m. ed_check cr (ed_sign cr (g_sk a) m) (g_pk a) m" "nid_from_pubkey (blake cr) (g_pk a) = g_my_id a"
    and "g_my_id a \<noteq> g_my_id b" "\<forall>k. (g_my_id a, k) \<notin> set (for_each_verified (g_id_table b))"
    and "\<exists>s\<in>set (nd_slots (g_id_table b)). \<not> ns_used s \<or> \<not> ns_pinned s"
    and "on_rx cr ev (beacon_frame cr now a) rssi snr b = Some b'"
  shows "g_out b' = g_out b @ [Ann_line (g_my_id a) (g_pk a)]" "(g_my_id a, g_pk a) \<in> set (for_each_verified (g_id_table b'))"
proof -
  define view buf where "view = beacon_view (g_router a)" and "buf = beacon_frame cr now a"
  obtain body h pl where p: "nh_src h = g_my_id a" "length body \<le> BEACON_ANN_CAP"
    "on_rx cr ev buf rssi snr b = on_beacon_rx cr (ev_now ev) buf h rssi snr b"
    "HEADER_BYTES + BEACON_PAYLOAD_BYTES < length buf"
    "drop (HEADER_BYTES + BEACON_PAYLOAD_BYTES) buf = body @ g_pk a @ ed_sign cr (g_sk a) (ann_view (g_pk a) body)"
    "announce_deserialize (body @ g_pk a @ ed_sign cr (g_sk a) (ann_view (g_pk a) body)) = Some (Some view)"
    "announce_body_len view = length body" "rd_beacon_payload buf HEADER_BYTES = Some pl"
    unfolding view_def buf_def using beacon_parsed [OF assms(2-4), of now] assms(7) by metis
  have pk: "length (g_pk a) = 32" and sg: "length (ed_sign cr (g_sk a) m) = 64" for m
    using node_invD(11) [OF assms(2)] assms(4) by (simp_all add: sig_len_def)
  define b1 where "b1 = b\<lparr>g_router := on_beacon (g_router b) (g_my_id a) (quality_from_rf snr rssi) view (ev_now ev)\<rparr>"
  obtain r t where t: "intern (g_id_table b) (g_my_id a) (ev_now ev) = (r, t)" by (cases "intern (g_id_table b) (g_my_id a) (ev_now ev)")
  have inv: "nd_inv (g_id_table b)" using node_invD(7) [OF assms(1)] by (simp add: id_inv_def)
  note io = intern_outcome [OF inv t]
  have "verify_identity cr (ev_now ev) (body @ g_pk a @ ed_sign cr (g_sk a) (ann_view (g_pk a) body)) view (g_my_id a) b1
      = Some (emit (Ann_line (g_my_id a) (g_pk a)) (b1\<lparr>g_id_table := mark_verified t r (g_pk a)\<rparr>))"
    using t intern_unverified [OF inv assms(8) t] pk sg assms(5,6) p(2)
    by (simp add: verify_identity_def p(7) b1_def ANNOUNCE_SIG_TAIL_def rdn_def announce_verify_def ANN_VIEW_BODY_MAX_def BEACON_ANN_CAP_def)
  then have "on_beacon_rx cr (ev_now ev) buf h rssi snr b = Some ((emit (Ann_line (g_my_id a) (g_pk a)) (b1\<lparr>g_id_table := mark_verified t r (g_pk a)\<rparr>))
      \<lparr>g_ann_cache := ann_cache_put (g_my_id a) view rssi snr (bp_batt_pct_plus1 pl) (ev_now ev) (g_ann_cache b)\<rparr>)"
    using p(1,4-6,8) by (simp add: on_beacon_rx_def b1_def emit_def)
  moreover have "resolve t r = Some (g_my_id a)" using io assms(9) by blast
  ultimately show "g_out b' = g_out b @ [Ann_line (g_my_id a) (g_pk a)]" "(g_my_id a, g_pk a) \<in> set (for_each_verified (g_id_table b'))"
    using assms(10) p(3) mark_verified_binds [of t r "g_my_id a" "g_pk a"] io by (auto simp: buf_def emit_def b1_def)
qed

text \<open>C16. A signed beacon proves its sender. When a node that holds a key pair whose hash is its id beacons, a node that
  hears the frame, has not verified that id before and can store it, reports the binding of id and public key to its
  controller, once, keeps it as verified, and takes over the sender's announce as far as it fits the frame: the first
  reports and routes, quantised. (Of Ed25519 only that a signature made with the secret key checks under the public key is
  used.)\<close>

theorem beacon_proves_identity:
  assumes "node_inv cr a" "node_inv cr b" "g_have_key a" "sig_len cr"
    and "\<And>m. ed_check cr (ed_sign cr (g_sk a) m) (g_pk a) m" "nid_from_pubkey (blake cr) (g_pk a) = g_my_id a"
    and "g_my_id a \<noteq> g_my_id b" "\<forall>k. (g_my_id a, k) \<notin> set (for_each_verified (g_id_table b))"
    and "\<exists>s\<in>set (nd_slots (g_id_table b)). \<not> ns_used s \<or> \<not> ns_pinned s"
  shows "\<exists>b'. on_rx cr ev (beacon_frame cr now a) rssi snr b = Some b'
    \<and> g_out b' = g_out b @ [Ann_line (g_my_id a) (g_pk a)]
    \<and> (g_my_id a, g_pk a) \<in> set (for_each_verified (g_id_table b'))
    \<and> g_router b' = on_beacon (g_router b) (g_my_id a) (quality_from_rf snr rssi)
        (announce_view (build_announce (g_router a) Announce_init) BEACON_ANN_CAP) (ev_now ev)"
proof -
  obtain b' where b': "on_rx cr ev (beacon_frame cr now a) rssi snr b = Some b'"
    "g_router b' = on_beacon (g_router b) (g_my_id a) (quality_from_rf snr rssi) (beacon_view (g_router a)) (ev_now ev)"
    using beacon_received [OF assms(1-4,7)] by blast
  then show ?thesis using signed_beacon_verified [OF assms(2,1,3-9) b'(1)] by blast
qed

definition demo_peer :: "u8 \<Rightarrow> node" where
  "demo_peer k = node_boot (nid_read (replicate 16 k)) (replicate 32 k) (replicate 32 k) demo_cfg"

lemma demo_peer_inv: "node_inv cr (demo_peer k)"
  by (simp add: demo_peer_def boot_inv)

lemma demo_peer_fields [simp]:
  "g_my_id (demo_peer k) = nid_read (replicate 16 k)" "g_pk (demo_peer k) = replicate 32 k" "g_sk (demo_peer k) = replicate 32 k"
  "g_have_key (demo_peer k)" "g_id_table (demo_peer k) = NodeTable_init" "g_router (demo_peer k) = Router_init (nid_read (replicate 16 k))"
  "g_out (demo_peer k) = []"
  by (simp_all add: demo_peer_def node_boot_def)

lemma toy_crypto_laws: "sig_len toy_crypto" "ed_check toy_crypto (ed_sign toy_crypto k m) k m"
  by (simp_all add: sig_len_def toy_crypto_def toy_sign_ok)

theorem beacon_proves_identity_witness:
  "\<exists>b'. on_rx toy_crypto \<lparr>ev_now = 9, ev_rnd = 0, ev_cfg_ok = True\<rparr> (beacon_frame toy_crypto 5 (demo_peer 7)) 0 0 (demo_peer 8) = Some b'
     \<and> g_out b' = [Ann_line (nid_read (replicate 16 7)) (replicate 32 7)]"
proof -
  have "nid_read (replicate 16 7) \<noteq> nid_read (replicate 16 (8 :: u8))" by code_simp
  moreover have "nid_from_pubkey (blake toy_crypto) (replicate 32 7) = nid_read (replicate 16 7)"
    by (simp add: nid_from_pubkey_def toy_crypto_def)
  moreover have "for_each_verified NodeTable_init = []" "\<exists>s\<in>set (nd_slots NodeTable_init). \<not> ns_used s \<or> \<not> ns_pinned s"
    by (simp_all add: for_each_verified_def NodeTable_init_def Nslot_init_def NODE_TABLE_CAP_def)
  ultimately show ?thesis
    using beacon_proves_identity [OF demo_peer_inv demo_peer_inv, of 7 toy_crypto 8 "\<lparr>ev_now = 9, ev_rnd = 0, ev_cfg_ok = True\<rparr>" 5 0 0]
    by (auto simp: toy_crypto_laws)
qed

section \<open>Crowded beacons\<close>

lemma fitting_length_ge: "off + n * sz \<le> cap \<Longrightarrow> n \<le> length xs \<Longrightarrow> n \<le> length (fitting sz cap off xs)"
proof (induction xs arbitrary: off n)
  case (Cons x xs)
  show ?case
  proof (cases n)
    case (Suc m)
    then show ?thesis using Cons.IH [of "off + sz" m] Cons.prems by simp
  qed simp
qed simp

definition heard_count :: "router \<Rightarrow> nat" where
  "heard_count r = length (filter (\<lambda>n. n_used n \<and> \<not> n_q_rx n < 0) (nt_slots (ro_neighbors r)))"

lemma crowded_no_routes:
  assumes "5 \<le> heard_count r"
  shows "a_routes (announce_view (build_announce r Announce_init) BEACON_ANN_CAP) = []"
proof -
  let ?a = "build_announce r Announce_init"
  have h: "announce_hdr_len (a_has_caps ?a) = 4" by (simp add: announce_hdr_len_def announce_sizes build_announce_def Announce_init_def)
  have "5 \<le> length (fit_reports ?a BEACON_ANN_CAP)"
    using assms unfolding fit_reports_def h by (intro fitting_length_ge) (simp_all add: announce_sizes BEACON_ANN_CAP_def heard_count_def build_announce_def)
  then have "fit_routes ?a BEACON_ANN_CAP = []"
    unfolding fit_routes_def h by (cases "a_routes ?a") (simp_all add: announce_sizes BEACON_ANN_CAP_def)
  then show ?thesis by (simp add: announce_view_def)
qed

lemma on_beacon_no_routes:
  assumes "router_inv r" "a_routes a = []" "d \<noteq> ro_my_id r"
  shows "next_hop (on_beacon r i q a now) d = next_hop r d"
  using assms router_set_self [OF assms(1)] by (simp add: on_beacon_def Let_def next_hop_def rt_next_hop_for_def)

text \<open>C38. A signing node with five or more neighbours disappears from the routing. The reports of five neighbours leave no
  room for a single 35-byte route in the 115 bytes a signed beacon has for its announce, not even for the route to the
  node itself: whoever hears its beacons learns the link but no route, neither to that node nor through it.\<close>

theorem crowded_beacon_hides_node:
  assumes "node_inv cr a" "node_inv cr b" "g_have_key a" "sig_len cr" "g_my_id a \<noteq> g_my_id b" "5 \<le> heard_count (g_router a)"
  shows "\<exists>b'. on_rx cr ev (beacon_frame cr now a) rssi snr b = Some b'
    \<and> (\<forall>d. d \<noteq> g_my_id b \<longrightarrow> next_hop (g_router b') d = next_hop (g_router b) d)"
proof -
  obtain b' where b': "on_rx cr ev (beacon_frame cr now a) rssi snr b = Some b'"
    "g_router b' = on_beacon (g_router b) (g_my_id a) (quality_from_rf snr rssi) (beacon_view (g_router a)) (ev_now ev)"
    using beacon_received [OF assms(1-5)] by blast
  have "next_hop (g_router b') d = next_hop (g_router b) d" if "d \<noteq> g_my_id b" for d
    unfolding b'(2) using node_invD(2,3) [OF assms(2)] that crowded_no_routes [OF assms(6)] by (intro on_beacon_no_routes) simp_all
  then show ?thesis using b'(1) by blast
qed


definition demo_hub_router :: router where
  "demo_hub_router = fold (\<lambda>k r. on_beacon r (nid_from_u32 k) 1 Announce_init 5) [11, 12, 13, 14, 15] (Router_init (nid_read (replicate 16 7)))"

theorem crowded_beacon_hides_node_witness:
  "\<exists>b'. on_rx toy_crypto \<lparr>ev_now = 9, ev_rnd = 0, ev_cfg_ok = True\<rparr> (beacon_frame toy_crypto 5 ((demo_peer 7)\<lparr>g_router := demo_hub_router\<rparr>)) 0 0 (demo_peer 8) = Some b'
     \<and> next_hop (g_router b') (nid_read (replicate 16 7)) = nid_zero"
proof -
  have ann: "ann_ok Announce_init" by (simp add: ann_ok_def Announce_init_def)
  have r: "router_inv demo_hub_router" "ro_my_id demo_hub_router = nid_read (replicate 16 7)"
    by (simp_all add: demo_hub_router_def router_inv_on_beacon ann router_inv_init on_beacon_my_id) (simp add: Router_init_def)
  then have a: "node_inv toy_crypto ((demo_peer 7)\<lparr>g_router := demo_hub_router\<rparr>)" by (intro node_inv_part(5) demo_peer_inv) simp_all
  have "nid_read (replicate 16 7) \<noteq> nid_read (replicate 16 (8 :: u8))" "5 \<le> heard_count demo_hub_router"
    "next_hop (Router_init (nid_read (replicate 16 8))) (nid_read (replicate 16 7)) = nid_zero" by code_simp+
  then show ?thesis
    using crowded_beacon_hides_node [OF a demo_peer_inv, of 8 "\<lparr>ev_now = 9, ev_rnd = 0, ev_cfg_ok = True\<rparr>" 5 0 0]
    by (auto simp: toy_crypto_laws)
qed

section \<open>One hop with acknowledgement\<close>

lemma ack_undoes_track:
  assumes "find_idx (\<lambda>p. \<not> pd_used p) (aq_slots a) = Some i" "length f \<le> ARQ_FRAME_MAX" "\<forall>p\<in>set (aq_slots a). pd_used p \<longrightarrow> pd_seq p \<noteq> s"
    and "a' = snd (on_ack (snd (track a s nh f now t m)) s)"
  shows "pending_count a' = pending_count a" "\<forall>p\<in>set (aq_slots a'). pd_used p \<longrightarrow> pd_seq p \<noteq> s"
proof -
  let ?e = "\<lparr>pd_used = True, pd_seq = s, pd_next_hop = nh, pd_retries_left = m, pd_next_tx_ms = now + t, pd_timeout_ms = t, pd_frame = f\<rparr>"
  let ?ps = "(aq_slots a)[i := ?e]"
  note i = find_idx_lt [OF assms(1)]
  obtain j where j: "find_idx (\<lambda>p. pd_used p \<and> pd_seq p = s) ?ps = Some j"
    using i set_update_memI [OF i, of ?e] by (cases "find_idx (\<lambda>p. pd_used p \<and> pd_seq p = s) ?ps") (auto simp: find_idx_None_iff)
  have "j = i"
  proof (rule ccontr)
    assume "j \<noteq> i"
    then have "pd_used (aq_slots a ! j) \<and> pd_seq (aq_slots a ! j) = s" "aq_slots a ! j \<in> set (aq_slots a)"
      using find_idx_sat [OF j] find_idx_lt [OF j] by auto
    then show False using assms(3) by blast
  qed
  moreover have a': "a' = a\<lparr>aq_slots := upd_at j (\<lambda>p. p\<lparr>pd_used := False\<rparr>) ?ps, aq_acked := aq_acked a + 1\<rparr>"
    unfolding assms(4) using assms(1,2) j by (simp add: track_def on_ack_def)
  ultimately have "aq_slots a' = (aq_slots a)[i := ?e\<lparr>pd_used := False\<rparr>]" using i by (simp add: upd_at_def)
  then have sub: "set (aq_slots a') \<subseteq> insert (?e\<lparr>pd_used := False\<rparr>) (set (aq_slots a))" by (simp add: set_update_subset_insert)
  show "\<forall>p\<in>set (aq_slots a'). pd_used p \<longrightarrow> pd_seq p \<noteq> s"
  proof
    fix p assume "p \<in> set (aq_slots a')"
    with sub have "p = ?e\<lparr>pd_used := False\<rparr> \<or> p \<in> set (aq_slots a)" by (rule subsetD [THEN insertE]) simp_all
    then show "pd_used p \<longrightarrow> pd_seq p \<noteq> s" using assms(3) by (elim disjE) simp_all
  qed
  show "pending_count a' = pending_count a"
    using pending_count_release [OF j] pending_count_claim [OF assms(1), of ?e] by (simp add: a' pending_count_def)
qed

text \<open>Two nodes know each other's alias for the link between them.\<close>

definition linked :: "node \<Rightarrow> node \<Rightarrow> bool" where
  "linked a b \<longleftrightarrow> link_addr_for (g_router a) (g_my_id b) \<noteq> LINK_ADDR_NONE \<and> link_addr_for (g_router b) (g_my_id a) \<noteq> LINK_ADDR_NONE
     \<and> link_addr_for (g_router a) (g_my_id b) = router_my_alias_for (g_router b) (g_my_id a)
     \<and> link_addr_for (g_router b) (g_my_id a) = router_my_alias_for (g_router a) (g_my_id b)"

lemma alias_pair:
  assumes "router_inv r" "link_addr_for r i \<noteq> LINK_ADDR_NONE"
  shows "link_sender r (router_my_alias_for r i) (link_addr_for r i) = i" "router_my_alias_for r i \<noteq> LINK_ADDR_BROADCAST"
proof -
  note nt = router_invD(1) [OF assms(1)]
  obtain n where n: "nt_get (ro_neighbors r) i = Some n"
    using assms(2) by (cases "nt_get (ro_neighbors r) i") (auto simp: link_addr_for_def their_alias_for_def LINK_ADDR_NONE_def ALIAS_NONE_def)
  then have s: "n \<in> set (nt_slots (ro_neighbors r))" "n_used n" "n_id n = i"
    unfolding nt_get_lookup using nbr.lookup_SomeD by blast+
  then show "link_sender r (router_my_alias_for r i) (link_addr_for r i) = i"
    using neighbor_by_link_live [OF nt s(1,2)] n by (simp add: link_sender_def router_my_alias_for_def my_alias_for_def link_addr_for_def their_alias_for_def)
  show "router_my_alias_for r i \<noteq> LINK_ADDR_BROADCAST"
    using nt_invD(4) [OF nt s(1,2)] n by (simp add: router_my_alias_for_def my_alias_for_def nbr_ok_def ALIAS_BROADCAST_def LINK_ADDR_BROADCAST_def)
qed


lemma unicast_to_link:
  assumes "router_inv r" "\<not> is_zero i" "link_addr_for r i \<noteq> LINK_ADDR_NONE"
  shows "unicast_link r i q = \<lparr>lh_prev_hop = router_my_alias_for r i, lh_next_hop = link_addr_for r i, lh_link_seq = q, lh_flags = 0\<rparr>"
  using assms by (simp add: unicast_link_def link_addr_or_bcast_def)

text \<open>A directed frame that asks for it is acknowledged before it is looked at.\<close>

lemma directed_frame_acked:
  assumes "node_inv cr b" "link_addr_for (g_router b) i \<noteq> LINK_ADDR_NONE" "\<not> is_zero i"
    and "buf = mk_frame \<lparr>lh_prev_hop = link_addr_for (g_router b) i, lh_next_hop = router_my_alias_for (g_router b) i, lh_link_seq = q, lh_flags = LINK_FLAG_ACK_REQ\<rparr> h p"
    and "net_ver_of (nh_ver_type h) = PROTO_VERSION" "net_type_of (nh_ver_type h) \<noteq> PKT_BEACON" "nh_src h \<noteq> g_my_id b"
  shows "on_rx cr ev buf rssi snr b = rx_dispatch cr ev buf h (link_of buf) (send_ack i q b)"
proof -
  have hd: "frame_hdr buf = Some (Some (link_of buf, h))" unfolding assms(4) by (simp add: frame_hdr_mk)
  have fl: "LINK_FLAG_ACK_REQ AND LINK_FLAG_IS_ACK = 0" "LINK_FLAG_ACK_REQ AND LINK_FLAG_ACK_REQ \<noteq> 0" by code_simp+
  show ?thesis using on_rx_headers [OF hd assms(5,7,6)] alias_pair [OF node_invD(2) [OF assms(1)] assms(2)] assms(3) fl
    by (simp add: rx_linked_def Let_def assms(4))
qed

lemma ack_frame_received:
  assumes "node_inv cr a" "link_addr_for (g_router a) i \<noteq> LINK_ADDR_NONE" "\<not> is_zero i" "i \<noteq> g_my_id a"
    and "buf = mk_frame \<lparr>lh_prev_hop = link_addr_for (g_router a) i, lh_next_hop = router_my_alias_for (g_router a) i, lh_link_seq = q, lh_flags = LINK_FLAG_IS_ACK\<rparr>
           \<lparr>nh_ver_type = net_ver_type PKT_ACK, nh_flags = 0, nh_ttl = 1, nh_dst = d, nh_src = i, nh_pkt_id = k\<rparr> []"
  shows "on_rx cr ev buf rssi snr a = Some (a\<lparr>g_arq := snd (on_ack (g_arq a) q)\<rparr>)"
proof -
  have hd: "frame_hdr buf = Some (Some (link_of buf, \<lparr>nh_ver_type = net_ver_type PKT_ACK, nh_flags = 0, nh_ttl = 1, nh_dst = d, nh_src = i, nh_pkt_id = k\<rparr>))"
    unfolding assms(5) by (simp add: frame_hdr_mk)
  have t: "net_ver_of (net_ver_type PKT_ACK) = PROTO_VERSION" "net_type_of (net_ver_type PKT_ACK) \<noteq> PKT_BEACON"
    "LINK_FLAG_IS_ACK AND LINK_FLAG_IS_ACK \<noteq> 0" by code_simp+
  show ?thesis using on_rx_headers [OF hd] t assms(3,4) alias_pair [OF node_invD(2) [OF assms(1)] assms(2)]
    by (simp add: rx_linked_def Let_def assms(5))
qed

lemma linked_plain [simp]:
  "linked (a\<lparr>g_forwarder := f\<rparr>) b = linked a b" "linked (a\<lparr>g_tunnel_mode := t\<rparr>) b = linked a b" "linked a (b\<lparr>g_tunnel_mode := t\<rparr>) = linked a b"
  by (simp_all add: linked_def)

lemma linked_known: "linked a b \<Longrightarrow> link_addr_for (g_router b) (g_my_id a) \<noteq> LINK_ADDR_NONE"
  unfolding linked_def by blast

text \<open>The frame a unicast puts on the link, and what the neighbour does with it.\<close>

lemma hop_frame:
  assumes "node_inv cr a" "node_inv cr b" "linked a b" "\<not> is_zero (g_my_id a)" "\<not> is_zero (g_my_id b)"
    and "net_ver_of (nh_ver_type h) = PROTO_VERSION" "net_type_of (nh_ver_type h) \<noteq> PKT_BEACON" "nh_src h \<noteq> g_my_id b" "length p \<le> 214"
    and "txq_count (g_txq a) < TXQ_DEPTH"
    and "s = fst (next_seq (g_arq a))"
    and "f = mk_frame \<lparr>lh_prev_hop = link_addr_for (g_router b) (g_my_id a), lh_next_hop = router_my_alias_for (g_router b) (g_my_id a),
              lh_link_seq = s, lh_flags = LINK_FLAG_ACK_REQ\<rparr> h p"
  shows "txq_contents (g_txq (tx_unicast now (mk_frame (unicast_link (g_router a) (g_my_id b) q) h p) (g_my_id b) a)) = txq_contents (g_txq a) @ [f]"
    and "on_rx cr ev f rssi snr b = rx_dispatch cr ev f h (link_of f) (send_ack (g_my_id a) s b)"
    and "link_addr_for (g_router a) (g_my_id b) \<noteq> LINK_ADDR_BROADCAST"
proof -
  let ?i = "g_my_id a" and ?j = "g_my_id b"
  have l: "link_addr_for (g_router a) ?j \<noteq> LINK_ADDR_NONE" "link_addr_for (g_router b) ?i \<noteq> LINK_ADDR_NONE"
    "router_my_alias_for (g_router b) ?i = link_addr_for (g_router a) ?j" "router_my_alias_for (g_router a) ?j = link_addr_for (g_router b) ?i"
    using assms(3) unfolding linked_def by metis+
  show nb: "link_addr_for (g_router a) ?j \<noteq> LINK_ADDR_BROADCAST" using alias_pair(2) [OF node_invD(2) [OF assms(2)] l(2)] l(3) by simp
  have "txq_ok (g_txq a)" using node_invD(1) [OF assms(1)] by (simp add: tx_inv_def)
  from tx_unicast_queued [OF this assms(10,9)] unicast_to_link [OF node_invD(2) [OF assms(1)] assms(5) l(1), of q] nb l
  show "txq_contents (g_txq (tx_unicast now (mk_frame (unicast_link (g_router a) ?j q) h p) ?j a)) = txq_contents (g_txq a) @ [f]"
    by (simp add: assms(11,12))
  show "on_rx cr ev f rssi snr b = rx_dispatch cr ev f h (link_of f) (send_ack ?i s b)"
    using directed_frame_acked [OF assms(2) l(2) assms(4,12) assms(6-8)] .
qed

lemma arq_free_slot:
  assumes "arq_inv a" "pending_count a < ARQ_MAX_PENDING"
  shows "\<exists>i. find_idx (\<lambda>x. \<not> pd_used x) (aq_slots a) = Some i"
proof (cases "find_idx (\<lambda>x. \<not> pd_used x) (aq_slots a)")
  case None
  then have "count_if pd_used (aq_slots a) = length (aq_slots a)" by (simp add: find_idx_None_iff count_if_def)
  then show ?thesis using assms by (simp add: pending_count_def arq_inv_def)
qed simp

lemma track_kept:
  assumes "find_idx (\<lambda>x. \<not> pd_used x) (aq_slots a) = Some i" "length f \<le> ARQ_FRAME_MAX"
  shows "\<exists>x\<in>set (aq_slots (snd (track a s nh f now t m))). pd_used x \<and> pd_seq x = s \<and> pd_frame x = f"
  using assms find_idx_lt [OF assms(1)]
  by (auto simp: track_def intro!: bexI [of _ "\<lparr>pd_used = True, pd_seq = s, pd_next_hop = nh, pd_retries_left = m, pd_next_tx_ms = now + t, pd_timeout_ms = t, pd_frame = f\<rparr>"] set_update_memI)

text \<open>C8. A hop is acknowledged and then forgotten. A node sends a packet to a neighbour, each knowing the other's alias of
  their link, with room in both transmit queues and a free slot for retransmission. The frame that is queued is kept for
  retransmission and makes the neighbour queue an ACK before it does anything else with the packet, whatever that packet is and even when it is a
  duplicate. That ACK, when it comes back, clears exactly this frame from the sender's retransmission slots, which are as
  many as before the send, and changes nothing else at the sender.\<close>

theorem hop_acknowledged:
  assumes "node_inv cr a" "node_inv cr b" "linked a b" "\<not> is_zero (g_my_id a)" "\<not> is_zero (g_my_id b)" "g_my_id a \<noteq> g_my_id b"
    and "net_ver_of (nh_ver_type h) = PROTO_VERSION" "net_type_of (nh_ver_type h) \<noteq> PKT_BEACON" "nh_src h \<noteq> g_my_id b" "length p \<le> 214"
    and "txq_count (g_txq a) < TXQ_DEPTH" "txq_count (g_txq b) < TXQ_DEPTH" "pending_count (g_arq a) < ARQ_MAX_PENDING"
    and "\<forall>x\<in>set (aq_slots (g_arq a)). pd_used x \<longrightarrow> pd_seq x \<noteq> fst (next_seq (g_arq a))"
    and "a1 = tx_unicast now (mk_frame (unicast_link (g_router a) (g_my_id b) q) h p) (g_my_id b) a"
  shows "\<exists>f b1 k. txq_contents (g_txq a1) = txq_contents (g_txq a) @ [f]
    \<and> (\<exists>x\<in>set (aq_slots (g_arq a1)). pd_used x \<and> pd_seq x = fst (next_seq (g_arq a)) \<and> pd_frame x = f)
    \<and> on_rx cr ev f rssi snr b = rx_dispatch cr ev f h (link_of f) b1
    \<and> txq_contents (g_txq b1) = txq_contents (g_txq b) @ [k]
    \<and> (\<exists>arq. on_rx cr ev' k rssi' snr' a1 = Some (a1\<lparr>g_arq := arq\<rparr>) \<and> pending_count arq = pending_count (g_arq a)
        \<and> (\<forall>x\<in>set (aq_slots arq). pd_used x \<longrightarrow> pd_seq x \<noteq> fst (next_seq (g_arq a))))"
proof -
  let ?i = "g_my_id a" and ?j = "g_my_id b"
  define s where "s = fst (next_seq (g_arq a))"
  have l: "link_addr_for (g_router a) ?j \<noteq> LINK_ADDR_NONE" "link_addr_for (g_router b) ?i \<noteq> LINK_ADDR_NONE"
    "router_my_alias_for (g_router b) ?i = link_addr_for (g_router a) ?j" "router_my_alias_for (g_router a) ?j = link_addr_for (g_router b) ?i"
    using assms(3) unfolding linked_def by metis+
  define f where "f = mk_frame \<lparr>lh_prev_hop = link_addr_for (g_router b) ?i, lh_next_hop = router_my_alias_for (g_router b) ?i, lh_link_seq = s, lh_flags = LINK_FLAG_ACK_REQ\<rparr> h p"
  define k where "k = mk_frame \<lparr>lh_prev_hop = link_addr_for (g_router a) ?j, lh_next_hop = router_my_alias_for (g_router a) ?j, lh_link_seq = s, lh_flags = LINK_FLAG_IS_ACK\<rparr>
      \<lparr>nh_ver_type = net_ver_type PKT_ACK, nh_flags = 0, nh_ttl = 1, nh_dst = ?i, nh_src = ?j, nh_pkt_id = ucast s\<rparr> []"
  note hop = hop_frame [OF assms(1-5,7-11) s_def f_def]
  note ul = unicast_to_link [OF node_invD(2) [OF assms(1)] assms(5) l(1), of q]
  have 1: "txq_contents (g_txq a1) = txq_contents (g_txq a) @ [f]" unfolding assms(15) by (rule hop(1))
  have 2: "on_rx cr ev f rssi snr b = rx_dispatch cr ev f h (link_of f) (send_ack ?i s b)" by (rule hop(2))
  have nb: "link_addr_for (g_router a) ?j \<noteq> LINK_ADDR_BROADCAST" by (rule hop(3))
  have 3: "txq_contents (g_txq (send_ack ?i s b)) = txq_contents (g_txq b) @ [k]"
  proof -
    have "send_ack ?i s b = txq_put k b" using l by (simp add: send_ack_def Let_def k_def link_addr_or_bcast_def)
    moreover have "fst (txq_push k (g_txq b))" using assms(12) by (simp add: txq_push_def k_def frame_sizes)
    moreover have "txq_ok (g_txq b)" using node_invD(1) [OF assms(2)] by (simp add: tx_inv_def)
    ultimately show ?thesis using txq.push_contents [of "g_txq b" k] by (simp add: txq_put_def)
  qed
  define a0 where "a0 = snd (next_seq (g_arq a))"
  have s0: "aq_slots a0 = aq_slots (g_arq a)" by (simp add: a0_def next_seq_def Let_def)
  have arq: "g_arq a1 = snd (track a0 s ?j f now ARQ_TIMEOUT_MS ARQ_MAX_RETRIES)" and v: "ctl_view a1 = ctl_view a"
    unfolding assms(15) using nb l by (simp_all add: tx_unicast_def Let_def case_prod_unfold ul txq_put_def f_def s_def a0_def ctl_view_def)
  have "arq_inv (g_arq a)" using node_invD(1) [OF assms(1)] by (simp add: tx_inv_def)
  then obtain i where i: "find_idx (\<lambda>x. \<not> pd_used x) (aq_slots a0) = Some i" using arq_free_slot [OF _ assms(13)] s0 by metis
  have lf: "length f \<le> ARQ_FRAME_MAX" using assms(10) by (simp add: f_def HEADER_BYTES_def ARQ_FRAME_MAX_def)
  have fr: "\<forall>x\<in>set (aq_slots a0). pd_used x \<longrightarrow> pd_seq x \<noteq> s" using assms(14) by (simp add: s0 s_def)
  note undone = ack_undoes_track [OF i lf fr refl, of ?j now ARQ_TIMEOUT_MS ARQ_MAX_RETRIES]
  have "node_inv cr a1" unfolding assms(15) using assms(1,10) by (intro inv_intros) simp_all
  from ack_frame_received [OF this, of ?j k s ?i "ucast s" ev' rssi' snr'] l(1) assms(5,6) ctl_viewD [OF v]
  have 4: "on_rx cr ev' k rssi' snr' a1 = Some (a1\<lparr>g_arq := snd (on_ack (g_arq a1) s)\<rparr>)" by (simp add: k_def)
  then have "\<exists>arq. on_rx cr ev' k rssi' snr' a1 = Some (a1\<lparr>g_arq := arq\<rparr>) \<and> pending_count arq = pending_count (g_arq a)
      \<and> (\<forall>x\<in>set (aq_slots arq). pd_used x \<longrightarrow> pd_seq x \<noteq> s)"
    using undone by (intro exI [of _ "snd (on_ack (g_arq a1) s)"]) (simp add: arq pending_count_def s0)
  moreover have "\<exists>x\<in>set (aq_slots (g_arq a1)). pd_used x \<and> pd_seq x = s \<and> pd_frame x = f"
    unfolding arq by (rule track_kept [OF i lf])
  ultimately show ?thesis using 1 2 3 unfolding s_def by blast
qed

text \<open>Two routers after three beacons.\<close>

definition demo_r7 :: router where
  "demo_r7 = on_beacon (Router_init (nid_read (replicate 16 7))) (nid_read (replicate 16 8)) 1 Announce_init 5"

definition demo_r8 :: router where
  "demo_r8 = on_beacon (Router_init (nid_read (replicate 16 8))) (nid_read (replicate 16 7)) 1 (build_announce demo_r7 Announce_init) 6"

definition demo_r7' :: router where
  "demo_r7' = on_beacon demo_r7 (nid_read (replicate 16 8)) 1 (build_announce demo_r8 Announce_init) 7"

definition demo_a :: node where "demo_a = (demo_peer 7)\<lparr>g_router := demo_r7'\<rparr>"
definition demo_b :: node where "demo_b = (demo_peer 8)\<lparr>g_router := demo_r8\<rparr>"

text \<open>The one-byte aliases each router gave the other, and the one it heard of itself.\<close>

lemma demo_link_a: "link_addr_for demo_r7' (nid_read (replicate 16 8)) = 168" by code_simp

lemma demo_link_b: "link_addr_for demo_r8 (nid_read (replicate 16 7)) = 180" by code_simp

lemma demo_alias_a: "router_my_alias_for demo_r7' (nid_read (replicate 16 8)) = 180" by code_simp

lemma demo_alias_b: "router_my_alias_for demo_r8 (nid_read (replicate 16 7)) = 168" by code_simp

lemma demo_announces: "ann_ok (build_announce demo_r7 Announce_init)" "ann_ok (build_announce demo_r8 Announce_init)" by code_simp+

lemma demo_route: "next_hop demo_r7' (nid_read (replicate 16 8)) = nid_read (replicate 16 8)"
  by code_simp

lemma demo_pair:
  "node_inv cr demo_a" "node_inv cr demo_b" "linked demo_a demo_b" "g_my_id demo_a = nid_read (replicate 16 7)" "g_my_id demo_b = nid_read (replicate 16 8)"
  "g_txq demo_a = TxQueue_init" "g_txq demo_b = TxQueue_init" "g_arq demo_a = LinkArq_init"
proof -
  have "ann_ok Announce_init" by code_simp
  with demo_announces have "router_inv demo_r8" "router_inv demo_r7'" "ro_my_id demo_r8 = nid_read (replicate 16 8)" "ro_my_id demo_r7' = nid_read (replicate 16 7)"
    by (simp_all add: demo_r7_def demo_r8_def demo_r7'_def router_inv_on_beacon router_inv_init on_beacon_my_id) (simp_all add: Router_init_def)
  then show "node_inv cr demo_a" "node_inv cr demo_b" unfolding demo_a_def demo_b_def by (intro node_inv_part(5) demo_peer_inv; simp)+
  show "linked demo_a demo_b"
    by (simp add: linked_def demo_a_def demo_b_def demo_link_a demo_link_b demo_alias_a demo_alias_b LINK_ADDR_NONE_def)
qed (simp_all add: demo_a_def demo_b_def demo_peer_def node_boot_def)

theorem hop_acknowledged_witness:
  "\<exists>f b1 k. txq_contents (g_txq (send_data_bytes 3 (nid_read (replicate 16 8)) [1, 2] demo_a)) = [f]
    \<and> txq_contents (g_txq b1) = [k]
    \<and> on_rx toy_crypto \<lparr>ev_now = 9, ev_rnd = 0, ev_cfg_ok = True\<rparr> f 0 0 demo_b = rx_dispatch toy_crypto \<lparr>ev_now = 9, ev_rnd = 0, ev_cfg_ok = True\<rparr> f
        \<lparr>nh_ver_type = net_ver_type PKT_DATA, nh_flags = 0, nh_ttl = DEFAULT_TTL, nh_dst = nid_read (replicate 16 8), nh_src = nid_read (replicate 16 7), nh_pkt_id = 0\<rparr> (link_of f) b1"
proof -
  let ?h = "\<lparr>nh_ver_type = net_ver_type PKT_DATA, nh_flags = 0, nh_ttl = DEFAULT_TTL, nh_dst = nid_read (replicate 16 8), nh_src = nid_read (replicate 16 7), nh_pkt_id = 0\<rparr>"
  let ?a = "demo_a\<lparr>g_forwarder := mark_seen (g_forwarder demo_a) (g_my_id demo_a) 0\<rparr>"
  let ?ev = "\<lparr>ev_now = 9, ev_rnd = 0, ev_cfg_ok = True\<rparr>"
  have d: "g_data_seq demo_a = 0" by (simp add: demo_a_def demo_peer_def node_boot_def)
  have nh: "next_hop (g_router demo_a) (nid_read (replicate 16 8)) = nid_read (replicate 16 8)" using demo_route by (simp add: demo_a_def)
  have "net_ver_of (net_ver_type PKT_DATA) = PROTO_VERSION" "net_type_of (net_ver_type PKT_DATA) \<noteq> PKT_BEACON"
    "\<not> is_zero (nid_read (replicate 16 7))" "\<not> is_zero (nid_read (replicate 16 8))" "nid_read (replicate 16 7) \<noteq> nid_read (replicate 16 (8 :: u8))"
    "pending_count LinkArq_init < ARQ_MAX_PENDING" "txq_count TxQueue_init < TXQ_DEPTH"
    "\<forall>x\<in>set (aq_slots LinkArq_init). \<not> pd_used x" by code_simp+
  moreover have "node_inv toy_crypto ?a" by (intro inv_intros demo_pair)
  moreover have "linked ?a demo_b" using demo_pair(3) by simp
  moreover have "send_data_bytes 3 (nid_read (replicate 16 8)) [1, 2] demo_a
      = (tx_unicast 3 (mk_frame (unicast_link (g_router ?a) (g_my_id demo_b) 0) ?h [1, 2]) (g_my_id demo_b) ?a)
          \<lparr>g_data_seq := g_data_seq (tx_unicast 3 (mk_frame (unicast_link (g_router ?a) (g_my_id demo_b) 0) ?h [1, 2]) (g_my_id demo_b) ?a) + 1\<rparr>"
    by (simp add: send_data_bytes_def nh d demo_pair frame_sizes Let_def)
  ultimately show ?thesis
    using hop_acknowledged [of toy_crypto ?a demo_b ?h "[1, 2]" _ 3 0 ?ev 0 0 ?ev 0 0, OF _ demo_pair(2) _ _ _ _ _ _ _ _ _ _ _ _ refl]
    by (simp add: demo_pair txq_ok_init) metis
qed

section \<open>Repair of a transfer\<close>

text \<open>The fragments the sender picks in \<open>k\<close> turns of \<^verbatim>\<open>sar_tx_tick\<close>.\<close>

fun sar_picks :: "nat \<Rightarrow> u32 \<Rightarrow> xfer_state \<Rightarrow> (u16 list \<times> xfer_state) option" where
  "sar_picks 0 now x = Some ([], x)"
| "sar_picks (Suc k) now x =
     (if xs_tx_active x \<or> xs_resend_active x
      then do { (i, x) \<leftarrow> sar_pick now x; (js, x) \<leftarrow> sar_picks k now x; Some (i # js, x) }
      else Some ([], x))"

lemma sar_picks_resend:
  assumes "\<not> xs_tx_active x" "xs_resend_active x" "xs_resend_idx x < length (xs_resend x)" "k = length (xs_resend x) - xs_resend_idx x"
  shows "\<exists>x'. sar_picks k now x = Some (drop (xs_resend_idx x) (xs_resend x), x') \<and> \<not> xs_tx_active x' \<and> \<not> xs_resend_active x'
    \<and> xs_buf x' = xs_buf x \<and> xs_xfer_id x' = xs_xfer_id x \<and> xs_crc x' = xs_crc x"
  using assms
proof (induction k arbitrary: x)
  case (Suc k)
  let ?x = "x\<lparr>xs_resend_idx := xs_resend_idx x + 1\<rparr>"
  have d: "drop (xs_resend_idx x) (xs_resend x) = xs_resend x ! xs_resend_idx x # drop (xs_resend_idx x + 1) (xs_resend x)"
    using Suc.prems(3) by (simp add: Cons_nth_drop_Suc)
  show ?case
  proof (cases k)
    case 0
    then have "length (xs_resend x) \<le> xs_resend_idx x + 1" using Suc.prems(4) by simp
    then show ?thesis using Suc.prems(1-3) 0 by (simp add: sar_pick_def Let_def d)
  next
    case (Suc k')
    then have "xs_resend_idx ?x < length (xs_resend ?x)" "k = length (xs_resend ?x) - xs_resend_idx ?x" using Suc.prems(4) by simp_all
    from Suc.IH [of ?x] this Suc.prems(1-3) show ?thesis by (auto simp: sar_pick_def Let_def d)
  qed
qed simp


lemma nack_fits:
  assumes "length blob \<le> 8192" "sar_holds blob xfer crc S r"
  shows "length (sar_missing r SAR_MAX_FRAGS) \<le> 52"
proof -
  have "length (sar_missing r SAR_MAX_FRAGS) \<le> length [0..<frag_total (length blob)]"
    unfolding sar_holds_all(3) [OF assms] length_map by (rule length_filter_le)
  then show ?thesis using frag_total_bound [OF assms(1)] by simp
qed

text \<open>C7. One round of repair is enough. A receiver holds some of the fragments of a payload, not all of them. The request it sends
  fits one frame and names every missing fragment; the sender, done with its first pass, takes the request as it arrives, sends
  exactly the missing fragments in as many turns, and is done again. With these the receiver has the payload, complete and
  with the right check sum.\<close>

theorem nack_round_completes:
  assumes "length blob \<le> SAR_MAX_FILE" "sar_holds blob (xs_xfer_id (g_xfer n)) (sar_crc32 blob) S r" "\<not> sar_complete r"
    and "xs_buf (g_xfer n) = blob" "xs_crc (g_xfer n) = sar_crc32 blob" "\<not> xs_tx_active (g_xfer n)"
  shows "\<exists>nack n' x' r'. sar_build_nack (sr_xfer_id r) (sar_missing r SAR_MAX_FRAGS) (MAX_PAYLOAD - HEADER_BYTES) = Some nack
    \<and> sar_is_nack nack \<and> data_nack nack src n = Some n' \<and> xs_tx_dst (g_xfer n') = src
    \<and> sar_picks (length (sar_missing r SAR_MAX_FRAGS)) now (g_xfer n') = Some (sar_missing r SAR_MAX_FRAGS, x')
    \<and> \<not> xs_tx_active x' \<and> \<not> xs_resend_active x'
    \<and> sar_feed (map (\<lambda>i. the (sar_build_fragment (xs_buf x') (xs_xfer_id x') (xs_crc x') i (1 + SAR_HDR_BYTES + SAR_CHUNK)))
          (sar_missing r SAR_MAX_FRAGS)) r = Some r'
    \<and> sar_verify r' \<and> take (unat (sr_total_len r')) (sr_buf r') = blob"
proof -
  let ?x = "g_xfer n" and ?ms = "sar_missing r SAR_MAX_FRAGS" and ?T = "frag_total (length blob)"
  let ?is = "filter (\<lambda>i. i \<notin> S) [0..<?T]"
  have T: "length blob \<le> 8192" using assms(1) by (simp add: SAR_MAX_FILE_def)
  note hold = sar_holds_all [OF T assms(2)]
  have ms: "?ms = map of_nat ?is" by (rule hold(3))
  have S: "S \<subseteq> {..<?T}" using assms(2) frag_total_bound [OF T] by (auto simp: sar_holds_def sar_got_set_def take_bit_nat_eq_self unat_of_nat)
  have "?ms \<noteq> []" using assms(3) S unfolding hold(1) ms by (auto simp: filter_empty_conv)
  have id: "sr_xfer_id r = xs_xfer_id ?x" using assms(2) by (simp add: sar_holds_def)
  obtain nack where k: "sar_build_nack (sr_xfer_id r) ?ms (MAX_PAYLOAD - HEADER_BYTES) = Some nack"
    by (simp add: sar_build_nack_def frame_sizes SAR_NACK_HDR_def Let_def)
  have len: "length ?ms \<le> 52" by (rule nack_fits [OF T assms(2)])
  then have p: "sar_parse_nack nack SAR_MAX_FRAGS = Some (Some (xs_xfer_id ?x, ?ms))"
    using sar_control_roundtrip [of ?ms, THEN conjunct1, rule_format, OF _ k, of "[]" SAR_MAX_FRAGS] by (simp add: id frame_sizes sar_sizes)
  have isn: "sar_is_nack nack" using p by (auto simp: sar_parse_nack_def split: if_splits)
  have "0 < length blob" using assms(3) S unfolding hold(1) by (auto simp: frag_total_def)
  define n' where "n' = set_xfer (?x\<lparr>xs_resend := ?ms, xs_resend_idx := 0, xs_resend_active := True, xs_tx_dst := src\<rparr>) n"
  have n': "data_nack nack src n = Some n'" using p assms(4) \<open>0 < length blob\<close> \<open>?ms \<noteq> []\<close> by (simp add: data_nack_def n'_def)
  have h: "xs_resend (g_xfer n') = ?ms" "xs_resend_idx (g_xfer n') = 0" "\<not> xs_tx_active (g_xfer n')" "xs_resend_active (g_xfer n')"
    using assms(6) by (simp_all add: n'_def set_xfer_def)
  have "0 < length ?ms" using \<open>?ms \<noteq> []\<close> by simp
  from sar_picks_resend [OF h(3,4), of "length ?ms" now, unfolded h(1,2) drop_0 diff_zero, OF this refl] obtain x'
    where x': "sar_picks (length ?ms) now (g_xfer n') = Some (?ms, x')" "\<not> xs_tx_active x'" "\<not> xs_resend_active x'"
      "xs_buf x' = xs_buf (g_xfer n')" "xs_xfer_id x' = xs_xfer_id (g_xfer n')" "xs_crc x' = xs_crc (g_xfer n')" by blast
  have b: "xs_buf x' = blob" "xs_xfer_id x' = xs_xfer_id ?x" "xs_crc x' = sar_crc32 blob"
    using x'(4-6) assms(4,5) by (simp_all add: n'_def set_xfer_def)
  have f: "map (\<lambda>i. the (sar_build_fragment (xs_buf x') (xs_xfer_id x') (xs_crc x') i (1 + SAR_HDR_BYTES + SAR_CHUNK))) ?ms
      = map (sar_frag blob (xs_xfer_id ?x) (sar_crc32 blob) (1 + SAR_HDR_BYTES + SAR_CHUNK)) ?is"
    unfolding ms b map_map by (simp add: sar_frag_def)
  have "178 \<le> 1 + SAR_HDR_BYTES + SAR_CHUNK" "set ?is \<subseteq> {..<?T}" by (auto simp: sar_sizes)
  from sar_feed_holds [OF T this(1) this(2) assms(2)] obtain r'
    where r': "sar_feed (map (sar_frag blob (xs_xfer_id ?x) (sar_crc32 blob) (1 + SAR_HDR_BYTES + SAR_CHUNK)) ?is) r = Some r'"
      "sar_holds blob (xs_xfer_id ?x) (sar_crc32 blob) (S \<union> set ?is) r'" by blast
  have "S \<union> set ?is = {..<?T}" using S by auto
  then have c: "sar_complete r'" "take (unat (sr_total_len r')) (sr_buf r') = blob"
    using sar_holds_all(1,2) [OF T r'(2)] by simp_all
  moreover have "sar_verify r'" using c r'(2) by (simp add: sar_verify_def sar_holds_def)
  ultimately show ?thesis using k isn n' x'(1-3) r'(1) f by (intro exI [of _ nack] exI [of _ n'] exI [of _ x'] exI [of _ r']) (simp add: n'_def set_xfer_def)
qed

definition demo_sender :: node where
  "demo_sender = set_xfer ((g_xfer (demo_peer 7))\<lparr>xs_buf := sar_blob, xs_crc := sar_crc32 sar_blob, xs_xfer_id := 7\<rparr>) (demo_peer 7)"

theorem nack_round_completes_witness:
  "\<exists>r n' x' r'. sar_add (the (sar_build_fragment sar_blob 7 (sar_crc32 sar_blob) 1 179)) SarReassembler_init = Some (True, r)
    \<and> data_nack (the (sar_build_nack 7 [0] 214)) (nid_from_u32 2) demo_sender = Some n'
    \<and> sar_picks 1 9 (g_xfer n') = Some ([0], x')
    \<and> sar_feed [the (sar_build_fragment (xs_buf x') (xs_xfer_id x') (xs_crc x') 0 179)] r = Some r'
    \<and> take (unat (sr_total_len r')) (sr_buf r') = sar_blob"
proof -
  have T: "length sar_blob \<le> 8192" "frag_total (length sar_blob) = 2" by (simp_all add: sar_blob_def frag_total_def)
  then have "\<exists>r. sar_add (sar_frag sar_blob 7 (sar_crc32 sar_blob) 179 1) SarReassembler_init = Some (True, r)
      \<and> sar_holds sar_blob 7 (sar_crc32 sar_blob) (insert 1 {}) r"
    using sar_inv_init by (intro sar_step) (simp_all, simp add: SarReassembler_init_def)
  then obtain r where r: "sar_add (sar_frag sar_blob 7 (sar_crc32 sar_blob) 179 1) SarReassembler_init = Some (True, r)"
      "sar_holds sar_blob 7 (sar_crc32 sar_blob) {1} r" by auto
  have u: "{..<2} = {0, 1 :: nat}" "[0..<2] = [0, 1 :: nat]" by (auto simp: upt_rec)
  then have m: "sar_missing r SAR_MAX_FRAGS = [0]" "\<not> sar_complete r" "sr_xfer_id r = 7"
    using sar_holds_all [OF T(1) r(2)] r(2) T(2) by (auto simp: sar_holds_def)
  have x: "xs_buf (g_xfer demo_sender) = sar_blob" "xs_crc (g_xfer demo_sender) = sar_crc32 sar_blob" "xs_xfer_id (g_xfer demo_sender) = 7"
      "\<not> xs_tx_active (g_xfer demo_sender)"
    by (simp_all add: demo_sender_def set_xfer_def demo_peer_def node_boot_def)
  have z: "length sar_blob \<le> SAR_MAX_FILE" "MAX_PAYLOAD - HEADER_BYTES = 214" "1 + SAR_HDR_BYTES + SAR_CHUNK = 179"
    using T(1) by (simp_all add: frame_sizes sar_sizes)
  from nack_round_completes [of sar_blob demo_sender "{1}" r "nid_from_u32 2" 9, unfolded x z m list.map list.size plus_nat.add_0,
      OF _ r(2) _ refl refl] z(1) m(2) x(4)
  obtain nack n' x' r' where "sar_build_nack 7 [0] 214 = Some nack" "data_nack nack (nid_from_u32 2) demo_sender = Some n'"
      "sar_picks (Suc 0) 9 (g_xfer n') = Some ([0], x')"
      "sar_feed [the (sar_build_fragment (xs_buf x') (xs_xfer_id x') (xs_crc x') 0 179)] r = Some r'"
      "take (unat (sr_total_len r')) (sr_buf r') = sar_blob" by (auto simp del: sar_picks.simps sar_feed.simps)
  then show ?thesis using r(1) unfolding sar_frag_def
    by (intro exI [of _ r] exI [of _ n'] exI [of _ x'] exI [of _ r']) (simp del: sar_picks.simps sar_feed.simps)
qed

end
