(* ===== verification/Host_Delivery.thy ===== *)
theory Host_Delivery
  imports Node_Run Node_Net
begin

text \<open>
  Payloads on their way to a host (\<^verbatim>\<open>src/src/main.cpp\<close>): how a node hands a received payload to USB or BLE, and how a packet
  travels over a path of relaying nodes. The definitions describe paths; every step on them is a handler of the node
  theories.
\<close>

section \<open>Delivery\<close>

lemma length_kiss_esc: "length (kiss_esc bs) \<le> 2 * length bs"
  by (induction bs) auto

lemma tunnel_emit_hdlc:
  assumes "\<not> (g_kiss_mode n \<and> \<not> g_ble_connected n)" "length p \<le> TUN_HOST_MAX"
  shows "tunnel_emit src p n = emit (Host_bytes (hdlc_frame (envelope src p))) n"
    and "\<not> co_in_frame s \<Longrightarrow> snd (hdlc_run (hdlc_frame (envelope src p)) s) = [envelope src p]"
proof -
  show "tunnel_emit src p n = emit (Host_bytes (hdlc_frame (envelope src p))) n"
    using assms by (auto simp: tunnel_emit_def hdlc_write_def host_write_def)
  have "envelope src p \<noteq> []" by (simp add: envelope_def)
  then show "\<not> co_in_frame s \<Longrightarrow> snd (hdlc_run (hdlc_frame (envelope src p)) s) = [envelope src p]"
    using assms(2) by (simp add: hdlc_run_frame take_envelope)
qed

lemma tunnel_emit_kiss:
  assumes "g_kiss_mode n" "\<not> g_ble_connected n" "length p \<le> TUN_HOST_MAX"
  obtains bs where "tunnel_emit src p n = emit (Host_bytes bs) n" "fst (kiss_stream bs KissDecoder_init) = [KISS_CMD_DATA # p]"
proof -
  define bs where "bs = KISS_FEND # kiss_esc (KISS_CMD_DATA # p) @ [KISS_FEND]"
  have "length bs \<le> 2 * KISS_MAX_FRAME + 3" "4 \<le> 2 * KISS_MAX_FRAME + 3"
    using length_kiss_esc [of "KISS_CMD_DATA # p"] assms(3) unfolding bs_def by (simp_all add: KISS_MAX_FRAME_def TUN_HOST_MAX_def del: kiss_esc.simps)
  then have "kiss_encode KISS_CMD_DATA p (2 * KISS_MAX_FRAME + 3) = Some bs" unfolding kiss_encode_Some bs_def by blast
  then have "tunnel_emit src p n = emit (Host_bytes bs) n" using assms by (simp add: tunnel_emit_def host_write_def)
  moreover have "kiss_stream bs KissDecoder_init = ([KISS_CMD_DATA # p], KissDecoder_init)"
    unfolding bs_def using assms(3) by (intro kiss_stream_frame) (simp_all add: KissDecoder_init_def KISS_MAX_FRAME_def TUN_HOST_MAX_def)
  then have "fst (kiss_stream bs KissDecoder_init) = [KISS_CMD_DATA # p]" by (simp only: fst_conv)
  ultimately show thesis by (rule that)
qed

text \<open>C36. A payload for this node reaches its host, except on a plain TNC. An application payload that arrives whole is written to
  the host in one piece: as an HDLC frame from which the host's decoder reads the source and exactly the payload, when a
  BLE client is attached or USB is in tunnel mode without KISS; as a KISS frame that decodes to exactly the payload, when
  both tunnel and KISS mode are on and no BLE client is attached. With KISS mode alone, the way a TNC boots, the host gets
  no KISS frame: only a line of text with the first 63 bytes.\<close>

theorem payload_to_host:
  assumes "\<not> sar_is_done pay" "\<not> sar_is_nack pay" "\<not> sar_is_fragment pay" "length pay \<le> TUN_HOST_MAX"
  shows "(g_ble_connected n \<or> g_tunnel_mode n \<and> \<not> g_kiss_mode n \<longrightarrow>
        (\<exists>bs. data_deliver now rnd pay net n = Some (emit (Host_bytes bs) n)
          \<and> (\<forall>s. \<not> co_in_frame s \<longrightarrow> snd (hdlc_run bs s) = [envelope (nh_src net) pay])))
    \<and> (g_tunnel_mode n \<and> g_kiss_mode n \<and> \<not> g_ble_connected n \<longrightarrow>
        (\<exists>bs. data_deliver now rnd pay net n = Some (emit (Host_bytes bs) n) \<and> fst (kiss_stream bs KissDecoder_init) = [KISS_CMD_DATA # pay]))
    \<and> (\<not> g_tunnel_mode n \<and> \<not> g_ble_connected n \<longrightarrow>
        data_deliver now rnd pay net n = Some (emit (Data_line (nh_src net) (nh_pkt_id net) (take 63 pay)) n))"
proof (intro conjI impI)
  assume h: "g_ble_connected n \<or> g_tunnel_mode n \<and> \<not> g_kiss_mode n"
  then have "data_deliver now rnd pay net n = Some (tunnel_emit (nh_src net) pay n)"
    using assms by (auto simp: data_deliver_def host_tunnel_active_def)
  moreover have "\<not> (g_kiss_mode n \<and> \<not> g_ble_connected n)" using h by blast
  ultimately show "\<exists>bs. data_deliver now rnd pay net n = Some (emit (Host_bytes bs) n)
          \<and> (\<forall>s. \<not> co_in_frame s \<longrightarrow> snd (hdlc_run bs s) = [envelope (nh_src net) pay])"
    using tunnel_emit_hdlc [OF _ assms(4)] by (intro exI [of _ "hdlc_frame (envelope (nh_src net) pay)"]) simp
next
  assume h: "g_tunnel_mode n \<and> g_kiss_mode n \<and> \<not> g_ble_connected n"
  then have "data_deliver now rnd pay net n = Some (tunnel_emit (nh_src net) pay n)"
    using assms by (auto simp: data_deliver_def host_tunnel_active_def)
  then show "\<exists>bs. data_deliver now rnd pay net n = Some (emit (Host_bytes bs) n) \<and> fst (kiss_stream bs KissDecoder_init) = [KISS_CMD_DATA # pay]"
    using tunnel_emit_kiss [of n pay "nh_src net"] h assms(4) by metis
next
  assume "\<not> g_tunnel_mode n \<and> \<not> g_ble_connected n"
  then show "data_deliver now rnd pay net n = Some (emit (Data_line (nh_src net) (nh_pkt_id net) (take 63 pay)) n)"
    using assms by (simp add: data_deliver_def host_tunnel_active_def)
qed

theorem payload_to_host_witness:
  "\<exists>bs. data_deliver 5 0 [0x41, 0x7E, 0xC0] \<lparr>nh_ver_type = 0, nh_flags = 0, nh_ttl = 3, nh_dst = nid_read (replicate 16 1), nh_src = nid_read (replicate 16 7), nh_pkt_id = 0\<rparr>
        ((node_boot (nid_read (replicate 16 1)) (replicate 32 1) (replicate 64 2) demo_cfg)\<lparr>g_tunnel_mode := True\<rparr>)
      = Some (emit (Host_bytes bs) ((node_boot (nid_read (replicate 16 1)) (replicate 32 1) (replicate 64 2) demo_cfg)\<lparr>g_tunnel_mode := True\<rparr>))
    \<and> snd (hdlc_run bs ConState_init) = [envelope (nid_read (replicate 16 7)) [0x41, 0x7E, 0xC0]]"
proof -
  define n where "n = (node_boot (nid_read (replicate 16 1)) (replicate 32 1) (replicate 64 2) demo_cfg)\<lparr>g_tunnel_mode := True\<rparr>"
  define h where "h = \<lparr>nh_ver_type = 0, nh_flags = 0, nh_ttl = 3, nh_dst = nid_read (replicate 16 1), nh_src = nid_read (replicate 16 7), nh_pkt_id = 0\<rparr>"
  have "g_tunnel_mode n" "\<not> g_kiss_mode n" "\<not> co_in_frame ConState_init" "nh_src h = nid_read (replicate 16 7)"
    by (simp_all add: n_def node_boot_def ConState_init_def h_def)
  moreover have "\<not> sar_is_done [0x41, 0x7E, 0xC0]" "\<not> sar_is_nack [0x41, 0x7E, 0xC0]" "\<not> sar_is_fragment [0x41, 0x7E, 0xC0]" "length [0x41, 0x7E, 0xC0 :: u8] \<le> TUN_HOST_MAX"
    by code_simp+
  ultimately have "\<exists>bs. data_deliver 5 0 [0x41, 0x7E, 0xC0] h n = Some (emit (Host_bytes bs) n) \<and> snd (hdlc_run bs ConState_init) = [envelope (nid_read (replicate 16 7)) [0x41, 0x7E, 0xC0]]"
    using payload_to_host [of "[0x41, 0x7E, 0xC0]" n 5 0 h] by auto
  then show ?thesis unfolding n_def h_def .
qed

section \<open>From host to host\<close>

lemma hop_delivered:
  assumes "nh_ver_type h = net_ver_type PKT_DATA" "nh_src h \<noteq> g_my_id n" "nh_dst h = g_my_id n" "node_inv cr n"
    and "\<not> fst (seen_or_insert (g_forwarder n) (nh_src h) (nh_pkt_id h))" "buf = mk_frame l h p"
  shows "rx_dispatch cr ev buf h (link_of buf) n =
    data_deliver (ev_now ev) (ev_rnd ev) p h (n\<lparr>g_forwarder := snd (seen_or_insert (g_forwarder n) (nh_src h) (nh_pkt_id h))\<rparr>)"
proof -
  have t: "net_type_of (net_ver_type PKT_DATA) = PKT_DATA" "PKT_DATA \<noteq> PKT_LOC" "PKT_DATA \<noteq> PKT_TELEM" "PKT_DATA \<noteq> PKT_CONTROL" by code_simp+
  have "drop HEADER_BYTES buf = p" by (simp add: assms(6) mk_frame_def HEADER_BYTES_def)
  moreover have "relay_decide h n = (drop_with DELIVER, n\<lparr>g_forwarder := snd (seen_or_insert (g_forwarder n) (nh_src h) (nh_pkt_id h))\<rparr>)"
    using assms(2,3,5) node_invD(5) [OF assms(4)] by (simp add: relay_decide_def decide_def pkt_ref_def case_prod_unfold Let_def)
  ultimately show ?thesis using t by (simp add: rx_dispatch_def on_data_rx_def assms(1) drop_with_def)
qed

lemma ack_keeps_host [simp]:
  "g_out (send_ack i q n) = g_out n" "g_tunnel_mode (send_ack i q n) = g_tunnel_mode n" "g_kiss_mode (send_ack i q n) = g_kiss_mode n"
  "g_ble_connected (send_ack i q n) = g_ble_connected n" "g_forwarder (send_ack i q n) = g_forwarder n" "g_my_id (send_ack i q n) = g_my_id n"
  by (simp_all add: send_ack_def txq_put_def Let_def)

text \<open>A frame for node \<open>n\<close> on its link with \<open>i\<close>, as a unicast puts it on the air.\<close>

definition hop_to :: "node_id \<Rightarrow> u8 \<Rightarrow> net_header \<Rightarrow> bytes \<Rightarrow> node \<Rightarrow> bytes" where
  "hop_to i s h p n = mk_frame \<lparr>lh_prev_hop = link_addr_for (g_router n) i, lh_next_hop = router_my_alias_for (g_router n) i,
     lh_link_seq = s, lh_flags = LINK_FLAG_ACK_REQ\<rparr> h p"

text \<open>What a node on the path needs: it has not seen the packet, it is not its source, and its queue has room for the
  acknowledgement and the packet.\<close>

definition relay_ready :: "crypto \<Rightarrow> net_header \<Rightarrow> node \<Rightarrow> bool" where
  "relay_ready cr h n \<longleftrightarrow> node_inv cr n \<and> \<not> is_zero (g_my_id n) \<and> g_my_id n \<noteq> nh_src h
     \<and> \<not> fst (seen_or_insert (g_forwarder n) (nh_src h) (nh_pkt_id h)) \<and> txq_count (g_txq n) + 2 \<le> TXQ_DEPTH"

text \<open>Each node of the path routes the destination to the next one.\<close>

fun routed :: "node_id \<Rightarrow> node list \<Rightarrow> bool" where
  "routed d (n # m # ns) \<longleftrightarrow> linked n m \<and> next_hop (g_router n) d = g_my_id m \<and> g_my_id n \<noteq> d \<and> routed d (m # ns)"
| "routed d _ \<longleftrightarrow> True"

text \<open>A frame carried along a path: every node hears it and the frame it queues last is heard by the next.\<close>

fun carry :: "crypto \<Rightarrow> rx_env \<Rightarrow> float32 \<Rightarrow> float32 \<Rightarrow> node list \<Rightarrow> bytes \<Rightarrow> node option" where
  "carry cr ev rssi snr [] f = None"
| "carry cr ev rssi snr [n] f = on_rx cr ev f rssi snr n"
| "carry cr ev rssi snr (n # m # ns) f = do { n' \<leftarrow> on_rx cr ev f rssi snr n; carry cr ev rssi snr (m # ns) (last (txq_contents (g_txq n'))) }"

lemma hop_heard:
  assumes "node_inv cr n" "link_addr_for (g_router n) i \<noteq> LINK_ADDR_NONE" "\<not> is_zero i" "nh_ver_type h = net_ver_type PKT_DATA" "nh_src h \<noteq> g_my_id n"
  shows "on_rx cr ev (hop_to i s h p n) rssi snr n = rx_dispatch cr ev (hop_to i s h p n) h (link_of (hop_to i s h p n)) (send_ack i s n)"
proof -
  have "net_ver_of (net_ver_type PKT_DATA) = PROTO_VERSION" "net_type_of (net_ver_type PKT_DATA) \<noteq> PKT_BEACON" by code_simp+
  with directed_frame_acked [OF assms(1-3) hop_to_def] assms(4,5) show ?thesis by simp
qed

lemma send_ack_queue:
  assumes "txq_ok (g_txq n)" "txq_count (g_txq n) < TXQ_DEPTH"
  shows "txq_ok (g_txq (send_ack i q n))" "txq_count (g_txq (send_ack i q n)) \<le> txq_count (g_txq n) + 1" "g_arq (send_ack i q n) = g_arq n"
proof -
  show "txq_ok (g_txq (send_ack i q n))" using txq.push_ok [OF assms(1)] by (simp add: send_ack_def txq_put_def Let_def)
  show "txq_count (g_txq (send_ack i q n)) \<le> txq_count (g_txq n) + 1" "g_arq (send_ack i q n) = g_arq n"
    using assms(2) by (simp_all add: send_ack_def txq_put_def Let_def txq_push_def)
qed

lemma relay_hop:
  assumes "relay_ready cr h n" "node_inv cr m" "linked n m" "\<not> is_zero (g_my_id m)" "next_hop (g_router n) (nh_dst h) = g_my_id m" "g_my_id n \<noteq> nh_dst h"
    and "nh_dst h \<noteq> NODE_ID_BROADCAST" "1 < nh_ttl h" "nh_ver_type h = net_ver_type PKT_DATA" "length p \<le> 214"
    and "link_addr_for (g_router n) i \<noteq> LINK_ADDR_NONE" "\<not> is_zero i"
  shows "\<exists>n' s'. on_rx cr ev (hop_to i s h p n) rssi snr n = Some n'
    \<and> last (txq_contents (g_txq n')) = hop_to (g_my_id n) s' (h\<lparr>nh_ttl := nh_ttl h - 1\<rparr>) p m"
proof -
  have r: "node_inv cr n" "\<not> is_zero (g_my_id n)" "nh_src h \<noteq> g_my_id n" "\<not> fst (seen_or_insert (g_forwarder n) (nh_src h) (nh_pkt_id h))" "txq_count (g_txq n) + 2 \<le> TXQ_DEPTH"
    using assms(1) by (auto simp: relay_ready_def)
  define f where "f = hop_to i s h p n"
  define k where "k = (send_ack i s n)\<lparr>g_forwarder := snd (seen_or_insert (g_forwarder n) (nh_src h) (nh_pkt_id h))\<rparr>"
  have t: "net_type_of (net_ver_type PKT_DATA) = PKT_DATA" "PKT_DATA \<noteq> PKT_LOC" "PKT_DATA \<noteq> PKT_TELEM" "PKT_DATA \<noteq> PKT_CONTROL" by code_simp+
  have rt: "g_router (send_ack i s n) = g_router n" using ctl_viewD(2) [of "send_ack i s n" n] by simp
  have "relay_decide h (send_ack i s n) = (\<lparr>d_action = FORWARD, d_next_hop = g_my_id m, d_out_ttl = nh_ttl h - 1\<rparr>, k)"
    using r(3,4) assms(4-8) node_invD(5) [OF r(1)] by (simp add: relay_decide_def decide_def pkt_ref_def case_prod_unfold Let_def k_def rt)
  moreover have "lh_next_hop (link_of f) \<noteq> LINK_ADDR_BROADCAST" using alias_pair(2) [OF node_invD(2) [OF r(1)] assms(11)] by (simp add: f_def hop_to_def)
  ultimately have rx: "on_rx cr ev f rssi snr n = (let n1 = forward_frame (ev_now ev) f (g_my_id m) (nh_ttl h - 1) k
      in Some (n1\<lparr>g_xfer := (g_xfer n1)\<lparr>xs_quiet_until := ev_now ev + 8000\<rparr>\<rparr>))"
    using t hop_heard [OF r(1) assms(11,12,9) r(3), of ev s p rssi snr] by (simp add: f_def [symmetric] rx_dispatch_def on_data_rx_def assms(9) Let_def)
  have "txq_ok (g_txq n)" using node_invD(1) [OF r(1)] by (simp add: tx_inv_def)
  note sq = send_ack_queue [OF this, of i s]
  have k: "txq_ok (g_txq k)" "txq_count (g_txq k) < TXQ_DEPTH" "g_router k = g_router n" using sq(1,2) r(5) by (simp_all add: k_def rt)
  have l: "link_addr_for (g_router n) (g_my_id m) = router_my_alias_for (g_router m) (g_my_id n)" "link_addr_for (g_router m) (g_my_id n) = router_my_alias_for (g_router n) (g_my_id m)"
      "link_addr_for (g_router n) (g_my_id m) \<noteq> LINK_ADDR_NONE" "link_addr_for (g_router m) (g_my_id n) \<noteq> LINK_ADDR_NONE"
    using assms(3) unfolding linked_def by metis+
  have "link_addr_for (g_router n) (g_my_id m) \<noteq> LINK_ADDR_BROADCAST" using alias_pair(2) [OF node_invD(2) [OF assms(2)] l(4)] l(1) by simp
  then have "forward_frame (ev_now ev) f (g_my_id m) (nh_ttl h - 1) k = tx_unicast (ev_now ev) (mk_frame
      \<lparr>lh_prev_hop = router_my_alias_for (g_router n) (g_my_id m), lh_next_hop = link_addr_for (g_router n) (g_my_id m), lh_link_seq = s, lh_flags = 0\<rparr>
      (h\<lparr>nh_ttl := nh_ttl h - 1\<rparr>) p) (g_my_id m) k"
    using assms(10) l(3) by (simp add: forward_frame_def f_def hop_to_def Let_def k(3) link_addr_or_bcast_def frame_sizes)
  with tx_unicast_queued [OF k(1,2) assms(10)] l \<open>link_addr_for (g_router n) (g_my_id m) \<noteq> LINK_ADDR_BROADCAST\<close>
  have "last (txq_contents (g_txq (forward_frame (ev_now ev) f (g_my_id m) (nh_ttl h - 1) k))) = hop_to (g_my_id n) (fst (next_seq (g_arq k))) (h\<lparr>nh_ttl := nh_ttl h - 1\<rparr>) p m"
    by (simp add: hop_to_def)
  then show ?thesis using rx unfolding f_def Let_def by (intro exI conjI) (assumption | simp)+
qed

text \<open>Along the path the packet keeps everything but its TTL; the last node delivers it.\<close>

lemma path_delivers:
  assumes "ns \<noteq> []" "\<forall>n\<in>set ns. relay_ready cr h n" "routed (nh_dst h) ns" "g_my_id (last ns) = nh_dst h" "length ns \<le> unat (nh_ttl h)"
    and "nh_dst h \<noteq> NODE_ID_BROADCAST" "nh_ver_type h = net_ver_type PKT_DATA" "length p \<le> 214"
    and "link_addr_for (g_router (hd ns)) i \<noteq> LINK_ADDR_NONE" "\<not> is_zero i"
  shows "\<exists>i' s' t. carry cr ev rssi snr ns (hop_to i s h p (hd ns)) = data_deliver (ev_now ev) (ev_rnd ev) p (h\<lparr>nh_ttl := t\<rparr>)
      ((send_ack i' s' (last ns))\<lparr>g_forwarder := snd (seen_or_insert (g_forwarder (last ns)) (nh_src h) (nh_pkt_id h))\<rparr>)"
  using assms
proof (induction ns arbitrary: h i s rule: induct_list012)
  case (2 n)
  then have n: "node_inv cr n" "nh_src h \<noteq> g_my_id n" "\<not> fst (seen_or_insert (g_forwarder n) (nh_src h) (nh_pkt_id h))" by (auto simp: relay_ready_def)
  have "node_inv cr (send_ack i s n)" using n(1) by (intro inv_intros)
  then have "rx_dispatch cr ev (hop_to i s h p n) h (link_of (hop_to i s h p n)) (send_ack i s n) = data_deliver (ev_now ev) (ev_rnd ev) p h
      ((send_ack i s n)\<lparr>g_forwarder := snd (seen_or_insert (g_forwarder n) (nh_src h) (nh_pkt_id h))\<rparr>)"
    using hop_delivered [of h "send_ack i s n" cr "hop_to i s h p n" _ p ev] "2.prems"(4,7) n(2,3) by (simp add: hop_to_def)
  then show ?case using hop_heard [OF n(1) _ "2.prems"(10,7) n(2), of ev s p rssi snr] "2.prems"(9)
    by (intro exI [of _ i] exI [of _ s] exI [of _ "nh_ttl h"]) simp
next
  case (3 n m ns)
  let ?h = "h\<lparr>nh_ttl := nh_ttl h - 1\<rparr>"
  have m: "node_inv cr m" "\<not> is_zero (g_my_id m)" "relay_ready cr h n" "\<not> is_zero (g_my_id n)" "linked n m" using "3.prems"(2,3) by (auto simp: relay_ready_def)
  have "2 \<le> unat (nh_ttl h)" using "3.prems"(5) by simp
  then have ttl: "1 < nh_ttl h" "unat (nh_ttl h - 1) = unat (nh_ttl h) - 1" by (simp_all add: word_less_nat_alt unat_sub word_le_nat_alt)
  obtain n' s' where n': "on_rx cr ev (hop_to i s h p n) rssi snr n = Some n'" "last (txq_contents (g_txq n')) = hop_to (g_my_id n) s' ?h p m"
    using relay_hop [OF m(3,1,5,2) _ _ "3.prems"(6) ttl(1) "3.prems"(7,8), of i ev s rssi snr] "3.prems"(3,9,10) by auto
  have "link_addr_for (g_router m) (g_my_id n) \<noteq> LINK_ADDR_NONE" using linked_known [OF m(5)] .
  then have "\<exists>i' s'' t. carry cr ev rssi snr (m # ns) (hop_to (g_my_id n) s' ?h p (hd (m # ns))) = data_deliver (ev_now ev) (ev_rnd ev) p (?h\<lparr>nh_ttl := t\<rparr>)
      ((send_ack i' s'' (last (m # ns)))\<lparr>g_forwarder := snd (seen_or_insert (g_forwarder (last (m # ns))) (nh_src ?h) (nh_pkt_id ?h))\<rparr>)"
    using "3.prems" m(4) ttl(2) by (intro "3.IH"(2)) (simp_all add: relay_ready_def)
  then show ?case using n' by simp
qed simp

end
