(* ===== verification/Spec2Isabelle.thy ===== *)
theory Spec2Isabelle
  imports Announce_Codec Packet Forwarder Link_Arq Sar Node_Table Locator_Dir Kiss Telemetry Radio_Chip Ble_Link Flood_Relay Ble_Session Host_Delivery
begin

text \<open>
  \<^bold>\<open>Verification of the agnostic-LoRa-Net firmware\<close>

  \<^bold>\<open>The program.\<close> A node is a microcontroller with a LoRa radio. It keeps neighbours and routes from the signed beacons it hears
  (\<^verbatim>\<open>src/lib/mesh\<close>: router, neighbour and routing table, announce codec), relays packets hop by hop with acknowledgements
  (forwarder, link ARQ), cuts large payloads into fragments (SAR), answers for identities in a distributed directory
  (locator), reports telemetry, obeys commands signed by a controller (control), and serves a host on USB or BLE through a
  text console, an HDLC tunnel or KISS. \<^verbatim>\<open>src/src/main.cpp\<close> holds the state of the node, the receive handler, the main loop and
  the console; \<^verbatim>\<open>src/src/radio_hal.cpp\<close> drives the chip.

  \<^bold>\<open>How the code is modelled.\<close> A class or the set of static variables of a file is a \<open>record\<close>, an enumeration a \<open>datatype\<close>, an operation a
  function from the old state to the new one, with the source's name. Integers keep their width (\<open>u8\<close>, \<open>u16\<close>, \<open>u32\<close>
  are words; the millisecond clock wraps and is compared as the code does, by the sign of a difference); \<^verbatim>\<open>float\<close> is binary32
  with rounding to even on the rationals. A buffer is a byte list; a read outside it is \<open>None\<close>, so that totality of a handler
  is memory safety. What comes from outside (clock, random numbers, received bytes, answers of the radio and BLE libraries,
  the battery converter) is an argument, collected in records (\<open>radio_env\<close>, \<open>loop_env\<close>, \<open>rx_env\<close>, \<open>con_env\<close>, \<open>boot_env\<close>, \<open>ble_turn\<close>). Ed25519 and
  BLAKE2b (\<^verbatim>\<open>src/lib/monocypher\<close>, third party) are the fields of the record \<open>crypto\<close>; where a property needs a law of theirs, it is
  a hypothesis of the property. What a node tells its host is the list \<open>g_out\<close> of events.

  \<^bold>\<open>The theories.\<close>

  \<^item> Shared: \<^verbatim>\<open>Prelude\<close> (words, little-endian access, searches, clock), \<^verbatim>\<open>Float32\<close>, and the contracts several components meet, as
    locales with an interpretation in each of them: \<^verbatim>\<open>Slot_Table\<close> (arrays of slots as maps: neighbours, aliases, routes, node ids,
    bindings), \<^verbatim>\<open>Lru_Cache\<close> (its extension by a time stamp: announce and battery caches), \<^verbatim>\<open>Dedup_Ring\<close> (seen-cache, flood cache),
    \<^verbatim>\<open>Wire_Codec\<close> (headers, announces, locator and telemetry messages), \<open>bounded_fifo\<close> in \<^verbatim>\<open>Tx_Queue\<close> (transmit queue, tunnel queue),
    \<open>flash_record\<close> in \<^verbatim>\<open>Config\<close> (the seven records in flash), \<open>next_hop_oracle\<close> in \<^verbatim>\<open>Forwarder\<close> (what the relay decision needs of a
    router), \<open>rounding\<close> in \<^verbatim>\<open>Float32\<close>.
  \<^item> \<^verbatim>\<open>src/lib/mesh\<close>: \<^verbatim>\<open>Mesh_Types\<close>, \<^verbatim>\<open>Link_Metric\<close>, \<^verbatim>\<open>Neighbor_Table\<close>, \<^verbatim>\<open>Routing_Table\<close>, \<^verbatim>\<open>Router\<close>, \<^verbatim>\<open>Announce_Codec\<close>, \<^verbatim>\<open>Forwarder\<close>, \<^verbatim>\<open>Link_Arq\<close>, \<^verbatim>\<open>Sar\<close>,
    \<^verbatim>\<open>Node_Table\<close>, \<^verbatim>\<open>Locator_Dir\<close>, \<^verbatim>\<open>Kiss\<close>, \<^verbatim>\<open>Telemetry\<close>, \<^verbatim>\<open>Control\<close>, one per header and source file of the same name; \<^verbatim>\<open>Packet\<close> for
    \<^verbatim>\<open>src/include/packet.h\<close>.
  \<^item> \<^verbatim>\<open>src/src/radio_hal.cpp\<close>: \<^verbatim>\<open>Radio_Hal\<close> (listen before talk: \<^verbatim>\<open>send\<close>, \<^verbatim>\<open>poll\<close>, the interrupt) and \<^verbatim>\<open>Radio_Chip\<close> (\<^verbatim>\<open>begin\<close>, the setters of
    \<^verbatim>\<open>apply_config\<close>).
  \<^item> \<^verbatim>\<open>src/src/main.cpp\<close>, in the order of the file: \<^verbatim>\<open>Tx_Queue\<close>; \<^verbatim>\<open>Node\<close> (the state of the node as the record \<open>node\<close>, its invariant
    \<open>node_inv\<close>, the senders); \<^verbatim>\<open>Config\<close> (flash, keys, \<^verbatim>\<open>setup\<close>); \<^verbatim>\<open>Node_Services\<close> (directory and telemetry handlers); \<^verbatim>\<open>Node_Control\<close>
    (signed commands and their rails); \<^verbatim>\<open>Node_Transfer\<close> and \<^verbatim>\<open>Host_Tunnel\<close> (tunnel, transfers); \<^verbatim>\<open>Node_Rx\<close> (\<^verbatim>\<open>on_rx\<close>, \<^verbatim>\<open>agn_loop_once\<close>) and \<^verbatim>\<open>Flood_Relay\<close>
    (flooded packets through \<^verbatim>\<open>on_rx\<close>);
    \<^verbatim>\<open>Console\<close> and \<^verbatim>\<open>Console_Props\<close> (\<^verbatim>\<open>handle_command\<close>); \<^verbatim>\<open>Ble_Link\<close> and \<^verbatim>\<open>Ble_Session\<close> (\<^verbatim>\<open>host_write\<close>, \<^verbatim>\<open>ble_poll\<close>, callbacks).
  \<^item> Composition: \<^verbatim>\<open>Node_Run\<close> (all events of one node), \<^verbatim>\<open>Node_Net\<close> (a frame of one node at another), \<^verbatim>\<open>Host_Delivery\<close> (paths of relays),
    and this theory.

  \<^bold>\<open>What is shown.\<close> Each operation keeps the invariant of its component; \<open>node_inv\<close> puts them together, and from \<^verbatim>\<open>setup\<close> on every
  sequence of events keeps it and ends in a state, so no handler reads outside a buffer whatever arrives
  (\<^verbatim>\<open>Node_Run.node_run_safe\<close>). Routing: next hops are never blocked or the node itself and stored routes stay below
  the cost and hop ceilings, a table update is the distance-vector rule, the relay decision is characterised case by case,
  blocks isolate a link, TTL bounds relays, a flood is handled and passed on once. Links: a hop is acknowledged and forgotten, retried exactly five
  times, frames are handed to the chip in order and lost only when it refuses one, a scan for a free channel ends. Transfers: fragments in any order give the blob, one
  request for missing ones is enough. Security: a control frame changes power, blocks and saved settings only as a command signed by
  the controller with a fresh counter, none twice across reboots; a power that is not confirmed reverts, and a block
  that got a lifetime ends by itself; a beacon proves its sender. Hosts: what
  one host sends another receives, over up to sixteen hops (\<open>host_to_host\<close> below). Console and flash: loaded blobs, printed ids and
  settings come back unchanged. Codecs: round trips, and refusal of everything else.

  Some theorems state what the code does where it does not do what its comments say: a refused radio setting leaves the
  chip between two configurations, an abandoned BLE frame costs the client every later one, a crowded signed beacon
  carries no route, a status reply with ten neighbours or more is lost, a directory query for an id of more than four
  bytes is not answered, a TNC hands nothing to its KISS host, a second unconfirmed power step forgets the confirmed
  power, a signed block gets no lifetime while eight others are left over from links unblocked at the console.

  \<^bold>\<open>Bounds and fuel.\<close> All recursion is structural or has a termination proof; no definition uses fuel. Capacities are the source's
  (32 neighbours, 64 routes, 64 node ids, 8 blocks, 6 queued frames, 4 retransmission slots, 8192-byte transfers,
  255-byte frames). \<open>ble_send\<close> consumes a list of the stack's answers and says \<open>Ble_pending\<close> when it is too short; \<open>carry\<close> walks a list of
  nodes.

  \<^bold>\<open>Not modelled.\<close> Text that is only printed (usage, \<^verbatim>\<open>info\<close>, \<^verbatim>\<open>help\<close>, heartbeat and log lines); LED, watchdog, hard-fault capture,
  bootloader entry, task creation; pins, power rails and the SPI bus; the BLE stack's bonds and security; board files;
  Monocypher; the controller, host libraries and web pages, which are other programs. A flash write is taken to
  succeed, and a save that the code skips because nothing changed writes the same bytes. \<^verbatim>\<open>atof\<close> is modelled without its
  hexadecimal, infinite and not-a-number forms. A frame in the air is heard as it was sent or not at all: the check sum
  of the chip is trusted.
\<close>

section \<open>From host to host\<close>

text \<open>C2. What one host sends, another receives, across the mesh. Two hosts sit at two nodes in tunnel mode, joined by a path of
  at most sixteen hops on which each node routes the destination to the next, knows the link to it, has room in its queue
  and has not seen the packet. The first host writes an envelope with the other node's id and a payload that fits one
  frame, whatever bytes it holds (but not the leading bytes of a transfer fragment). Its node queues one frame; carried
  along the path, heard by each node in turn, it makes the last node write to its host an HDLC frame from which the
  host's decoder reads the first node's id and exactly the payload.\<close>

theorem host_to_host:
  assumes "node_inv cr a" "\<not> is_zero (g_my_id a)" "linked a (hd ns)" "next_hop (g_router a) (g_my_id (last ns)) = g_my_id (hd ns)" "txq_count (g_txq a) < TXQ_DEPTH"
    and "g_tunnel_mode a" "\<not> g_kiss_mode a" "\<not> co_in_frame (g_con a)" "g_tunnel_mode (last ns)" "\<not> g_kiss_mode (last ns)"
    and "h = \<lparr>nh_ver_type = net_ver_type PKT_DATA, nh_flags = 0, nh_ttl = DEFAULT_TTL, nh_dst = g_my_id (last ns), nh_src = g_my_id a, nh_pkt_id = g_data_seq a\<rparr>"
    and "ns \<noteq> []" "length ns \<le> 16" "\<forall>n\<in>set ns. relay_ready cr h n" "routed (g_my_id (last ns)) ns" "g_my_id (last ns) \<noteq> NODE_ID_BROADCAST"
    and "length p \<le> MAX_PAYLOAD - HEADER_BYTES" "\<not> sar_is_done p" "\<not> sar_is_nack p" "\<not> sar_is_fragment p" "\<not> co_in_frame s"
  shows "\<exists>a1 f b1 bs. feed_all (usb_byte cr e) (hdlc_frame (envelope (g_my_id (last ns)) p)) a = Some a1
    \<and> txq_contents (g_txq a1) = txq_contents (g_txq a) @ [f]
    \<and> carry cr ev rssi snr ns f = Some b1
    \<and> g_out b1 = g_out (last ns) @ [Host_bytes bs]
    \<and> snd (hdlc_run bs s) = [envelope (g_my_id a) p]"
proof -
  let ?i = "g_my_id a" and ?d = "g_my_id (last ns)" and ?n = "hd ns"
  define m where "m = a\<lparr>g_forwarder := mark_seen (g_forwarder a) ?i (g_data_seq a)\<rparr>"
  define q where "q = fst (next_seq (g_arq a))"
  have h: "nh_dst h = ?d" "nh_src h = ?i" "nh_ver_type h = net_ver_type PKT_DATA" "unat (nh_ttl h) = 16" by (simp_all add: assms(11) DEFAULT_TTL_def)
  have len: "length p \<le> 214" "length p \<le> TUN_HOST_MAX" using assms(17) by (simp_all add: MAX_PAYLOAD_def HEADER_BYTES_def TUN_HOST_MAX_def)
  have "last ns \<in> set ns" "?n \<in> set ns" using assms(12) by simp_all
  then have n: "node_inv cr ?n" "\<not> is_zero (g_my_id ?n)" "g_my_id ?n \<noteq> ?i" "?d \<noteq> ?i" using assms(14) h by (auto simp: relay_ready_def)
  have ver: "net_ver_of (nh_ver_type h) = PROTO_VERSION" "net_type_of (nh_ver_type h) \<noteq> PKT_BEACON" unfolding h(3) by code_simp+
  have m: "node_inv cr m" "linked m ?n" "g_my_id m = ?i" "g_txq m = g_txq a" "g_arq m = g_arq a" "g_router m = g_router a" using assms(1,3) by (simp_all add: m_def inv_intros)
  have hop: "txq_contents (g_txq (tx_unicast (ce_now e) (mk_frame (unicast_link (g_router a) (g_my_id ?n) (ucast (g_data_seq a))) h p) (g_my_id ?n) m)) = txq_contents (g_txq a) @ [hop_to ?i q h p ?n]"
    using hop_frame(1) [OF m(1) n(1) m(2), of h p q "hop_to ?i q h p ?n" "ce_now e" "ucast (g_data_seq a)"] n(2,3) assms(2,5) ver h(2) len(1)
    by (simp add: m q_def hop_to_def)
  obtain c where c: "feed_all (usb_byte cr e) (hdlc_frame (envelope ?d p)) a = Some ((tunnel_send (ce_now e) ?d p a)\<lparr>g_con := c\<rparr>)"
    using usb_frame [OF assms(7,6,8), of cr e] tunnel_input_frame [OF assms(8), of "ce_now e" ?d p] len(2) by auto
  have "tunnel_send (ce_now e) ?d p a = (let n = tx_unicast (ce_now e) (mk_frame (unicast_link (g_router a) (g_my_id ?n) (ucast (g_data_seq a))) h p) (g_my_id ?n) m in n\<lparr>g_data_seq := g_data_seq n + 1\<rparr>)"
    using n(4) assms(4,17) by (simp add: tunnel_send_def send_data_bytes_def Let_def assms(11) m_def)
  then have out: "txq_contents (g_txq ((tunnel_send (ce_now e) ?d p a)\<lparr>g_con := c\<rparr>)) = txq_contents (g_txq a) @ [hop_to ?i q h p ?n]" using hop by (simp add: Let_def)
  have "link_addr_for (g_router ?n) ?i \<noteq> LINK_ADDR_NONE" using linked_known [OF assms(3)] .
  note dl = path_delivers [OF assms(12,14) _ _ _ _ h(3) len(1) this assms(2)]
  have "\<exists>i' s' t. carry cr ev rssi snr ns (hop_to ?i q h p ?n) = data_deliver (ev_now ev) (ev_rnd ev) p (h\<lparr>nh_ttl := t\<rparr>)
      ((send_ack i' s' (last ns))\<lparr>g_forwarder := snd (seen_or_insert (g_forwarder (last ns)) (nh_src h) (nh_pkt_id h))\<rparr>)"
    using dl assms(13,15,16) unfolding h(1,4) by simp
  then obtain i' s' t where del: "carry cr ev rssi snr ns (hop_to ?i q h p ?n) = data_deliver (ev_now ev) (ev_rnd ev) p (h\<lparr>nh_ttl := t\<rparr>)
      ((send_ack i' s' (last ns))\<lparr>g_forwarder := snd (seen_or_insert (g_forwarder (last ns)) (nh_src h) (nh_pkt_id h))\<rparr>)" by blast
  define b where "b = (send_ack i' s' (last ns))\<lparr>g_forwarder := snd (seen_or_insert (g_forwarder (last ns)) (nh_src h) (nh_pkt_id h))\<rparr>"
  have "carry cr ev rssi snr ns (hop_to ?i q h p ?n) = Some (emit (Host_bytes (hdlc_frame (envelope ?i p))) b)"
    using del assms(9,10,18-20) tunnel_emit_hdlc(1) [of b p ?i] len(2) by (simp add: data_deliver_def host_tunnel_active_def b_def h(2))
  moreover have "g_out (emit ev' b) = g_out (last ns) @ [ev']" for ev' by (simp add: emit_def b_def)
  moreover have "snd (hdlc_run (hdlc_frame (envelope ?i p)) s) = [envelope ?i p]" using tunnel_emit_hdlc(2) [of "last ns" p s ?i] assms(10,21) len(2) by simp
  ultimately show ?thesis using c out by (intro exI conjI) (assumption | simp)+
qed

theorem host_to_host_witness:
  "\<exists>a1 f b1 bs. feed_all (usb_byte toy_crypto demo_env) (hdlc_frame (envelope (nid_read (replicate 16 8)) [0x48, 0x7E, 0x0A])) (demo_a\<lparr>g_tunnel_mode := True\<rparr>) = Some a1
    \<and> txq_contents (g_txq a1) = [f]
    \<and> on_rx toy_crypto \<lparr>ev_now = 9, ev_rnd = 0, ev_cfg_ok = True\<rparr> f 0 0 (demo_b\<lparr>g_tunnel_mode := True\<rparr>) = Some b1
    \<and> g_out b1 = [Host_bytes bs]
    \<and> snd (hdlc_run bs ConState_init) = [envelope (nid_read (replicate 16 7)) [0x48, 0x7E, 0x0A]]"
proof -
  let ?p = "[0x48, 0x7E, 0x0A] :: bytes"
  define a where "a = demo_a\<lparr>g_tunnel_mode := True\<rparr>"
  define b where "b = demo_b\<lparr>g_tunnel_mode := True\<rparr>"
  define h where "h = \<lparr>nh_ver_type = net_ver_type PKT_DATA, nh_flags = 0, nh_ttl = DEFAULT_TTL, nh_dst = g_my_id (last [b]), nh_src = g_my_id a, nh_pkt_id = g_data_seq a\<rparr>"
  have ab: "node_inv toy_crypto a" "node_inv toy_crypto b" "linked a b" by (simp_all add: a_def b_def demo_pair)
  have ids: "g_my_id a = nid_read (replicate 16 7)" "g_my_id b = nid_read (replicate 16 8)" by (simp_all add: a_def b_def demo_pair)
  have z: "\<not> is_zero (g_my_id a)" "\<not> is_zero (g_my_id b)" "g_my_id b \<noteq> g_my_id a" "g_my_id b \<noteq> NODE_ID_BROADCAST" unfolding ids by code_simp+
  have nh: "next_hop (g_router a) (g_my_id b) = g_my_id b" using demo_route by (simp add: ids) (simp add: a_def demo_a_def)
  have "txq_count TxQueue_init < TXQ_DEPTH" "txq_count TxQueue_init + 2 \<le> TXQ_DEPTH" "txq_contents TxQueue_init = []" by code_simp+
  then have q: "txq_count (g_txq a) < TXQ_DEPTH" "txq_count (g_txq b) + 2 \<le> TXQ_DEPTH" "txq_contents (g_txq a) = []" by (simp_all add: a_def b_def demo_pair)
  have md: "g_tunnel_mode a" "\<not> g_kiss_mode a" "\<not> co_in_frame (g_con a)" "g_tunnel_mode (last [b])" "\<not> g_kiss_mode (last [b])" "g_out b = []" "g_data_seq a = 0"
    "g_forwarder b = Forwarder_init (g_my_id b)" "\<not> co_in_frame ConState_init"
    by (simp_all add: a_def b_def demo_a_def demo_b_def demo_peer_def node_boot_def ConState_init_def)
  have pay: "length ?p \<le> MAX_PAYLOAD - HEADER_BYTES" "\<not> sar_is_done ?p" "\<not> sar_is_nack ?p" "\<not> sar_is_fragment ?p" by code_simp+
  have "\<not> fst (seen_or_insert (g_forwarder b) (g_my_id a) (g_data_seq a))" unfolding md(7,8) ids by code_simp
  then have ready: "\<forall>n\<in>set [b]. relay_ready toy_crypto h n" using ab(2) z(2,3) q(2) by (simp add: relay_ready_def h_def)
  from host_to_host [OF ab(1) z(1) _ _ q(1) md(1-5) h_def _ _ ready _ _ pay md(9), of demo_env "\<lparr>ev_now = 9, ev_rnd = 0, ev_cfg_ok = True\<rparr>" 0 0]
  show ?thesis using ab(3) nh z(4) unfolding q(3) list.sel last.simps if_True carry.simps by (simp add: md(6) ids) (simp add: a_def b_def)
qed

end
